(* ===== verification/Prelude.thy ===== *)
theory Prelude
  imports Main "HOL-Library.Word" "HOL-Library.Sublist"
begin

text \<open>
  Shared vocabulary of the development: the machine integers of the firmware, byte
  strings, the little-endian layout of packed structs, the C string routines the sources
  call (\<open>strncpy\<close>, decimal output of \<open>snprintf\<close>), and list lemmas the components share.
  The collections \<open>config_defs\<close> (values of the constants of config.h) and
  \<open>codec\<close> (layout of the packed structs) are filled by the later theories.
\<close>

named_theorems config_defs "values of the configuration constants"
named_theorems address_defs "addresses, ports and credentials"
named_theorems codec "layout of packed structs"

section \<open>Machine integers and bytes\<close>

type_synonym u8 = "8 word"
type_synonym u16 = "16 word"
type_synonym u32 = "32 word"
type_synonym bytes = "8 word list"

text \<open>A station address: the six bytes of \<open>uint8_t mac[6]\<close>; \<open>memcmp(a, b, 6) == 0\<close> is equality.\<close>

datatype mac = Mac u8 u8 u8 u8 u8 u8

text \<open>Numbers below 256 and their bytes.\<close>

lemma unat_of_nat_u8: "i < 256 \<Longrightarrow> unat (of_nat i :: u8) = i"
  by (simp add: unat_of_nat)

lemma of_nat_u8_eq: "i < 256 \<Longrightarrow> j < 256 \<Longrightarrow> (of_nat i :: u8) = of_nat j \<longleftrightarrow> i = j"
  by (metis unat_of_nat_u8)

section \<open>Little-endian packed fields\<close>

text \<open>
  The ESP32-S3 is little-endian and every wire struct is \<open>packed\<close>, so a struct copied with
  \<open>memcpy\<close> is the concatenation of its fields, least significant byte first.
\<close>

definition le16 :: "u16 \<Rightarrow> bytes" where
  "le16 w = [ucast w, ucast (drop_bit 8 w)]"

definition le16_dec :: "u8 \<Rightarrow> u8 \<Rightarrow> u16" where
  "le16_dec a b = or (ucast a) (push_bit 8 (ucast b))"

definition le32 :: "u32 \<Rightarrow> bytes" where
  "le32 w = [ucast w, ucast (drop_bit 8 w), ucast (drop_bit 16 w), ucast (drop_bit 24 w)]"

definition le32_dec :: "u8 \<Rightarrow> u8 \<Rightarrow> u8 \<Rightarrow> u8 \<Rightarrow> u32" where
  "le32_dec a b c d =
     or (ucast a) (or (push_bit 8 (ucast b)) (or (push_bit 16 (ucast c)) (push_bit 24 (ucast d))))"

lemma length_le16 [simp]: "length (le16 w) = 2"
  by (simp add: le16_def)

lemma length_le32 [simp]: "length (le32 w) = 4"
  by (simp add: le32_def)

lemma le16_roundtrip [codec]: "le16_dec (ucast w) (ucast (drop_bit 8 w)) = w"
  by (rule bit_word_eqI) (auto simp: le16_dec_def bit_simps)

lemma le32_roundtrip [codec]:
  "le32_dec (ucast w) (ucast (drop_bit 8 w)) (ucast (drop_bit 16 w)) (ucast (drop_bit 24 w)) = w"
proof (rule bit_word_eqI)
  fix n assume n: "n < LENGTH(32)"
  then consider "n < 8" | "8 \<le> n" "n < 16" | "16 \<le> n" "n < 24" | "24 \<le> n" "n < 32"
    by (simp, linarith)
  then show "bit (le32_dec (ucast w) (ucast (drop_bit 8 w)) (ucast (drop_bit 16 w))
      (ucast (drop_bit 24 w))) n = bit w n"
    using n by cases (auto simp: le32_dec_def bit_simps)
qed

section \<open>C strings\<close>

text \<open>
  The characters of a NUL-terminated string, and \<open>strncpy(dst, src, n)\<close>: at most \<open>n\<close>
  characters of \<open>src\<close> up to its NUL, the rest of the \<open>n\<close> bytes filled with NUL.
\<close>

text \<open>The bytes of a string literal.\<close>

definition c_text :: "string \<Rightarrow> bytes" where
  "c_text s = map of_char s"

definition c_str :: "bytes \<Rightarrow> bytes" where
  "c_str bs = takeWhile (\<lambda>b. b \<noteq> 0) bs"

definition strncpy :: "nat \<Rightarrow> bytes \<Rightarrow> bytes" where
  "strncpy n src = take n (c_str src @ replicate n 0)"

lemma length_strncpy [simp]: "length (strncpy n src) = n"
  by (simp add: strncpy_def)

lemma c_str_no_nul: "0 \<notin> set (c_str bs)"
  unfolding c_str_def using set_takeWhileD [of 0 "\<lambda>b. b \<noteq> 0" bs] by auto

lemma c_str_id: "0 \<notin> set bs \<Longrightarrow> c_str (bs @ 0 # cs) = bs"
  unfolding c_str_def by (subst takeWhile_append2) auto

lemma c_str_all: "0 \<notin> set bs \<Longrightarrow> c_str bs = bs"
  by (auto simp: c_str_def takeWhile_eq_all_conv)

lemma c_str_append_nul: "c_str (bs @ [0]) = c_str bs"
  by (induction bs) (auto simp: c_str_def)

lemma length_c_str: "length (c_str bs) \<le> length bs"
  by (simp add: c_str_def length_takeWhile_le)

lemma c_str_replicate_nul: "0 \<notin> set bs \<Longrightarrow> c_str (bs @ replicate n 0) = bs"
  by (cases n) (simp_all add: c_str_all c_str_id)

lemma c_str_strncpy: "c_str (strncpy n src) = take n (c_str src)"
proof -
  have "0 \<notin> set (take n (c_str src))"
    using c_str_no_nul [of src] by (meson in_set_takeD)
  then have "c_str (take n (c_str src) @ replicate (n - length (c_str src)) 0) = take n (c_str src)"
    by (rule c_str_replicate_nul)
  then show ?thesis
    by (simp add: strncpy_def min_def)
qed

text \<open>A second bounded copy of an already bounded, terminated field changes nothing.\<close>

lemma strncpy_idem: "strncpy n (strncpy n src @ [0]) = strncpy n src"
proof -
  have "c_str (strncpy n src @ [0]) = take n (c_str src)"
    by (simp add: c_str_append_nul c_str_strncpy)
  then show ?thesis
    by (simp add: strncpy_def)
qed

section \<open>Decimal output\<close>

text \<open>The digits \<open>snprintf\<close> writes for \<open>%u\<close>, as ASCII bytes.\<close>

fun dec_digits :: "nat \<Rightarrow> bytes" where
  "dec_digits n = (if n < 10 then [of_nat (48 + n)]
                   else dec_digits (n div 10) @ [of_nat (48 + n mod 10)])"

declare dec_digits.simps [simp del]

definition dec_u8 :: "u8 \<Rightarrow> bytes" where
  "dec_u8 w = dec_digits (unat w)"

definition is_digit :: "u8 \<Rightarrow> bool" where
  "is_digit b \<longleftrightarrow> 48 \<le> b \<and> b \<le> 57"

lemma digit_unat: "d < 10 \<Longrightarrow> unat (of_nat (48 + d) :: u8) = 48 + d"
  by (subst unat_of_nat) simp

lemma is_digit_of_nat: "d < 10 \<Longrightarrow> is_digit (of_nat (48 + d))"
  using digit_unat [of d] by (simp add: is_digit_def word_le_nat_alt)

lemma dec_digits_nonempty: "dec_digits n \<noteq> []"
  by (subst dec_digits.simps) simp

lemma dec_digits_are_digits: "b \<in> set (dec_digits n) \<Longrightarrow> is_digit b"
proof (induction n rule: dec_digits.induct)
  case (1 n)
  show ?case
  proof (cases "n < 10")
    case True
    with "1.prems" show ?thesis
      using is_digit_of_nat [of n] by (simp add: dec_digits.simps [of n])
  next
    case False
    with "1" show ?thesis
      using is_digit_of_nat [of "n mod 10"] by (auto simp: dec_digits.simps [of n])
  qed
qed

lemma length_dec_digits_div: "10 \<le> n \<Longrightarrow> length (dec_digits n) = Suc (length (dec_digits (n div 10)))"
  by (subst dec_digits.simps) simp

lemma length_dec_digits_one: "n < 10 \<Longrightarrow> length (dec_digits n) = 1"
  by (subst dec_digits.simps) simp

lemma length_dec_digits_small: "n < 1000 \<Longrightarrow> length (dec_digits n) \<le> 3"
proof -
  assume n: "n < 1000"
  then have "n div 10 < 100" "n div 10 div 10 < 10" by simp_all
  then have "length (dec_digits (n div 10 div 10)) = 1" by (intro length_dec_digits_one)
  then have "length (dec_digits (n div 10)) \<le> 2"
    by (cases "n div 10 < 10") (simp_all add: length_dec_digits_one length_dec_digits_div)
  then show ?thesis
    by (cases "n < 10") (simp_all add: length_dec_digits_one length_dec_digits_div)
qed

lemma length_dec_u8: "length (dec_u8 w) \<le> 3"
proof -
  have "unat w < 256" using unsigned_less [of w, where 'a = nat] by simp
  then show ?thesis unfolding dec_u8_def by (intro length_dec_digits_small) simp
qed

text \<open>Reading the digits back, for the round-trip properties.\<close>

definition dec_value :: "bytes \<Rightarrow> nat" where
  "dec_value bs = foldl (\<lambda>acc b. 10 * acc + (unat b - 48)) 0 bs"

lemma dec_value_snoc: "dec_value (bs @ [b]) = 10 * dec_value bs + (unat b - 48)"
  by (simp add: dec_value_def)

lemma dec_value_digits: "dec_value (dec_digits n) = n"
proof (induction n rule: dec_digits.induct)
  case (1 n)
  show ?case
  proof (cases "n < 10")
    case True
    then show ?thesis
      using digit_unat [of n] by (simp add: dec_digits.simps [of n] dec_value_def)
  next
    case False
    with "1" have "dec_value (dec_digits (n div 10)) = n div 10" by simp
    with False show ?thesis
      using digit_unat [of "n mod 10"] by (simp add: dec_digits.simps [of n] dec_value_snoc)
  qed
qed

section \<open>Lists\<close>

lemma prefix_snoc_cases:
  "xs = ys \<or> (\<exists>z. ys = xs @ [z]) \<Longrightarrow> prefix xs ys"
  by auto

lemma prefix_filter: "prefix xs ys \<Longrightarrow> prefix (filter P xs) (filter P ys)"
  by (auto simp: prefix_def)

lemma prefix_last_nth: "prefix xs ys \<Longrightarrow> xs \<noteq> [] \<Longrightarrow> last xs = ys ! (length xs - 1)"
  by (auto simp: prefix_def nth_append last_conv_nth)

lemma prefix_same_length: "prefix xs ys \<Longrightarrow> length ys \<le> length xs \<Longrightarrow> xs = ys"
  by (auto simp: prefix_def)

lemma prefix_snoc_nth:
  "prefix xs ys \<Longrightarrow> length ys = Suc (length xs) \<Longrightarrow> ys = xs @ [last ys]"
proof -
  assume "prefix xs ys" "length ys = Suc (length xs)"
  then obtain zs where "ys = xs @ zs" "length zs = Suc 0" by (auto simp: prefix_def)
  then show ?thesis by (auto simp: length_Suc_conv)
qed

lemma distinct_adj_prefix: "distinct_adj (xs @ ys) \<Longrightarrow> distinct_adj xs"
  by (simp add: distinct_adj_append_iff)

lemma distinct_adj_snoc:
  "distinct_adj (xs @ [x]) \<longleftrightarrow> distinct_adj xs \<and> (xs = [] \<or> last xs \<noteq> x)"
  by (auto simp: distinct_adj_append_iff)

lemma distinct_neighbours: "distinct xs \<Longrightarrow> distinct_adj xs"
  by (simp add: distinct_adj_conv_nth nth_eq_iff_index_eq)

lemma distinct_subseq: "subseq xs ys \<Longrightarrow> distinct ys \<Longrightarrow> distinct xs"
  by (induction rule: list_emb.induct) (auto dest: list_emb_set)

text \<open>Two interleaved sequences, each without equal neighbours and with disjoint values, have none.\<close>

lemma distinct_adj_merge:
  assumes "distinct_adj (map f (filter P xs))" and "distinct_adj (map f (filter (\<lambda>x. \<not> P x) xs))"
    and "\<And>x y. x \<in> set xs \<Longrightarrow> y \<in> set xs \<Longrightarrow> P x \<Longrightarrow> \<not> P y \<Longrightarrow> f x \<noteq> f y"
  shows "distinct_adj (map f xs)"
  using assms
proof (induction xs rule: rev_induct)
  case Nil
  show ?case by simp
next
  case (snoc x xs)
  have IH: "distinct_adj (map f xs)"
  proof (rule snoc.IH)
    show "distinct_adj (map f (filter P xs))"
      using snoc.prems(1) by (auto split: if_splits)
    show "distinct_adj (map f (filter (\<lambda>x. \<not> P x) xs))"
      using snoc.prems(2) by (auto split: if_splits)
  qed (use snoc.prems(3) in auto)
  have "f (last xs) \<noteq> f x" if ne: "xs \<noteq> []"
  proof (cases "P (last xs) = P x")
    case True
    obtain ys y where xs: "xs = ys @ [y]" using ne by (cases xs rule: rev_cases) auto
    with True show ?thesis
      using snoc.prems(1,2) by (cases "P x") (auto simp: distinct_adj_snoc)
  next
    case False
    have "last xs \<in> set xs" using ne by simp
    then show ?thesis using False snoc.prems(3) [of "last xs" x] snoc.prems(3) [of x "last xs"] by auto
  qed
  with IH show ?case by (auto simp: distinct_adj_snoc last_map)
qed

end
