(* ===== verification/Rtos.thy ===== *)
theory Rtos
  imports Prelude
begin

text \<open>
  The interface of the FreeRTOS queues. The kernel is not part of this repository: a
  component that uses a queue takes its operations as the argument \<open>Q\<close>, and relies on the
  documented behaviour stated as the locale \<open>rtos_queue\<close> (a bounded FIFO; a send with no
  wait fails exactly when the queue is full; creation may fail for lack of memory). The
  locale holds the facts its clients share. \<open>list_queue\<close> is a concrete queue that satisfies
  the contract; the witnesses of the development run on it.
\<close>

record ('a, 'q) queue_ops =
  q_create :: "nat \<Rightarrow> 'q option"             \<comment> \<open>\<open>xQueueCreate\<close>; \<open>None\<close> is a null handle\<close>
  q_send :: "'q \<Rightarrow> 'a \<Rightarrow> 'q option"           \<comment> \<open>\<open>xQueueSend\<close>; \<open>Some\<close> is \<open>pdTRUE\<close>\<close>
  q_receive :: "'q \<Rightarrow> ('a \<times> 'q) option"     \<comment> \<open>\<open>xQueueReceive\<close>; \<open>Some\<close> is \<open>pdTRUE\<close>\<close>

text \<open>A queue between two operations: valid and not over its capacity.\<close>

definition queue_inv :: "('q \<Rightarrow> bool) \<Rightarrow> ('q \<Rightarrow> 'a list) \<Rightarrow> ('q \<Rightarrow> nat) \<Rightarrow> 'q \<Rightarrow> bool" where
  "queue_inv valid contents capacity q \<longleftrightarrow> valid q \<and> length (contents q) \<le> capacity q"

locale rtos_queue =
  fixes Q :: "('a, 'q) queue_ops"
    and valid :: "'q \<Rightarrow> bool"
    and contents :: "'q \<Rightarrow> 'a list"
    and capacity :: "'q \<Rightarrow> nat"
  assumes create: "q_create Q n = Some q \<Longrightarrow> valid q \<and> contents q = [] \<and> capacity q = n"
    and send_room: "valid q \<Longrightarrow> length (contents q) < capacity q \<Longrightarrow>
      \<exists>q'. q_send Q q x = Some q' \<and> valid q' \<and> contents q' = contents q @ [x] \<and> capacity q' = capacity q"
    and send_full: "valid q \<Longrightarrow> capacity q \<le> length (contents q) \<Longrightarrow> q_send Q q x = None"
    and receive_empty: "valid q \<Longrightarrow> contents q = [] \<Longrightarrow> q_receive Q q = None"
    and receive_cons: "valid q \<Longrightarrow> contents q = x # xs \<Longrightarrow>
      \<exists>q'. q_receive Q q = Some (x, q') \<and> valid q' \<and> contents q' = xs \<and> capacity q' = capacity q"
begin

abbreviation qinv :: "'q \<Rightarrow> bool" where
  "qinv \<equiv> queue_inv valid contents capacity"

lemma create_inv: "q_create Q n = Some q \<Longrightarrow> qinv q \<and> contents q = [] \<and> capacity q = n"
  using create by (auto simp: queue_inv_def)

lemma send_SomeD:
  assumes "valid q" and "q_send Q q x = Some q'"
  shows "qinv q' \<and> contents q' = contents q @ [x] \<and> capacity q' = capacity q"
proof -
  have room: "length (contents q) < capacity q"
    using assms send_full [of q x] by (cases "length (contents q) < capacity q") auto
  then show ?thesis
    using assms send_room [of q x] by (auto simp: queue_inv_def)
qed

lemma send_None_iff: "qinv q \<Longrightarrow> q_send Q q x = None \<longleftrightarrow> length (contents q) = capacity q"
  using send_room [of q x] send_full [of q x] unfolding queue_inv_def
  by (metis le_less option.distinct(1) order_refl)

lemma receive_SomeD:
  assumes "qinv q" and "q_receive Q q = Some (x, q')"
  shows "qinv q' \<and> contents q = x # contents q' \<and> capacity q' = capacity q"
proof (cases "contents q")
  case Nil
  then show ?thesis using assms receive_empty [of q] by (simp add: queue_inv_def)
next
  case (Cons y ys)
  then show ?thesis using assms receive_cons [of q y ys] by (auto simp: queue_inv_def)
qed

lemma receive_None_iff: "valid q \<Longrightarrow> q_receive Q q = None \<longleftrightarrow> contents q = []"
  using receive_empty [of q] receive_cons [of q] by (cases "contents q") auto

lemma receive_Some_iff:
  "qinv q \<Longrightarrow> contents q = x # xs \<Longrightarrow>
     \<exists>q'. q_receive Q q = Some (x, q') \<and> qinv q' \<and> contents q' = xs \<and> capacity q' = capacity q"
  using receive_cons [of q x xs] by (auto simp: queue_inv_def)

end

text \<open>A concrete bounded FIFO: the items and the capacity.\<close>

type_synonym 'a list_q = "'a list \<times> nat"

definition list_queue :: "('a, 'a list_q) queue_ops" where
  "list_queue = \<lparr>
     q_create = (\<lambda>n. Some ([], n)),
     q_send = (\<lambda>(xs, n) x. if length xs < n then Some (xs @ [x], n) else None),
     q_receive = (\<lambda>(xs, n). case xs of [] \<Rightarrow> None | x # ys \<Rightarrow> Some (x, (ys, n)))\<rparr>"

interpretation lq: rtos_queue list_queue "\<lambda>_. True" fst snd
  by unfold_locales (auto simp: list_queue_def)

lemma list_queue_contract: "rtos_queue list_queue (\<lambda>_. True) fst snd"
  by (rule lq.rtos_queue_axioms)

end
