(* ===== verification/Config.thy ===== *)
theory Config
  imports Prelude
begin

text \<open>
  The constants of main/config.h (and the two of espnow_transport.cpp) that the firmware's
  control logic reads, at the width the source gives them: \<open>uint8_t\<close> and \<open>uint32_t\<close> values
  are words, \<open>size_t\<close> sizes and depths are naturals, and texts their bytes (\<open>c_text\<close>). Pins,
  SPI hosts and clocks are in theory Wiring, the two NVS keys in Provision. The equations are in
  \<open>config_defs\<close>, those of addresses, ports and credentials in \<open>address_defs\<close>.
\<close>

definition kGatewayNodeId :: u8 where [config_defs]: "kGatewayNodeId = 0"
definition kMaxChainNodes :: u8 where [config_defs]: "kMaxChainNodes = 64"
definition kMaxPlateLen :: nat where [config_defs]: "kMaxPlateLen = 11"

definition kHelloIntervalMs :: u32 where [config_defs]: "kHelloIntervalMs = 500"
definition kHelloIdleIntervalMs :: u32 where [config_defs]: "kHelloIdleIntervalMs = 5000"
definition kAckTimeoutMs :: u32 where [config_defs]: "kAckTimeoutMs = 300"
definition kMaxRetransmit :: u8 where [config_defs]: "kMaxRetransmit = 5"
definition kStatusQueueDepth :: nat where [config_defs]: "kStatusQueueDepth = 8"
definition kStatusLocalIntervalMs :: u32 where [config_defs]: "kStatusLocalIntervalMs = 2000"
definition kUnprovisioned :: u8 where [config_defs]: "kUnprovisioned = 0xFF"

definition kVideoUplinkQueueDepth :: nat where [config_defs]: "kVideoUplinkQueueDepth = 12"
definition kVideoUdpChunkBytes :: nat where [config_defs]: "kVideoUdpChunkBytes = 1400"

definition kVideoStreamsPerNode :: u8 where [config_defs]: "kVideoStreamsPerNode = 3"
definition kPlateStreamBase :: u8 where [config_defs]: "kPlateStreamBase = kVideoStreamsPerNode"
definition kVideoMaxFrameBytes :: nat where [config_defs]: "kVideoMaxFrameBytes = 256 * 1024"
definition kVideoUdpFrameTimeoutMs :: u32 where [config_defs]: "kVideoUdpFrameTimeoutMs = 2000"
definition kVideoLocalFrameIntervalMs :: u32 where [config_defs]: "kVideoLocalFrameIntervalMs = 300"
definition kVideoQueueDepth :: nat where [config_defs]: "kVideoQueueDepth = 12"

definition kStatsLogIntervalMs :: u32 where [config_defs]: "kStatsLogIntervalMs = 10000"
definition kStatusUplinkQueueDepth :: nat where [config_defs]: "kStatusUplinkQueueDepth = 32"
definition kVideoHeartbeatMs :: u32 where [config_defs]: "kVideoHeartbeatMs = 2000"
definition kVideoRecvTimeoutMs :: u32 where [config_defs]: "kVideoRecvTimeoutMs = 7000"
definition kVideoHeartbeatStream :: u8 where [config_defs]: "kVideoHeartbeatStream = 0xFF"
definition kChainSelfTest :: bool where [config_defs]: "kChainSelfTest \<longleftrightarrow> False"
definition kSelfTestFrameBytes :: nat where [config_defs]: "kSelfTestFrameBytes = 8000"
definition kLuckfoxSpiChunkBytes :: nat where [config_defs]: "kLuckfoxSpiChunkBytes = 4000"

text \<open>Addresses, ports and credentials.\<close>

definition kEspNowChannel :: u8 where [address_defs]: "kEspNowChannel = 1"
definition kEthMac :: bytes where [address_defs]: "kEthMac = [0x02, 0x52, 0x41, 0x50, 0x00, 0x01]"
definition kEthStaticIp :: bytes where [address_defs]: "kEthStaticIp = c_text ''192.168.50.2''"
definition kEthStaticGateway :: bytes where [address_defs]: "kEthStaticGateway = c_text ''192.168.50.1''"
definition kEthStaticNetmask :: bytes where [address_defs]: "kEthStaticNetmask = c_text ''255.255.255.0''"
definition kBackendHost :: bytes where [address_defs]: "kBackendHost = kEthStaticGateway"
definition kBackendPort :: u16 where [address_defs]: "kBackendPort = 5000"
definition kVideoBackendPort :: u16 where [address_defs]: "kVideoBackendPort = 5300"
definition kVideoPort :: u16 where [address_defs]: "kVideoPort = 5200"
definition kNvsNamespace :: bytes where [address_defs]: "kNvsNamespace = c_text ''rap''"
definition kVideoApPassword :: bytes where [address_defs]: "kVideoApPassword = c_text ''rapvideo1''"

text \<open>The frame limit and receive-queue depth of espnow_transport.cpp.\<close>

definition kMaxPacketBytes :: nat where [config_defs]: "kMaxPacketBytes = 250"
definition kRxQueueDepth :: nat where [config_defs]: "kRxQueueDepth = 16"

end
