(* ===== verification/Wire.thy ===== *)
theory Wire
  imports Config
begin

text \<open>
  main/protocol.h: the packets of the ESP-NOW chain as records, with the byte layout of
  their packed structs (\<open>enc\<close>: the bytes handed to \<open>esp_now_send\<close>; \<open>dec\<close>: the
  \<open>memcpy\<close> out of a received frame). The lemmas are the sizes and the round trips.
\<close>

text \<open>The values of \<open>enum PacketType : uint8_t\<close>.\<close>

definition kPktHello :: u8 where "kPktHello = 1"
definition kPktStatus :: u8 where "kPktStatus = 2"
definition kPktAck :: u8 where "kPktAck = 3"

lemmas pkt_type_defs = kPktHello_def kPktStatus_def kPktAck_def

record HelloPacket =
  hello_type :: u8
  hello_node_id :: u8
  hello_chain_size :: u8

record StatusPacket =
  status_type :: u8
  origin_node_id :: u8
  stream_id :: u8
  seq :: u16
  occupied :: u8
  plate :: bytes

record AckPacket =
  ack_type :: u8
  ack_origin_node_id :: u8
  ack_seq :: u16

text \<open>The value-initialised packets \<open>HelloPacket{}\<close>, \<open>StatusPacket{}\<close> and \<open>AckPacket{}\<close>.\<close>

definition HelloPacket0 :: HelloPacket where
  "HelloPacket0 = \<lparr>hello_type = kPktHello, hello_node_id = 0, hello_chain_size = 0\<rparr>"

definition StatusPacket0 :: StatusPacket where
  "StatusPacket0 = \<lparr>status_type = kPktStatus, origin_node_id = 0, stream_id = 0, seq = 0,
     occupied = 0, plate = replicate (kMaxPlateLen + 1) 0\<rparr>"

definition AckPacket0 :: AckPacket where
  "AckPacket0 = \<lparr>ack_type = kPktAck, ack_origin_node_id = 0, ack_seq = 0\<rparr>"

text \<open>The sizes of the packed structs.\<close>

definition sizeof_Hello :: nat where "sizeof_Hello = 3"
definition sizeof_Status :: nat where "sizeof_Status = 6 + (kMaxPlateLen + 1)"
definition sizeof_Ack :: nat where "sizeof_Ack = 4"

lemmas sizeof_defs = sizeof_Hello_def sizeof_Status_def sizeof_Ack_def

definition enc_hello :: "HelloPacket \<Rightarrow> bytes" where
  "enc_hello h = [hello_type h, hello_node_id h, hello_chain_size h]"

definition enc_status :: "StatusPacket \<Rightarrow> bytes" where
  "enc_status p = [status_type p, origin_node_id p, stream_id p] @ le16 (seq p) @ [occupied p] @ plate p"

definition enc_ack :: "AckPacket \<Rightarrow> bytes" where
  "enc_ack a = [ack_type a, ack_origin_node_id a] @ le16 (ack_seq a)"

definition dec_hello :: "bytes \<Rightarrow> HelloPacket" where
  "dec_hello bs = \<lparr>hello_type = bs ! 0, hello_node_id = bs ! 1, hello_chain_size = bs ! 2\<rparr>"

definition dec_status :: "bytes \<Rightarrow> StatusPacket" where
  "dec_status bs = \<lparr>status_type = bs ! 0, origin_node_id = bs ! 1, stream_id = bs ! 2,
     seq = le16_dec (bs ! 3) (bs ! 4), occupied = bs ! 5,
     plate = take (kMaxPlateLen + 1) (drop 6 bs)\<rparr>"

definition dec_ack :: "bytes \<Rightarrow> AckPacket" where
  "dec_ack bs = \<lparr>ack_type = bs ! 0, ack_origin_node_id = bs ! 1, ack_seq = le16_dec (bs ! 2) (bs ! 3)\<rparr>"

text \<open>A status packet whose \<open>plate\<close> array has its declared length.\<close>

definition wf_status :: "StatusPacket \<Rightarrow> bool" where
  "wf_status p \<longleftrightarrow> length (plate p) = kMaxPlateLen + 1"

lemma length_enc_hello [simp]: "length (enc_hello h) = sizeof_Hello"
  by (simp add: enc_hello_def sizeof_Hello_def)

lemma length_enc_status [simp]: "wf_status p \<Longrightarrow> length (enc_status p) = sizeof_Status"
  by (simp add: enc_status_def sizeof_Status_def wf_status_def)

lemma length_enc_ack [simp]: "length (enc_ack a) = sizeof_Ack"
  by (simp add: enc_ack_def sizeof_Ack_def)

lemma dec_enc_hello [simp]: "dec_hello (enc_hello h) = h"
  by (simp add: dec_hello_def enc_hello_def)

lemma dec_enc_status [simp]: "wf_status p \<Longrightarrow> dec_status (enc_status p @ rest) = p"
  by (simp add: dec_status_def enc_status_def wf_status_def le16_def codec)

lemma dec_enc_status_exact [simp]: "wf_status p \<Longrightarrow> dec_status (enc_status p) = p"
  using dec_enc_status [of p "[]"] by simp

lemma dec_enc_ack [simp]: "dec_ack (enc_ack a) = a"
  by (simp add: dec_ack_def enc_ack_def le16_def codec)

lemma wf_dec_status: "sizeof_Status \<le> length bs \<Longrightarrow> wf_status (dec_status bs)"
  by (simp add: wf_status_def dec_status_def sizeof_Status_def)

lemma enc_first:
  "enc_hello h ! 0 = hello_type h" "enc_status p ! 0 = status_type p" "enc_ack a ! 0 = ack_type a"
  by (simp_all add: enc_hello_def enc_status_def enc_ack_def)

lemma enc_nonempty [simp]: "enc_hello h \<noteq> []" "enc_status p \<noteq> []" "enc_ack a \<noteq> []"
  by (simp_all add: enc_hello_def enc_status_def enc_ack_def)

lemma wf_StatusPacket0 [simp]: "wf_status StatusPacket0"
  by (simp add: wf_status_def StatusPacket0_def)

end
