(* ===== verification/Espnow.thy ===== *)
theory Espnow
  imports Rtos Wire
begin

text \<open>
  main/espnow_transport.cpp: the ESP-NOW wrapper. Its state is the receive queue handle
  \<open>g_rxQueue\<close> and the registered handler \<open>g_handler\<close>. \<open>onDataRecv\<close> runs on the WiFi task
  and only appends to the queue; \<open>poll\<close> runs on the main task and drains it into the
  handler; \<open>poll_live\<close> is the same with frames arriving while it drains. The ESP-IDF radio and its peer table are not part of the repository: they are
  the arguments \<open>P\<close> (peer table operations, contract \<open>peer_table\<close>) and \<open>tx\<close> (the
  result of \<open>esp_now_send\<close>), and the boot calls report through \<open>boot_env\<close>.
\<close>

type_synonym 's recv_handler = "mac \<Rightarrow> bytes \<Rightarrow> 's \<Rightarrow> 's"

record RxItem =
  rx_mac :: mac
  rx_data :: bytes
  rx_len :: u8

record ('r, 's) transport =
  g_rxQueue :: "'r option"
  g_handler :: "'s recv_handler option"

definition kBroadcastMac :: mac where
  "kBroadcastMac = Mac 0xFF 0xFF 0xFF 0xFF 0xFF 0xFF"

section \<open>Receive path\<close>

text \<open>\<open>data\<close> holds the \<open>len\<close> received bytes; the copy fills the front of a zeroed item.\<close>

definition onDataRecv ::
  "(RxItem, 'r) queue_ops \<Rightarrow> mac \<Rightarrow> bytes \<Rightarrow> int \<Rightarrow> ('r, 's) transport \<Rightarrow> ('r, 's) transport" where
  "onDataRecv RQ src data len t =
     (case g_rxQueue t of
        None \<Rightarrow> t
      | Some rq \<Rightarrow>
          if len \<le> 0 \<or> kMaxPacketBytes < nat len then t
          else
            let item = \<lparr>rx_mac = src,
                        rx_data = take (nat len) data @ replicate (kMaxPacketBytes - nat len) 0,
                        rx_len = of_int len\<rparr>
            in case q_send RQ rq item of
                 Some rq' \<Rightarrow> t\<lparr>g_rxQueue := Some rq'\<rparr>
               | None \<Rightarrow> t)"

definition rx_frame :: "RxItem \<Rightarrow> bytes" where
  "rx_frame it = take (unat (rx_len it)) (rx_data it)"

text \<open>The drain loop; \<open>None\<close> would be a drain that never finds the queue empty.\<close>

partial_function (option) poll_loop ::
  "(RxItem, 'r) queue_ops \<Rightarrow> 's recv_handler \<Rightarrow> 'r \<Rightarrow> 's \<Rightarrow> ('r \<times> 's) option" where
  "poll_loop RQ h rq s =
     (case q_receive RQ rq of
        None \<Rightarrow> Some (rq, s)
      | Some (it, rq') \<Rightarrow> poll_loop RQ h rq' (h (rx_mac it) (rx_frame it) s))"

declare poll_loop.simps [code]

definition poll ::
  "(RxItem, 'r) queue_ops \<Rightarrow> ('r, 's) transport \<Rightarrow> 's \<Rightarrow> (('r, 's) transport \<times> 's) option" where
  "poll RQ t s =
     (case (g_rxQueue t, g_handler t) of
        (Some rq, Some h) \<Rightarrow>
          map_option (\<lambda>(rq', s'). (t\<lparr>g_rxQueue := Some rq'\<rparr>, s')) (poll_loop RQ h rq s)
      | _ \<Rightarrow> Some (t, s))"

text \<open>The same drain while the WiFi task goes on receiving: before the \<open>k\<close>-th look at the queue it
  has called \<open>onDataRecv\<close> for the frames \<open>arr k\<close>. \<open>None\<close> is a drain that never ends.\<close>

definition arrivals ::
  "(RxItem, 'r) queue_ops \<Rightarrow> (mac \<times> bytes) list \<Rightarrow> ('r, 's) transport \<Rightarrow> ('r, 's) transport" where
  "arrivals RQ fs t = fold (\<lambda>(m, data). onDataRecv RQ m data (int (length data))) fs t"

partial_function (option) drain_live ::
  "(RxItem, 'r) queue_ops \<Rightarrow> (nat \<Rightarrow> (mac \<times> bytes) list) \<Rightarrow> nat \<Rightarrow> 's recv_handler \<Rightarrow>
     ('r, 's) transport \<Rightarrow> 's \<Rightarrow> (('r, 's) transport \<times> 's) option" where
  "drain_live RQ arr k h t s =
     (let t1 = arrivals RQ (arr k) t
      in case g_rxQueue t1 of
           None \<Rightarrow> Some (t1, s)
         | Some rq \<Rightarrow>
             (case q_receive RQ rq of
                None \<Rightarrow> Some (t1, s)
              | Some (it, rq') \<Rightarrow>
                  drain_live RQ arr (Suc k) h (t1\<lparr>g_rxQueue := Some rq'\<rparr>) (h (rx_mac it) (rx_frame it) s)))"

declare drain_live.simps [code]

definition poll_live ::
  "(RxItem, 'r) queue_ops \<Rightarrow> (nat \<Rightarrow> (mac \<times> bytes) list) \<Rightarrow> ('r, 's) transport \<Rightarrow> 's \<Rightarrow>
     (('r, 's) transport \<times> 's) option" where
  "poll_live RQ arr t s =
     (case (g_rxQueue t, g_handler t) of
        (Some rq, Some h) \<Rightarrow> drain_live RQ arr 0 h t s
      | _ \<Rightarrow> Some (t, s))"

definition setRecvHandler :: "'s recv_handler \<Rightarrow> ('r, 's) transport \<Rightarrow> ('r, 's) transport" where
  "setRecvHandler h t = t\<lparr>g_handler := Some h\<rparr>"

section \<open>Peers and sending\<close>

record 'p peer_ops =
  p_exist :: "'p \<Rightarrow> mac \<Rightarrow> bool"           \<comment> \<open>\<open>esp_now_is_peer_exist\<close>\<close>
  p_add :: "'p \<Rightarrow> mac \<Rightarrow> bool \<times> 'p"        \<comment> \<open>\<open>esp_now_add_peer\<close>, unencrypted, current channel\<close>
  p_del :: "'p \<Rightarrow> mac \<Rightarrow> bool \<times> 'p"        \<comment> \<open>\<open>esp_now_del_peer\<close>\<close>

definition addPeer :: "'p peer_ops \<Rightarrow> mac \<Rightarrow> 'p \<Rightarrow> bool \<times> 'p" where
  "addPeer P m p = (if p_exist P p m then (True, p) else p_add P p m)"

definition removePeer :: "'p peer_ops \<Rightarrow> mac \<Rightarrow> 'p \<Rightarrow> bool \<times> 'p" where
  "removePeer P m p = (if \<not> p_exist P p m then (True, p) else p_del P p m)"

text \<open>The result of a send, with the frames it hands to the radio.\<close>

definition espnow_send :: "(mac \<Rightarrow> bytes \<Rightarrow> bool) \<Rightarrow> mac \<Rightarrow> bytes \<Rightarrow> bool \<times> (mac \<times> bytes) list" where
  "espnow_send tx m data =
     (if kMaxPacketBytes < length data then (False, []) else (tx m data, [(m, data)]))"

definition sendBroadcast :: "(mac \<Rightarrow> bytes \<Rightarrow> bool) \<Rightarrow> bytes \<Rightarrow> bool \<times> (mac \<times> bytes) list" where
  "sendBroadcast tx data = espnow_send tx kBroadcastMac data"

section \<open>Bring-up\<close>

record boot_env =
  wifi_init_ok :: bool
  set_mode_ok :: bool
  wifi_start_ok :: bool
  now_init_ok :: bool

text \<open>The calls into the radio driver; the results of the storage, channel and callback calls are
  not looked at.\<close>

datatype radio_call = WifiInit | SetStorageRam | SetModeApSta | WifiStart | SetChannel u8 | NowInit | RegisterRecvCb

definition espnow_init ::
  "(RxItem, 'r) queue_ops \<Rightarrow> 'p peer_ops \<Rightarrow> boot_env \<Rightarrow> 'p \<Rightarrow> ('r, 's) transport \<Rightarrow>
     bool \<times> radio_call list \<times> 'p \<times> ('r, 's) transport" where
  "espnow_init RQ P env p t =
     (if \<not> wifi_init_ok env then (False, [WifiInit], p, t)
      else if \<not> set_mode_ok env then (False, [WifiInit, SetStorageRam, SetModeApSta], p, t)
      else if \<not> wifi_start_ok env then (False, [WifiInit, SetStorageRam, SetModeApSta, WifiStart], p, t)
      else
        let cs = [WifiInit, SetStorageRam, SetModeApSta, WifiStart, SetChannel kEspNowChannel, NowInit]
        in if \<not> now_init_ok env then (False, cs, p, t)
           else
             let t1 = t\<lparr>g_rxQueue := q_create RQ kRxQueueDepth\<rparr>
             in if g_rxQueue t1 = None then (False, cs, p, t1)
                else (True, cs @ [RegisterRecvCb], snd (addPeer P kBroadcastMac p), t1))"

text \<open>Frames can only arrive when there is a queue for them, on the channel of the chain.\<close>

lemma espnow_init_calls:
  assumes "espnow_init RQ P env p t = (ok, cs, p', t')"
  shows "RegisterRecvCb \<in> set cs \<longleftrightarrow> ok" and "ok \<Longrightarrow> g_rxQueue t' \<noteq> None"
    and "NowInit \<in> set cs \<Longrightarrow> SetChannel kEspNowChannel \<in> set cs"
  using assms by (auto simp: espnow_init_def Let_def split: if_splits)

section \<open>The contract of the peer table\<close>

locale peer_table =
  fixes P :: "'p peer_ops"
    and peers :: "'p \<Rightarrow> mac set"
  assumes exist: "p_exist P p m \<longleftrightarrow> m \<in> peers p"
    and add_ok: "p_add P p m = (True, p') \<Longrightarrow> peers p' = insert m (peers p)"
    and add_fail: "p_add P p m = (False, p') \<Longrightarrow> peers p' = peers p"
    and del_ok: "p_del P p m = (True, p') \<Longrightarrow> peers p' = peers p - {m}"
    and del_fail: "p_del P p m = (False, p') \<Longrightarrow> peers p' = peers p"
begin

lemma addPeer_True: "addPeer P m p = (True, p') \<Longrightarrow> peers p' = insert m (peers p)"
  using add_ok [of p m p'] by (auto simp: addPeer_def exist insert_absorb split: if_splits)

lemma addPeer_again: "addPeer P m p = (True, p') \<Longrightarrow> addPeer P m p' = (True, p')"
  using addPeer_True [of m p p'] by (simp add: addPeer_def exist)

lemma addPeer_False: "addPeer P m p = (False, p') \<Longrightarrow> peers p' = peers p \<and> m \<notin> peers p"
  using add_fail [of p m p'] by (auto simp: addPeer_def exist split: if_splits)

lemma removePeer_True: "removePeer P m p = (True, p') \<Longrightarrow> peers p' = peers p - {m}"
  using del_ok [of p m p'] by (auto simp: removePeer_def exist split: if_splits)

lemma remove_after_add:
  "addPeer P m p = (True, p1) \<Longrightarrow> removePeer P m p1 = (True, p2) \<Longrightarrow> peers p2 = peers p - {m}"
  using addPeer_True removePeer_True by simp

end

text \<open>A peer table over a list, with the 20-peer limit of ESP-NOW.\<close>

definition list_peers :: "mac list peer_ops" where
  "list_peers = \<lparr>
     p_exist = (\<lambda>p m. m \<in> set p),
     p_add = (\<lambda>p m. if length p < 20 \<and> m \<notin> set p then (True, m # p) else (False, p)),
     p_del = (\<lambda>p m. if m \<in> set p then (True, filter (\<lambda>x. x \<noteq> m) p) else (False, p))\<rparr>"

interpretation lp: peer_table list_peers set
  by unfold_locales (auto simp: list_peers_def split: if_splits)

section \<open>The drain delivers the whole queue in order\<close>

definition deliver_all :: "'s recv_handler \<Rightarrow> RxItem list \<Rightarrow> 's \<Rightarrow> 's" where
  "deliver_all h its s = fold (\<lambda>it. h (rx_mac it) (rx_frame it)) its s"

lemma deliver_all_simps [simp]:
  "deliver_all h [] s = s"
  "deliver_all h (it # its) s = deliver_all h its (h (rx_mac it) (rx_frame it) s)"
  by (simp_all add: deliver_all_def)

text \<open>The receive queue's contract, and the interpretation on the concrete queue.\<close>

locale rx_queue = rtos_queue RQ valid contents capacity
  for RQ :: "(RxItem, 'r) queue_ops"
    and valid :: "'r \<Rightarrow> bool"
    and contents :: "'r \<Rightarrow> RxItem list"
    and capacity :: "'r \<Rightarrow> nat"
begin

lemma poll_loop_drains:
  assumes "qinv rq"
  shows "\<exists>rq'. poll_loop RQ h rq s = Some (rq', deliver_all h (contents rq) s) \<and>
    qinv rq' \<and> contents rq' = [] \<and> capacity rq' = capacity rq"
  using assms
proof (induction "contents rq" arbitrary: rq s)
  case Nil
  then have "q_receive RQ rq = None"
    by (simp add: receive_empty queue_inv_def)
  with Nil show ?case
    by (simp add: poll_loop.simps)
next
  case (Cons it its)
  then obtain rq' where r: "q_receive RQ rq = Some (it, rq')" "qinv rq'" "contents rq' = its"
      "capacity rq' = capacity rq"
    using receive_Some_iff [of rq it its] by metis
  have "\<exists>rq''. poll_loop RQ h rq' (h (rx_mac it) (rx_frame it) s) =
      Some (rq'', deliver_all h (contents rq') (h (rx_mac it) (rx_frame it) s)) \<and>
      qinv rq'' \<and> contents rq'' = [] \<and> capacity rq'' = capacity rq'"
    using r by (intro Cons.hyps(1)) simp_all
  with r Cons.hyps(2) [symmetric] show ?case
    by (simp add: poll_loop.simps [of RQ h rq s])
qed

text \<open>One poll with a handler registered: every queued frame handled once, in arrival order.\<close>

lemma poll_drains:
  assumes "qinv rq" and "g_rxQueue t = Some rq" and "g_handler t = Some h"
  shows "\<exists>rq'. poll RQ t s = Some (t\<lparr>g_rxQueue := Some rq'\<rparr>, deliver_all h (contents rq) s) \<and>
    qinv rq' \<and> contents rq' = [] \<and> capacity rq' = capacity rq"
  using poll_loop_drains [OF assms(1), of h s] assms(2,3) by (auto simp: poll_def)

text \<open>The WiFi callback appends the frame, or leaves the transport as it was.\<close>

lemma onDataRecv_cases:
  assumes "qinv rq" and "g_rxQueue t = Some rq" and "length data = nat len"
  shows "onDataRecv RQ src data len t = t \<or>
    (\<exists>rq' it. onDataRecv RQ src data len t = t\<lparr>g_rxQueue := Some rq'\<rparr> \<and> qinv rq' \<and>
       contents rq' = contents rq @ [it] \<and> capacity rq' = capacity rq \<and>
       rx_mac it = src \<and> rx_frame it = data \<and> 0 < len \<and> len \<le> int kMaxPacketBytes)"
proof (cases "len \<le> 0 \<or> kMaxPacketBytes < nat len")
  case True
  then show ?thesis using assms(2) by (auto simp: onDataRecv_def)
next
  case False
  define it where "it = \<lparr>rx_mac = src,
    rx_data = take (nat len) data @ replicate (kMaxPacketBytes - nat len) 0, rx_len = of_int len\<rparr>"
  from False have len: "0 < len" "len \<le> 250" by (auto simp: config_defs)
  then have "unat (of_int len :: u8) = nat len"
    by (simp add: unat_eq_nat_uint uint_word_of_int_eq take_bit_eq_mod)
  then have frame: "rx_frame it = data"
    using assms(3) by (simp add: rx_frame_def it_def)
  show ?thesis
  proof (cases "q_send RQ rq it")
    case None
    with False assms(2) show ?thesis by (simp add: onDataRecv_def it_def [symmetric])
  next
    case (Some rq')
    with False assms(2) have "onDataRecv RQ src data len t = t\<lparr>g_rxQueue := Some rq'\<rparr>"
      by (simp add: onDataRecv_def it_def [symmetric])
    moreover have "qinv rq' \<and> contents rq' = contents rq @ [it] \<and> capacity rq' = capacity rq"
      using assms(1) by (intro send_SomeD [OF _ Some]) (simp add: queue_inv_def)
    ultimately show ?thesis
      using frame len by (auto simp: it_def config_defs)
  qed
qed

text \<open>A well-formed frame is taken whenever there is room for it.\<close>

lemma onDataRecv_room:
  assumes "qinv rq" and "g_rxQueue t = Some rq" and "0 < length data" "length data \<le> kMaxPacketBytes"
    and "length (contents rq) < capacity rq"
  shows "\<exists>rq' it. onDataRecv RQ src data (int (length data)) t = t\<lparr>g_rxQueue := Some rq'\<rparr> \<and> qinv rq' \<and>
    contents rq' = contents rq @ [it] \<and> capacity rq' = capacity rq"
proof -
  let ?it = "\<lparr>rx_mac = src, rx_data = data @ replicate (kMaxPacketBytes - length data) 0,
    rx_len = of_int (int (length data))\<rparr>"
  obtain rq' where s: "q_send RQ rq ?it = Some rq'"
    using send_None_iff [OF assms(1), of ?it] assms(5) by fastforce
  have "qinv rq' \<and> contents rq' = contents rq @ [?it] \<and> capacity rq' = capacity rq"
    using assms(1) by (intro send_SomeD [OF _ s]) (simp add: queue_inv_def)
  moreover have "onDataRecv RQ src data (int (length data)) t = t\<lparr>g_rxQueue := Some rq'\<rparr>"
    using assms(2-4) s by (simp add: onDataRecv_def)
  ultimately show ?thesis by blast
qed

abbreviation view :: "RxItem \<Rightarrow> mac \<times> bytes" where
  "view it \<equiv> (rx_mac it, rx_frame it)"

text \<open>Arrivals append some of the frames, in order; an empty queue takes one if any is well formed.\<close>

lemma arrivals_append:
  assumes "qinv rq" and "g_rxQueue t = Some rq"
  shows "\<exists>rq' its. arrivals RQ fs t = t\<lparr>g_rxQueue := Some rq'\<rparr> \<and> qinv rq' \<and> contents rq' = contents rq @ its \<and>
    capacity rq' = capacity rq \<and> subseq (map view its) fs \<and>
    (0 < capacity rq \<longrightarrow> (\<exists>mf \<in> set fs. 0 < length (snd mf) \<and> length (snd mf) \<le> kMaxPacketBytes) \<longrightarrow> contents rq' \<noteq> [])"
  using assms
proof (induction fs arbitrary: rq t)
  case Nil
  then show ?case by (intro exI [of _ rq] exI [of _ "[]"]) (simp add: arrivals_def)
next
  case (Cons mf fs)
  obtain m f where mf: "mf = (m, f)" by (cases mf)
  have step: "arrivals RQ (mf # fs) t = arrivals RQ fs (onDataRecv RQ m f (int (length f)) t)"
    by (simp add: arrivals_def mf)
  show ?case
  proof (cases "onDataRecv RQ m f (int (length f)) t = t")
    case True
    obtain rq' its where r: "arrivals RQ fs t = t\<lparr>g_rxQueue := Some rq'\<rparr>" "qinv rq'" "contents rq' = contents rq @ its"
        "capacity rq' = capacity rq" "subseq (map view its) fs"
        "0 < capacity rq \<longrightarrow> (\<exists>mf \<in> set fs. 0 < length (snd mf) \<and> length (snd mf) \<le> kMaxPacketBytes) \<longrightarrow> contents rq' \<noteq> []"
      using Cons.IH [OF Cons.prems] by (elim exE conjE) (rule that)
    have "contents rq' \<noteq> []" if "0 < capacity rq" "0 < length f" "length f \<le> kMaxPacketBytes"
    proof
      assume "contents rq' = []"
      then have "length (contents rq) < capacity rq" using r(3) that(1) by simp
      from onDataRecv_room [OF Cons.prems that(2,3) this, of m] True Cons.prems(2)
      show False
        by (metis append_self_conv not_Cons_self2 option.inject transport.select_convs(1) transport.surjective
            transport.update_convs(1))
    qed
    with r show ?thesis unfolding step True by (intro exI [of _ rq'] exI [of _ its]) (auto simp: mf)
  next
    case False
    from onDataRecv_cases [OF Cons.prems, of f "int (length f)" m] False
    obtain rq1 it where o: "onDataRecv RQ m f (int (length f)) t = t\<lparr>g_rxQueue := Some rq1\<rparr>" "qinv rq1"
        "contents rq1 = contents rq @ [it]" "capacity rq1 = capacity rq" "view it = (m, f)" by auto
    obtain rq' its where "arrivals RQ fs (t\<lparr>g_rxQueue := Some rq1\<rparr>) = t\<lparr>g_rxQueue := Some rq'\<rparr>" "qinv rq'"
        "contents rq' = contents rq1 @ its" "capacity rq' = capacity rq1" "subseq (map view its) fs"
      using Cons.IH [OF o(2), of "t\<lparr>g_rxQueue := Some rq1\<rparr>"] by auto
    then show ?thesis using o unfolding step by (intro exI [of _ rq'] exI [of _ "it # its"]) (simp add: mf)
  qed
qed

lemma view_length: "subseq (map view its) fs \<Longrightarrow> length its \<le> length fs"
  by (drule list_emb_length) simp

text \<open>The drain ends as soon as it has been quicker than the arrivals: after at most \<open>m\<close> frames if
  no more than \<open>m\<close> have come in by then.\<close>

lemma live_returns:
  assumes "qinv rq" and "g_rxQueue t = Some rq"
    and "length (contents rq) + length (concat (map arr [k..<Suc (k + m)])) \<le> m"
  shows "\<exists>rq' its. drain_live RQ arr k h t s = Some (t\<lparr>g_rxQueue := Some rq'\<rparr>, deliver_all h (contents rq @ its) s) \<and>
    qinv rq' \<and> contents rq' = [] \<and> subseq (map view its) (concat (map arr [k..<Suc (k + m)]))"
  using assms
proof (induction m arbitrary: k rq t s)
  case 0
  then have "contents rq = []" "arr k = []" by simp_all
  then have "q_receive RQ rq = None" using 0(1) by (simp add: receive_empty queue_inv_def)
  then show ?case
    using 0(1,2) \<open>contents rq = []\<close> \<open>arr k = []\<close>
    by (intro exI [of _ rq] exI [of _ "[]"]) (simp add: drain_live.simps [of RQ arr k h t s] arrivals_def Let_def)
next
  case (Suc m)
  have split: "concat (map arr [k..<Suc (k + Suc m)]) = arr k @ concat (map arr [Suc k..<Suc (Suc k + m)])"
    by (subst upt_conv_Cons) simp_all
  obtain rq1 its1 where a: "arrivals RQ (arr k) t = t\<lparr>g_rxQueue := Some rq1\<rparr>" "qinv rq1"
      "contents rq1 = contents rq @ its1" "subseq (map view its1) (arr k)"
    using arrivals_append [OF Suc.prems(1,2), of "arr k"] by blast
  show ?case
  proof (cases "contents rq1")
    case Nil
    then have "q_receive RQ rq1 = None" using a(2) by (simp add: receive_empty queue_inv_def)
    then show ?thesis
      using a Nil by (intro exI [of _ rq1] exI [of _ "[]"]) (simp add: drain_live.simps [of RQ arr k h t s] Let_def)
  next
    case (Cons it rest)
    obtain rq2 where r: "q_receive RQ rq1 = Some (it, rq2)" "qinv rq2" "contents rq2 = rest"
      using receive_Some_iff [OF a(2) Cons] by blast
    let ?s = "h (rx_mac it) (rx_frame it) s" and ?t = "t\<lparr>g_rxQueue := Some rq2\<rparr>"
    have len: "Suc (length rest) \<le> length (contents rq) + length (arr k)"
      using a(3) Cons view_length [OF a(4)] by (metis length_Cons length_append nat_add_left_cancel_le)
    then have "length (contents rq2) + length (concat (map arr [Suc k..<Suc (Suc k + m)])) \<le> m"
      using Suc.prems(3) unfolding split r(3) by simp
    from Suc.IH [OF r(2) _ this, of ?t ?s]
    obtain rq' its where i: "drain_live RQ arr (Suc k) h ?t ?s = Some (?t\<lparr>g_rxQueue := Some rq'\<rparr>, deliver_all h (rest @ its) ?s)"
        "qinv rq'" "contents rq' = []" "subseq (map view its) (concat (map arr [Suc k..<Suc (Suc k + m)]))"
      using r(3) by auto
    have "deliver_all h (rest @ its) ?s = deliver_all h ((contents rq @ its1) @ its) s"
      unfolding a(3) [symmetric] Cons by simp
    moreover have "drain_live RQ arr k h t s = drain_live RQ arr (Suc k) h ?t ?s"
      using a(1) r(1) by (simp add: drain_live.simps [of RQ arr k h t s] Let_def)
    moreover have "subseq (map view (its1 @ its)) (concat (map arr [k..<Suc (k + Suc m)]))"
      unfolding split using a(4) i(4) by (simp add: list_emb_append_mono)
    ultimately show ?thesis
      using i by (intro exI [of _ rq'] exI [of _ "its1 @ its"]) simp
  qed
qed

text \<open>It is the only way it can end: with a frame taken before every look it never does.\<close>

lemma live_starves:
  assumes "\<And>j. \<exists>mf \<in> set (arr j). 0 < length (snd mf) \<and> length (snd mf) \<le> kMaxPacketBytes"
    and "qinv rq" and "g_rxQueue t = Some rq" and "0 < capacity rq"
  shows "drain_live RQ arr k h t s = None"
proof -
  have never: "RQ' = RQ \<longrightarrow> arr' = arr \<longrightarrow> (\<forall>rq. qinv rq \<longrightarrow> g_rxQueue t = Some rq \<longrightarrow> capacity rq = 0)"
    if "drain_live RQ' arr' k h t s = Some r" for RQ' arr' k h t s r
  proof (rule drain_live.raw_induct [OF _ that], intro impI allI, goal_cases)
    case (1 dl RQ' arr' k h t s r rq)
    show ?case
    proof (rule ccontr)
      assume "capacity rq \<noteq> 0"
      then obtain rq1 its where a: "arrivals RQ (arr k) t = t\<lparr>g_rxQueue := Some rq1\<rparr>" "qinv rq1"
          "capacity rq1 = capacity rq" "contents rq1 \<noteq> []"
        using arrivals_append [OF 1(5,6), of "arr k"] assms(1) [of k] by auto
      obtain it rest where "contents rq1 = it # rest" using a(4) by (cases "contents rq1") auto
      from receive_Some_iff [OF a(2) this] obtain rq2 where r: "q_receive RQ rq1 = Some (it, rq2)" "qinv rq2"
          "capacity rq2 = capacity rq1" by blast
      have "dl RQ arr (Suc k) h (t\<lparr>g_rxQueue := Some rq2\<rparr>) (h (rx_mac it) (rx_frame it) s) = Some r"
        using 1(2) a(1) r(1) by (simp add: 1(3,4) Let_def)
      from 1(1) [OF this] show False using r a(3) \<open>capacity rq \<noteq> 0\<close> by simp
    qed
  qed
  show ?thesis
  proof (cases "drain_live RQ arr k h t s")
    case (Some r)
    from never [OF this] show ?thesis using assms(2-4) by simp
  qed
qed

text \<open>Without arrivals it is the drain.\<close>

lemma live_quiet:
  assumes "qinv rq" and "g_rxQueue t = Some rq"
  shows "drain_live RQ (\<lambda>_. []) k h t s = map_option (\<lambda>(rq', s'). (t\<lparr>g_rxQueue := Some rq'\<rparr>, s')) (poll_loop RQ h rq s)"
  using assms
proof (induction "contents rq" arbitrary: rq t k s)
  case Nil
  then have "q_receive RQ rq = None" by (simp add: receive_empty queue_inv_def)
  with Nil show ?case
    by (simp add: poll_loop.simps [of RQ h rq s] drain_live.simps [of RQ _ k h t s] arrivals_def Let_def)
next
  case (Cons it its)
  obtain rq' where r: "q_receive RQ rq = Some (it, rq')" "qinv rq'" "contents rq' = its"
    using receive_Some_iff [OF Cons.prems(1) Cons.hyps(2) [symmetric]] by metis
  have "drain_live RQ (\<lambda>_. []) (Suc k) h (t\<lparr>g_rxQueue := Some rq'\<rparr>) (h (rx_mac it) (rx_frame it) s) =
      map_option (\<lambda>(rq'', s'). (t\<lparr>g_rxQueue := Some rq'\<rparr>\<lparr>g_rxQueue := Some rq''\<rparr>, s'))
        (poll_loop RQ h rq' (h (rx_mac it) (rx_frame it) s))"
    using r by (intro Cons.hyps(1)) simp_all
  with r Cons.prems(2) show ?case
    by (simp add: poll_loop.simps [of RQ h rq s] drain_live.simps [of RQ _ k h t s] arrivals_def Let_def)
qed

lemma poll_quiet:
  "qinv rq \<Longrightarrow> g_rxQueue t = Some rq \<Longrightarrow> poll_live RQ (\<lambda>_. []) t s = poll RQ t s"
  by (simp add: poll_live_def poll_def live_quiet split: option.split)

end

interpretation rxq: rx_queue list_queue "\<lambda>_. True" fst snd
  by unfold_locales

end
