(* ===== verification/ChainNode.thy ===== *)
theory ChainNode
  imports Espnow
begin

text \<open>
  main/chain_node.cpp: the chain state machine of one node, every file-level variable of
  the source a field of \<open>node\<close>. A handler maps a node to a node; what it asks of other
  modules is appended to \<open>calls\<close> in the order of the source, so the log is the node's
  observable behaviour (frames for the radio, operations on \<open>g_outQueue\<close>, readings for
  the Ethernet uplink). \<open>Q\<close> are the operations of \<open>g_outQueue\<close>. Every place that reads the
  clock has its own \<open>clock_site\<close>, so a loop iteration may see time pass between two reads.
\<close>

datatype State = kDiscovering | kIdle | kForwarding

datatype call =
    EspSend mac bytes                 \<comment> \<open>\<open>espnow::send\<close>\<close>
  | EspBroadcast bytes                \<comment> \<open>\<open>espnow::sendBroadcast\<close>\<close>
  | EspAddPeer mac                    \<comment> \<open>\<open>espnow::addPeer\<close>\<close>
  | EspSetRecvHandler                 \<comment> \<open>\<open>espnow::setRecvHandler(onEspNowRecv)\<close>\<close>
  | QueueSend StatusPacket bool       \<comment> \<open>\<open>xQueueSend(g_outQueue, ..)\<close> and its result\<close>
  | QueueReceive StatusPacket         \<comment> \<open>\<open>xQueueReceive(g_outQueue, ..) == pdTRUE\<close>\<close>
  | QueueNull                         \<comment> \<open>a queue operation on a null handle\<close>
  | UplinkFlush u8 u8 u8 bytes        \<comment> \<open>\<open>gateway_uplink::flush\<close>\<close>

datatype clock_site =
    HelloDue | HelloSent | LocalDue | LocalSent | SelfTestPhase
  | AckDue | WarnDue | WarnSent | RetxDeadline | FwdDeadline

text \<open>A reading of \<open>esp_timer_get_time()\<close> (microseconds since boot) per site.\<close>

type_synonym clock = "clock_site \<Rightarrow> int"

definition nowMs :: "int \<Rightarrow> u32" where
  "nowMs us = word_of_int (us div 1000)"

record 'q node =
  g_nodeId :: u8
  g_chainSize :: u8
  g_isGateway :: bool
  g_nextId :: u8
  g_prevId :: u8
  g_nextMac :: mac
  g_prevMac :: mac
  g_nextKnown :: bool
  g_prevKnown :: bool
  g_state :: State
  g_lastHelloMs :: u32
  g_lastLocalMs :: u32
  g_localSeq :: u16
  g_localStream :: u8
  g_hasAcceptedAny :: bool
  g_lastAcceptedOrigin :: u8
  g_lastAcceptedSeq :: u16
  g_outQueue :: "'q option"
  g_pending :: StatusPacket
  g_ackDeadlineMs :: u32
  g_retryCount :: u8
  g_statLocal :: u32
  g_statIn :: u32
  g_statForwarded :: u32
  g_statSunk :: u32
  g_statRetx :: u32
  g_statQueueDrops :: u32
  g_lastRetryWarnMs :: u32
  g_laneOccupied :: bytes
  g_lanePlate :: "bytes list"
  calls :: "call list"

definition node0 :: "'q node" where
  "node0 = \<lparr>g_nodeId = 0, g_chainSize = 0, g_isGateway = False, g_nextId = 0, g_prevId = 0,
     g_nextMac = Mac 0 0 0 0 0 0, g_prevMac = Mac 0 0 0 0 0 0, g_nextKnown = False,
     g_prevKnown = False, g_state = kDiscovering, g_lastHelloMs = 0, g_lastLocalMs = 0,
     g_localSeq = 0, g_localStream = 0, g_hasAcceptedAny = False, g_lastAcceptedOrigin = 0,
     g_lastAcceptedSeq = 0, g_outQueue = None, g_pending = StatusPacket0, g_ackDeadlineMs = 0,
     g_retryCount = 0, g_statLocal = 0, g_statIn = 0, g_statForwarded = 0, g_statSunk = 0,
     g_statRetx = 0, g_statQueueDrops = 0, g_lastRetryWarnMs = 0,
     g_laneOccupied = replicate (unat kVideoStreamsPerNode) 0,
     g_lanePlate = replicate (unat kVideoStreamsPerNode) (replicate (kMaxPlateLen + 1) 0),
     calls = []\<rparr>"

definition emit :: "call \<Rightarrow> 'q node \<Rightarrow> 'q node" where
  "emit c s = s\<lparr>calls := calls s @ [c]\<rparr>"

section \<open>Operations on the outgoing queue\<close>

definition outQueueSend ::
  "(StatusPacket, 'q) queue_ops \<Rightarrow> StatusPacket \<Rightarrow> 'q node \<Rightarrow> bool \<times> 'q node" where
  "outQueueSend Q pkt s =
     (case g_outQueue s of
        None \<Rightarrow> (False, emit QueueNull s)
      | Some q \<Rightarrow>
          (case q_send Q q pkt of
             Some q' \<Rightarrow> (True, emit (QueueSend pkt True) (s\<lparr>g_outQueue := Some q'\<rparr>))
           | None \<Rightarrow> (False, emit (QueueSend pkt False) s)))"

definition outQueueReceive ::
  "(StatusPacket, 'q) queue_ops \<Rightarrow> 'q node \<Rightarrow> StatusPacket option \<times> 'q node" where
  "outQueueReceive Q s =
     (case g_outQueue s of
        None \<Rightarrow> (None, emit QueueNull s)
      | Some q \<Rightarrow>
          (case q_receive Q q of
             Some (pkt, q') \<Rightarrow> (Some pkt, emit (QueueReceive pkt) (s\<lparr>g_outQueue := Some q'\<rparr>))
           | None \<Rightarrow> (None, s)))"

section \<open>Lane readings\<close>

text \<open>\<open>snprintf(dst, n, ..)\<close>: at most \<open>n - 1\<close> characters and a NUL over the front of \<open>dst\<close>.\<close>

definition snprintf_into :: "nat \<Rightarrow> bytes \<Rightarrow> bytes \<Rightarrow> bytes" where
  "snprintf_into n text dst = (let t = take (n - 1) text @ [0] in t @ drop (length t) dst)"

definition readLocalStatus :: "clock \<Rightarrow> u8 \<Rightarrow> bytes \<Rightarrow> 'q node \<Rightarrow> u8 \<times> bytes" where
  "readLocalStatus now streamId dst s =
     (if kChainSelfTest then
        let occ = and (nowMs (now SelfTestPhase) div 10000 + ucast (g_nodeId s) + ucast streamId) 1 \<noteq> 0
        in (if occ then 1 else 0,
            if occ then snprintf_into (kMaxPlateLen + 1)
                          ([84] @ dec_u8 (g_nodeId s) @ [76] @ dec_u8 streamId) dst
            else dst[0 := 0])
      else
        (g_laneOccupied s ! unat streamId,
         strncpy kMaxPlateLen (g_lanePlate s ! unat streamId) @ [0]))"

definition setLaneStatus :: "u8 \<Rightarrow> u8 \<Rightarrow> bytes \<Rightarrow> 'q node \<Rightarrow> 'q node" where
  "setLaneStatus sid occ plt s =
     (if kVideoStreamsPerNode \<le> sid then s
      else s\<lparr>g_laneOccupied := (g_laneOccupied s)[unat sid := occ],
             g_lanePlate := (g_lanePlate s)[unat sid := strncpy kMaxPlateLen plt @ [0]]\<rparr>)"

section \<open>Sending\<close>

definition sendAck :: "mac \<Rightarrow> u8 \<Rightarrow> u16 \<Rightarrow> 'q node \<Rightarrow> 'q node" where
  "sendAck toMac originId sq s =
     emit (EspSend toMac (enc_ack (AckPacket0\<lparr>ack_origin_node_id := originId, ack_seq := sq\<rparr>))) s"

definition sendStatus :: "StatusPacket \<Rightarrow> 'q node \<Rightarrow> 'q node" where
  "sendStatus pkt s = emit (EspSend (g_nextMac s) (enc_status pkt)) s"

definition beginForwarding :: "clock \<Rightarrow> StatusPacket \<Rightarrow> 'q node \<Rightarrow> 'q node" where
  "beginForwarding now pkt s =
     sendStatus pkt
       (s\<lparr>g_pending := pkt, g_retryCount := 0,
          g_ackDeadlineMs := nowMs (now FwdDeadline) + kAckTimeoutMs,
          g_state := kForwarding\<rparr>)"

definition broadcastHello :: "clock \<Rightarrow> 'q node \<Rightarrow> 'q node" where
  "broadcastHello now s =
     (emit (EspBroadcast (enc_hello (HelloPacket0\<lparr>hello_node_id := g_nodeId s,
                                                   hello_chain_size := g_chainSize s\<rparr>))) s)
       \<lparr>g_lastHelloMs := nowMs (now HelloSent)\<rparr>"

section \<open>Handlers of received packets\<close>

definition learnNext :: "mac \<Rightarrow> HelloPacket \<Rightarrow> 'q node \<Rightarrow> 'q node" where
  "learnNext m hello s =
     (if hello_node_id hello = g_nextId s \<and> \<not> g_nextKnown s
      then (emit (EspAddPeer m) (s\<lparr>g_nextMac := m\<rparr>))\<lparr>g_nextKnown := True\<rparr> else s)"

definition learnPrev :: "mac \<Rightarrow> HelloPacket \<Rightarrow> 'q node \<Rightarrow> 'q node" where
  "learnPrev m hello s =
     (if hello_node_id hello = g_prevId s \<and> \<not> g_prevKnown s
      then (emit (EspAddPeer m) (s\<lparr>g_prevMac := m\<rparr>))\<lparr>g_prevKnown := True\<rparr> else s)"

definition handleHello :: "mac \<Rightarrow> HelloPacket \<Rightarrow> 'q node \<Rightarrow> 'q node" where
  "handleHello m hello s =
     (if hello_chain_size hello \<noteq> g_chainSize s \<or> g_chainSize s \<le> hello_node_id hello then s
      else
        let s2 = learnPrev m hello (learnNext m hello s)
        in if g_state s2 = kDiscovering \<and> g_prevKnown s2 \<and> (g_isGateway s2 \<or> g_nextKnown s2)
           then s2\<lparr>g_state := kIdle\<rparr> else s2)"

definition isDuplicate :: "StatusPacket \<Rightarrow> 'q node \<Rightarrow> bool" where
  "isDuplicate pkt s \<longleftrightarrow> g_hasAcceptedAny s \<and> origin_node_id pkt = g_lastAcceptedOrigin s \<and>
     seq pkt = g_lastAcceptedSeq s"

definition noteAccepted :: "StatusPacket \<Rightarrow> 'q node \<Rightarrow> 'q node" where
  "noteAccepted pkt s = s\<lparr>g_hasAcceptedAny := True, g_lastAcceptedOrigin := origin_node_id pkt,
     g_lastAcceptedSeq := seq pkt\<rparr>"

definition handleStatus ::
  "(StatusPacket, 'q) queue_ops \<Rightarrow> mac \<Rightarrow> StatusPacket \<Rightarrow> 'q node \<Rightarrow> 'q node" where
  "handleStatus Q m pkt s =
     (if \<not> g_prevKnown s \<or> m \<noteq> g_prevMac s then s
      else if isDuplicate pkt s then sendAck (g_prevMac s) (origin_node_id pkt) (seq pkt) s
      else if g_isGateway s then
        (let s1 = sendAck (g_prevMac s) (origin_node_id pkt) (seq pkt) (noteAccepted pkt s);
             s2 = s1\<lparr>g_statIn := g_statIn s1 + 1, g_statSunk := g_statSunk s1 + 1\<rparr>
         in emit (UplinkFlush (origin_node_id pkt) (stream_id pkt) (occupied pkt) (plate pkt)) s2)
      else
        (case outQueueSend Q pkt s of
           (False, s1) \<Rightarrow> s1\<lparr>g_statQueueDrops := g_statQueueDrops s1 + 1\<rparr>
         | (True, s1) \<Rightarrow>
             sendAck (g_prevMac s1) (origin_node_id pkt) (seq pkt)
               (noteAccepted pkt (s1\<lparr>g_statIn := g_statIn s1 + 1\<rparr>))))"

definition handleAck :: "mac \<Rightarrow> AckPacket \<Rightarrow> 'q node \<Rightarrow> 'q node" where
  "handleAck m ack s =
     (if g_state s \<noteq> kForwarding \<or> \<not> g_nextKnown s \<or> m \<noteq> g_nextMac s then s
      else if ack_origin_node_id ack \<noteq> origin_node_id (g_pending s) \<or> ack_seq ack \<noteq> seq (g_pending s) then s
      else s\<lparr>g_state := kIdle, g_retryCount := 0, g_statForwarded := g_statForwarded s + 1\<rparr>)"

definition onEspNowRecv :: "(StatusPacket, 'q) queue_ops \<Rightarrow> 'q node recv_handler" where
  "onEspNowRecv Q m data s =
     (if length data < 1 then s
      else if data ! 0 = kPktHello then
        (if sizeof_Hello \<le> length data then handleHello m (dec_hello data) s else s)
      else if data ! 0 = kPktStatus then
        (if sizeof_Status \<le> length data then handleStatus Q m (dec_status data) s else s)
      else if data ! 0 = kPktAck then
        (if sizeof_Ack \<le> length data then handleAck m (dec_ack data) s else s)
      else s)"

section \<open>Boot and the main loop\<close>

definition chain_init ::
  "(StatusPacket, 'q) queue_ops \<Rightarrow> clock \<Rightarrow> u8 \<Rightarrow> u8 \<Rightarrow> 'q node \<Rightarrow> 'q node" where
  "chain_init Q now nodeId chainSize s =
     (let s1 = s\<lparr>g_nodeId := nodeId, g_chainSize := chainSize, g_isGateway := (nodeId = kGatewayNodeId),
                 g_nextId := of_nat ((unat nodeId + 1) mod unat chainSize),
                 g_prevId := of_nat ((unat nodeId + unat chainSize - 1) mod unat chainSize),
                 g_state := kDiscovering\<rparr>;
          s2 = (if g_isGateway s1 then s1 else s1\<lparr>g_outQueue := q_create Q kStatusQueueDepth\<rparr>)
      in broadcastHello now (emit EspSetRecvHandler s2))"

definition helloInterval :: "'q node \<Rightarrow> u32" where
  "helloInterval s = (if g_state s = kDiscovering then kHelloIntervalMs else kHelloIdleIntervalMs)"

definition loop_hello :: "clock \<Rightarrow> 'q node \<Rightarrow> 'q node" where
  "loop_hello now s =
     (if helloInterval s \<le> nowMs (now HelloDue) - g_lastHelloMs s then broadcastHello now s else s)"

text \<open>The packet a due local tick builds from the cached reading of the current lane.\<close>

definition localPacket :: "clock \<Rightarrow> 'q node \<Rightarrow> StatusPacket" where
  "localPacket now s =
     (let r = readLocalStatus now (g_localStream s) (plate StatusPacket0) s
      in StatusPacket0\<lparr>origin_node_id := g_nodeId s, stream_id := g_localStream s,
           seq := g_localSeq s, occupied := fst r, plate := snd r\<rparr>)"

definition loop_local :: "(StatusPacket, 'q) queue_ops \<Rightarrow> clock \<Rightarrow> 'q node \<Rightarrow> 'q node" where
  "loop_local Q now s =
     (if kStatusLocalIntervalMs \<le> nowMs (now LocalDue) - g_lastLocalMs s then
        let s0 = s\<lparr>g_lastLocalMs := nowMs (now LocalSent)\<rparr>;
            pkt = localPacket now s0;
            s1 = s0\<lparr>g_localSeq := g_localSeq s0 + 1,
                    g_localStream := of_nat ((unat (g_localStream s0) + 1) mod unat kVideoStreamsPerNode),
                    g_statLocal := g_statLocal s0 + 1\<rparr>
        in if g_isGateway s1 then
             emit (UplinkFlush (origin_node_id pkt) (stream_id pkt) (occupied pkt) (plate pkt))
               (s1\<lparr>g_statSunk := g_statSunk s1 + 1\<rparr>)
           else
             (case outQueueSend Q pkt s1 of
                (False, s2) \<Rightarrow> s2\<lparr>g_statQueueDrops := g_statQueueDrops s2 + 1\<rparr>
              | (True, s2) \<Rightarrow> s2)
      else s)"

definition retransmit :: "clock \<Rightarrow> 'q node \<Rightarrow> 'q node" where
  "retransmit now s =
     (let s1 = s\<lparr>g_retryCount := g_retryCount s + 1, g_statRetx := g_statRetx s + 1\<rparr>;
          s2 = (if kMaxRetransmit < g_retryCount s1 \<and>
                   5000 \<le> nowMs (now WarnDue) - g_lastRetryWarnMs s1
                then s1\<lparr>g_lastRetryWarnMs := nowMs (now WarnSent)\<rparr> else s1);
          s3 = sendStatus (g_pending s2) s2
      in s3\<lparr>g_ackDeadlineMs := nowMs (now RetxDeadline) + kAckTimeoutMs\<rparr>)"

definition loop_send :: "(StatusPacket, 'q) queue_ops \<Rightarrow> clock \<Rightarrow> 'q node \<Rightarrow> 'q node" where
  "loop_send Q now s =
     (if g_state s = kForwarding then
        (if g_ackDeadlineMs s \<le> nowMs (now AckDue) then retransmit now s else s)
      else
        (case outQueueReceive Q s of
           (Some pkt, s1) \<Rightarrow> beginForwarding now pkt s1
         | (None, s1) \<Rightarrow> s1))"

text \<open>The body of \<open>loop()\<close> after \<open>espnow::poll()\<close>, and the whole iteration.\<close>

definition loop_body :: "(StatusPacket, 'q) queue_ops \<Rightarrow> clock \<Rightarrow> 'q node \<Rightarrow> 'q node" where
  "loop_body Q now s =
     (let s1 = loop_hello now s
      in if g_state s1 = kDiscovering then s1
         else let s2 = loop_local Q now s1
              in if g_isGateway s2 then s2 else loop_send Q now s2)"

definition loop ::
  "(RxItem, 'r) queue_ops \<Rightarrow> (StatusPacket, 'q) queue_ops \<Rightarrow> clock \<Rightarrow>
     ('r, 'q node) transport \<times> 'q node \<Rightarrow> (('r, 'q node) transport \<times> 'q node) option" where
  "loop RQ Q now = (\<lambda>(t, s). map_option (\<lambda>(t', s'). (t', loop_body Q now s')) (poll RQ t s))"

text \<open>The iteration while the WiFi task goes on receiving.\<close>

definition loop_live ::
  "(RxItem, 'r) queue_ops \<Rightarrow> (StatusPacket, 'q) queue_ops \<Rightarrow> (nat \<Rightarrow> (mac \<times> bytes) list) \<Rightarrow> clock \<Rightarrow>
     ('r, 'q node) transport \<times> 'q node \<Rightarrow> (('r, 'q node) transport \<times> 'q node) option" where
  "loop_live RQ Q arr now =
     (\<lambda>(t, s). map_option (\<lambda>(t', s'). (t', loop_body Q now s')) (poll_live RQ arr t s))"

end
