(* ===== verification/StopAndWait.thy ===== *)
theory StopAndWait
  imports Wire
begin

text \<open>
  The abstract specification of one hop of the chain: a stop-and-wait link over two lossy,
  duplicating FIFO channels. It says nothing of nodes, queues, clocks or bytes; the
  refinement of the node model to it is in ChainNet. \<open>key\<close> is what an acknowledgement
  names, \<open>(origin_node_id, seq)\<close>; the receiver recognises a repeat by the key of the packet
  it accepted last, and nothing older.
\<close>

definition key :: "StatusPacket \<Rightarrow> u8 \<times> u16" where
  "key p = (origin_node_id p, seq p)"

record link =
  lk_sent :: "StatusPacket list"      \<comment> \<open>packets the sender has begun to transmit\<close>
  lk_busy :: bool                     \<comment> \<open>the last of them is still unacknowledged\<close>
  lk_acc :: "StatusPacket list"       \<comment> \<open>packets the receiver has accepted\<close>
  lk_data :: "StatusPacket list"      \<comment> \<open>data frames in flight\<close>
  lk_acks :: "(u8 \<times> u16) list"        \<comment> \<open>acknowledgements in flight\<close>

definition link0 :: link where
  "link0 = \<lparr>lk_sent = [], lk_busy = False, lk_acc = [], lk_data = [], lk_acks = []\<rparr>"

definition repeated :: "StatusPacket \<Rightarrow> link \<Rightarrow> bool" where
  "repeated p l \<longleftrightarrow> lk_acc l \<noteq> [] \<and> key p = key (last (lk_acc l))"

inductive link_step :: "link \<Rightarrow> link \<Rightarrow> bool" where
  begin_send: "\<not> lk_busy l \<Longrightarrow>
    link_step l (l\<lparr>lk_sent := lk_sent l @ [p], lk_busy := True, lk_data := lk_data l @ [p]\<rparr>)"
| resend: "lk_busy l \<Longrightarrow> link_step l (l\<lparr>lk_data := lk_data l @ [last (lk_sent l)]\<rparr>)"
| recv_repeat: "lk_data l = p # ps \<Longrightarrow> repeated p l \<Longrightarrow>
    link_step l (l\<lparr>lk_data := ps, lk_acks := lk_acks l @ [key p]\<rparr>)"
| recv_accept: "lk_data l = p # ps \<Longrightarrow> \<not> repeated p l \<Longrightarrow>
    link_step l (l\<lparr>lk_data := ps, lk_acc := lk_acc l @ [p], lk_acks := lk_acks l @ [key p]\<rparr>)"
| ack_match: "lk_acks l = a # as \<Longrightarrow> lk_busy l \<Longrightarrow> a = key (last (lk_sent l)) \<Longrightarrow>
    link_step l (l\<lparr>lk_acks := as, lk_busy := False\<rparr>)"
| lose_data: "lk_data l = xs @ p # ys \<Longrightarrow> link_step l (l\<lparr>lk_data := xs @ ys\<rparr>)"
| lose_ack: "lk_acks l = xs @ a # ys \<Longrightarrow> link_step l (l\<lparr>lk_acks := xs @ ys\<rparr>)"
| dup_data: "lk_data l = xs @ p # ys \<Longrightarrow> link_step l (l\<lparr>lk_data := xs @ p # p # ys\<rparr>)"
| dup_ack: "lk_acks l = xs @ a # ys \<Longrightarrow> link_step l (l\<lparr>lk_acks := xs @ a # a # ys\<rparr>)"

text \<open>A refused packet and an ignored acknowledgement are losses of the head of a channel.\<close>

inductive link_reach :: "link \<Rightarrow> bool" where
  boot: "link_reach link0"
| step: "link_reach l \<Longrightarrow> link_step l l' \<Longrightarrow> link_reach l'"

section \<open>The invariant\<close>

text \<open>
  Of the \<open>n\<close> packets begun, \<open>k\<close> are accepted and \<open>m\<close> acknowledged, with
  \<open>m \<le> k \<le> n \<le> m + 1\<close>. The frames in flight are copies of the last accepted packet, then of
  the last one begun; the acknowledgements in flight are for the last acknowledged packet,
  then for the last accepted one.
\<close>

definition two_phase :: "'a list \<Rightarrow> 'a list \<Rightarrow> nat \<Rightarrow> nat \<Rightarrow> bool" where
  "two_phase ch S m n \<longleftrightarrow> (\<exists>xs ys. ch = xs @ ys \<and>
     (\<forall>x \<in> set xs. 0 < m \<and> x = S ! (m - 1)) \<and> (\<forall>y \<in> set ys. 0 < n \<and> y = S ! (n - 1)))"

definition acked :: "link \<Rightarrow> nat" where
  "acked l = length (lk_sent l) - (if lk_busy l then 1 else 0)"

definition link_inv :: "link \<Rightarrow> bool" where
  "link_inv l \<longleftrightarrow>
     (let S = lk_sent l; n = length S; k = length (lk_acc l); m = acked l
      in m \<le> k \<and> prefix (lk_acc l) S \<and> (lk_busy l \<longrightarrow> 0 < n) \<and>
         two_phase (lk_data l) S k n \<and> two_phase (lk_acks l) (map key S) m k)"

lemma two_phase_Nil [simp]: "two_phase [] S m n"
  by (simp add: two_phase_def)

lemma two_phase_remove: "two_phase (xs @ y # ys) S m n \<Longrightarrow> two_phase (xs @ ys) S m n"
  unfolding two_phase_def
proof (elim exE conjE)
  fix us vs
  assume eq: "xs @ y # ys = us @ vs"
    and us: "\<forall>x \<in> set us. 0 < m \<and> x = S ! (m - 1)" and vs: "\<forall>y \<in> set vs. 0 < n \<and> y = S ! (n - 1)"
  from eq consider ws where "us = xs @ y # ws" "ys = ws @ vs" | ws where "xs = us @ ws" "vs = ws @ y # ys"
    by (auto simp: append_eq_append_conv2 Cons_eq_append_conv)
  then show "\<exists>us vs. xs @ ys = us @ vs \<and> (\<forall>x \<in> set us. 0 < m \<and> x = S ! (m - 1)) \<and>
      (\<forall>y \<in> set vs. 0 < n \<and> y = S ! (n - 1))"
  proof cases
    case 1
    with us vs show ?thesis by (intro exI [of _ "xs @ ws"] exI [of _ vs]) auto
  next
    case 2
    with us vs show ?thesis by (intro exI [of _ us] exI [of _ "ws @ ys"]) auto
  qed
qed

lemma two_phase_dup: "two_phase (xs @ y # ys) S m n \<Longrightarrow> two_phase (xs @ y # y # ys) S m n"
  unfolding two_phase_def
proof (elim exE conjE)
  fix us vs
  assume eq: "xs @ y # ys = us @ vs"
    and us: "\<forall>x \<in> set us. 0 < m \<and> x = S ! (m - 1)" and vs: "\<forall>y \<in> set vs. 0 < n \<and> y = S ! (n - 1)"
  from eq consider ws where "us = xs @ y # ws" "ys = ws @ vs" | ws where "xs = us @ ws" "vs = ws @ y # ys"
    by (auto simp: append_eq_append_conv2 Cons_eq_append_conv)
  then show "\<exists>us vs. xs @ y # y # ys = us @ vs \<and> (\<forall>x \<in> set us. 0 < m \<and> x = S ! (m - 1)) \<and>
      (\<forall>y \<in> set vs. 0 < n \<and> y = S ! (n - 1))"
  proof cases
    case 1
    with us vs show ?thesis by (intro exI [of _ "xs @ y # y # ws"] exI [of _ vs]) auto
  next
    case 2
    with us vs show ?thesis by (intro exI [of _ us] exI [of _ "ws @ y # y # ys"]) auto
  qed
qed

lemma two_phase_tl: "two_phase (y # ys) S m n \<Longrightarrow> two_phase ys S m n"
  using two_phase_remove [of "[]" y ys] by simp

lemma two_phase_hd:
  assumes "two_phase (y # ys) S m n"
  shows "(0 < m \<and> y = S ! (m - 1)) \<or> (0 < n \<and> y = S ! (n - 1))"
proof -
  obtain us vs where eq: "y # ys = us @ vs" and us: "\<forall>x \<in> set us. 0 < m \<and> x = S ! (m - 1)"
    and vs: "\<forall>y \<in> set vs. 0 < n \<and> y = S ! (n - 1)"
    using assms unfolding two_phase_def by blast
  then show ?thesis by (cases us) auto
qed

lemma two_phase_snoc:
  assumes "two_phase ch S m n" and "0 < n" and "z = S ! (n - 1)"
  shows "two_phase (ch @ [z]) S m n"
proof -
  obtain us vs where "ch = us @ vs" and "\<forall>x \<in> set us. 0 < m \<and> x = S ! (m - 1)"
    and "\<forall>y \<in> set vs. 0 < n \<and> y = S ! (n - 1)"
    using assms(1) unfolding two_phase_def by blast
  then show ?thesis
    unfolding two_phase_def using assms(2,3) by (intro exI [of _ us] exI [of _ "vs @ [z]"]) simp
qed

text \<open>With both phases equal the channel may be read as either phase of a later state.\<close>

lemma two_phase_same:
  "two_phase ch S m m \<Longrightarrow> \<forall>y \<in> set ch. 0 < m \<and> y = S ! (m - 1)"
  unfolding two_phase_def by auto

lemma two_phase_all: "\<forall>y \<in> set ch. 0 < m \<and> y = S ! (m - 1) \<Longrightarrow> two_phase ch S m n"
  unfolding two_phase_def by (intro exI [of _ ch] exI [of _ "[]"]) simp

lemma two_phase_all2: "\<forall>y \<in> set ch. 0 < n \<and> y = S ! (n - 1) \<Longrightarrow> two_phase ch S m n"
  unfolding two_phase_def by (intro exI [of _ "[]"] exI [of _ ch]) simp

text \<open>If the head belongs to the second phase and the phases differ, so does the whole channel.\<close>

lemma two_phase_late:
  assumes "two_phase (y # ys) S m n" and "0 < m \<Longrightarrow> y \<noteq> S ! (m - 1)"
  shows "\<forall>z \<in> set (y # ys). 0 < n \<and> z = S ! (n - 1)"
proof -
  obtain us vs where eq: "y # ys = us @ vs" and us: "\<forall>x \<in> set us. 0 < m \<and> x = S ! (m - 1)"
    and vs: "\<forall>y \<in> set vs. 0 < n \<and> y = S ! (n - 1)"
    using assms(1) unfolding two_phase_def by blast
  have "us = []"
    using eq us assms(2) by (cases us) auto
  with eq vs show ?thesis by simp
qed


section \<open>Preservation\<close>

lemma link_inv_begin:
  assumes inv: "link_inv l" and idle: "\<not> lk_busy l"
  shows "link_inv (l\<lparr>lk_sent := lk_sent l @ [p], lk_busy := True, lk_data := lk_data l @ [p]\<rparr>)"
proof -
  let ?S = "lk_sent l" and ?n = "length (lk_sent l)"
  from inv idle have k: "lk_acc l = ?S"
    by (auto simp: link_inv_def acked_def Let_def intro: prefix_same_length)
  with inv idle have d: "two_phase (lk_data l) ?S ?n ?n"
    and a: "two_phase (lk_acks l) (map key ?S) ?n ?n"
    by (auto simp: link_inv_def acked_def Let_def)
  have "\<forall>y \<in> set (lk_data l). 0 < ?n \<and> y = (?S @ [p]) ! (?n - 1)"
    using two_phase_same [OF d] by (auto simp: nth_append)
  then have "two_phase (lk_data l) (?S @ [p]) ?n (Suc ?n)" by (rule two_phase_all)
  then have d': "two_phase (lk_data l @ [p]) (?S @ [p]) ?n (Suc ?n)"
    by (rule two_phase_snoc) simp_all
  have "\<forall>y \<in> set (lk_acks l). 0 < ?n \<and> y = map key (?S @ [p]) ! (?n - 1)"
    using two_phase_same [OF a] by (auto simp: nth_append)
  then have a': "two_phase (lk_acks l) (map key (?S @ [p])) ?n ?n" by (rule two_phase_all)
  from k d' a' show ?thesis
    by (simp add: link_inv_def acked_def Let_def)
qed

lemma link_inv_resend:
  assumes "link_inv l" and "lk_busy l"
  shows "link_inv (l\<lparr>lk_data := lk_data l @ [last (lk_sent l)]\<rparr>)"
  using assms two_phase_snoc [of "lk_data l" "lk_sent l" "length (lk_acc l)" "length (lk_sent l)"]
  by (auto simp: link_inv_def acked_def Let_def last_conv_nth)

lemma link_inv_repeat:
  assumes "link_inv l" and "lk_data l = p # ps" and "repeated p l"
  shows "link_inv (l\<lparr>lk_data := ps, lk_acks := lk_acks l @ [key p]\<rparr>)"
proof -
  let ?k = "length (lk_acc l)"
  from assms(1,3) have k: "0 < ?k" "?k \<le> length (lk_sent l)" "prefix (lk_acc l) (lk_sent l)"
    by (auto simp: link_inv_def Let_def repeated_def intro: prefix_length_le)
  have "key p = key (last (lk_acc l))"
    using assms(3) by (simp add: repeated_def)
  also have "last (lk_acc l) = lk_sent l ! (?k - 1)"
    using k by (intro prefix_last_nth) auto
  also have "key (lk_sent l ! (?k - 1)) = map key (lk_sent l) ! (?k - 1)"
    using k(1,2) by (intro nth_map [symmetric]) linarith
  finally have "key p = map key (lk_sent l) ! (?k - 1)" .
  then have "two_phase (lk_acks l @ [key p]) (map key (lk_sent l)) (acked l) ?k"
    using assms(1) k(1) by (intro two_phase_snoc) (auto simp: link_inv_def Let_def)
  moreover have "two_phase ps (lk_sent l) ?k (length (lk_sent l))"
    using assms(1,2) by (auto simp: link_inv_def Let_def intro: two_phase_tl)
  ultimately show ?thesis
    using assms(1) by (simp add: link_inv_def acked_def Let_def)
qed

lemma key_adjacent:
  assumes "distinct_adj (map key S)" and "0 < k" and "k < length S"
  shows "key (S ! k) \<noteq> key (S ! (k - 1))"
proof -
  have "map key S ! (k - 1) \<noteq> map key S ! Suc (k - 1)"
    using assms by (intro distinct_adj_nth) auto
  then show ?thesis using assms by auto
qed

lemma link_inv_accept:
  assumes inv: "link_inv l" and d: "lk_data l = p # ps" and new: "\<not> repeated p l"
    and adj: "distinct_adj (map key (lk_sent l))"
  shows "link_inv (l\<lparr>lk_data := ps, lk_acc := lk_acc l @ [p], lk_acks := lk_acks l @ [key p]\<rparr>)"
proof -
  let ?S = "lk_sent l" and ?k = "length (lk_acc l)"
  let ?n = "length ?S"
  from inv have pre: "prefix (lk_acc l) ?S" and mk: "acked l \<le> ?k"
    and data: "two_phase (p # ps) ?S ?k ?n" and acks: "two_phase (lk_acks l) (map key ?S) (acked l) ?k"
    using d by (auto simp: link_inv_def Let_def)
  have not_last: "p \<noteq> ?S ! (?k - 1)" if "0 < ?k"
  proof -
    from that have "last (lk_acc l) = ?S ! (?k - 1)"
      using pre by (intro prefix_last_nth) auto
    with new that show ?thesis by (auto simp: repeated_def)
  qed
  with data have late: "\<forall>z \<in> set (p # ps). 0 < ?n \<and> z = ?S ! (?n - 1)"
    by (intro two_phase_late) auto
  have n: "?n = Suc ?k"
  proof (rule ccontr)
    assume "?n \<noteq> Suc ?k"
    moreover have "?n \<le> Suc ?k" "?k \<le> ?n"
      using mk prefix_length_le [OF pre] by (auto simp: acked_def split: if_splits)
    ultimately have "?k = ?n" by simp
    with late not_last show False by simp
  qed
  then have m: "acked l = ?k" using mk by (auto simp: acked_def split: if_splits)
  have "?S \<noteq> []" using n by auto
  then have p: "p = last ?S" using late by (simp add: last_conv_nth)
  have S: "?S = lk_acc l @ [p]"
    unfolding p using pre n by (rule prefix_snoc_nth)
  have "\<forall>z \<in> set ps. 0 < Suc ?k \<and> z = ?S ! (Suc ?k - 1)"
    using late n by simp
  then have "two_phase ps ?S (Suc ?k) ?n" by (rule two_phase_all)
  moreover have "\<forall>z \<in> set (lk_acks l). 0 < ?k \<and> z = map key ?S ! (?k - 1)"
    using acks m by (intro two_phase_same) simp
  then have "two_phase (lk_acks l @ [key p]) (map key ?S) ?k (Suc ?k)"
    using S nth_append_length [of "map key (lk_acc l)" "key p" "[]"]
    by (intro two_phase_snoc two_phase_all) simp_all
  ultimately show ?thesis
    using inv m S by (simp add: link_inv_def acked_def Let_def)
qed

lemma link_inv_ack:
  assumes inv: "link_inv l" and a: "lk_acks l = a # as" and busy: "lk_busy l"
    and match: "a = key (last (lk_sent l))" and adj: "distinct_adj (map key (lk_sent l))"
  shows "link_inv (l\<lparr>lk_acks := as, lk_busy := False\<rparr>)"
proof -
  let ?S = "lk_sent l" and ?k = "length (lk_acc l)"
  let ?n = "length ?S"
  from inv busy have n: "0 < ?n" "acked l = ?n - 1" and pre: "prefix (lk_acc l) ?S"
    and mk: "acked l \<le> ?k" and acks: "two_phase (a # as) (map key ?S) (acked l) ?k"
    using a by (auto simp: link_inv_def Let_def acked_def)
  from match n have a_eq: "a = key (?S ! (?n - 1))" by (simp add: last_conv_nth)
  have not_old: "a \<noteq> map key ?S ! (acked l - 1)" if "0 < acked l"
    using key_adjacent [OF adj, of "?n - 1"] that n a_eq by simp
  with acks have late: "\<forall>z \<in> set (a # as). 0 < ?k \<and> z = map key ?S ! (?k - 1)"
    by (intro two_phase_late) auto
  have k: "?k = ?n"
  proof (rule ccontr)
    assume "?k \<noteq> ?n"
    with prefix_length_le [OF pre] mk n have "?k = acked l" by simp
    with late not_old show False by simp
  qed
  have "\<forall>z \<in> set as. 0 < ?n \<and> z = map key ?S ! (?n - 1)"
    using late unfolding k by (simp only: list.set_intros ball_simps insert_iff list.set) auto
  then have "two_phase as (map key ?S) ?n ?n" by (rule two_phase_all)
  with inv k show ?thesis
    by (simp add: link_inv_def acked_def Let_def)
qed

lemma sent_grows: "link_step l l' \<Longrightarrow> prefix (lk_sent l) (lk_sent l')"
  by (induction rule: link_step.induct) auto

lemma link_step_inv:
  assumes "link_step l l'" and "link_inv l" and "distinct_adj (map key (lk_sent l))"
  shows "link_inv l'"
  using assms
proof (induction rule: link_step.induct)
  case (lose_data l xs p ys)
  then show ?case
    by (auto simp: link_inv_def acked_def Let_def intro: two_phase_remove)
next
  case (lose_ack l xs a ys)
  then show ?case
    by (auto simp: link_inv_def acked_def Let_def intro: two_phase_remove)
next
  case (dup_data l xs p ys)
  then show ?case
    by (auto simp: link_inv_def acked_def Let_def intro: two_phase_dup)
next
  case (dup_ack l xs a ys)
  then show ?case
    by (auto simp: link_inv_def acked_def Let_def intro: two_phase_dup)
qed (auto intro: link_inv_begin link_inv_resend link_inv_repeat link_inv_accept link_inv_ack)

lemma link_reach_inv: "link_reach l \<Longrightarrow> distinct_adj (map key (lk_sent l)) \<Longrightarrow> link_inv l"
proof (induction rule: link_reach.induct)
  case boot
  show ?case by (simp add: link_inv_def link0_def acked_def)
next
  case (step l l')
  from sent_grows [OF step.hyps(2)] step.prems
  have "distinct_adj (map key (lk_sent l))"
    by (auto simp: prefix_def)
  with step show ?case by (blast intro: link_step_inv)
qed

text \<open>What the link promises: nothing lost, repeated or reordered, one packet outstanding.\<close>

lemma link_exactly_once:
  assumes "link_reach l" and "distinct_adj (map key (lk_sent l))"
  shows "lk_acc l = lk_sent l \<or> (lk_busy l \<and> lk_sent l = lk_acc l @ [last (lk_sent l)])"
proof -
  from assms have inv: "link_inv l" by (rule link_reach_inv)
  then have pre: "prefix (lk_acc l) (lk_sent l)" and m: "acked l \<le> length (lk_acc l)"
    by (auto simp: link_inv_def Let_def)
  show ?thesis
  proof (cases "length (lk_acc l) = length (lk_sent l)")
    case True
    with pre show ?thesis by (auto simp: prefix_def)
  next
    case False
    with m prefix_length_le [OF pre] have "lk_busy l" "length (lk_sent l) = Suc (length (lk_acc l))"
      by (auto simp: acked_def split: if_splits)
    with pre show ?thesis by (auto intro: prefix_snoc_nth)
  qed
qed

lemma link_acc_prefix:
  "link_reach l \<Longrightarrow> distinct_adj (map key (lk_sent l)) \<Longrightarrow> prefix (lk_acc l) (lk_sent l)"
  using link_exactly_once [of l] by (metis prefix_def prefix_order.refl)

end
