(* ===== verification/ChainTrace.thy ===== *)
theory ChainTrace
  imports ChainNode StopAndWait
begin

text \<open>
  What a node has done, read off its call log: the packets it put on its outgoing queue,
  the packets it began to transmit, the readings it handed to the uplink, the readings it
  accepted from upstream; and the frames a piece of log puts on the air for a given
  station. The equations are collected in \<open>trace\<close>.
\<close>

named_theorems trace "histories of a call log"

section \<open>Histories\<close>

text \<open>A reading as the uplink sees it: origin, lane, occupancy, plate bytes.\<close>

type_synonym reading = "u8 \<times> u8 \<times> u8 \<times> bytes"

definition reading :: "StatusPacket \<Rightarrow> reading" where
  "reading p = (origin_node_id p, stream_id p, occupied p, plate p)"

fun enq_of :: "call list \<Rightarrow> StatusPacket list" where
  "enq_of [] = []"
| "enq_of (QueueSend p True # cs) = p # enq_of cs"
| "enq_of (_ # cs) = enq_of cs"

fun sent_of :: "call list \<Rightarrow> StatusPacket list" where
  "sent_of [] = []"
| "sent_of (QueueReceive p # cs) = p # sent_of cs"
| "sent_of (_ # cs) = sent_of cs"

fun flushed_of :: "call list \<Rightarrow> reading list" where
  "flushed_of [] = []"
| "flushed_of (UplinkFlush n st oc pl # cs) = (n, st, oc, pl) # flushed_of cs"
| "flushed_of (_ # cs) = flushed_of cs"

lemma enq_of_append [trace]: "enq_of (xs @ ys) = enq_of xs @ enq_of ys"
  by (induction xs rule: enq_of.induct) auto

lemma sent_of_append [trace]: "sent_of (xs @ ys) = sent_of xs @ sent_of ys"
  by (induction xs rule: sent_of.induct) auto

lemma flushed_of_append [trace]: "flushed_of (xs @ ys) = flushed_of xs @ flushed_of ys"
  by (induction xs rule: flushed_of.induct) auto

definition enqueued :: "'q node \<Rightarrow> StatusPacket list" where
  [trace]: "enqueued s = enq_of (calls s)"

definition sent :: "'q node \<Rightarrow> StatusPacket list" where
  [trace]: "sent s = sent_of (calls s)"

definition flushed :: "'q node \<Rightarrow> reading list" where
  [trace]: "flushed s = flushed_of (calls s)"

text \<open>Packets a relay queued for others, and for itself; readings a node accepted from upstream.\<close>

definition relayed :: "'q node \<Rightarrow> StatusPacket list" where
  "relayed s = filter (\<lambda>p. origin_node_id p \<noteq> g_nodeId s) (enqueued s)"

definition own_enqueued :: "'q node \<Rightarrow> StatusPacket list" where
  "own_enqueued s = filter (\<lambda>p. origin_node_id p = g_nodeId s) (enqueued s)"

definition accepted :: "'q node \<Rightarrow> reading list" where
  "accepted s = (if g_isGateway s then filter (\<lambda>r. fst r \<noteq> g_nodeId s) (flushed s)
                 else map reading (relayed s))"

text \<open>A relay with an empty queue and no packet outstanding has passed on all it queued.\<close>

definition drained :: "'q node \<Rightarrow> bool" where
  "drained s \<longleftrightarrow> g_state s \<noteq> kForwarding \<and> sent s = enqueued s"

section \<open>Frames\<close>

definition is_status :: "bytes \<Rightarrow> bool" where
  "is_status f \<longleftrightarrow> sizeof_Status \<le> length f \<and> f ! 0 = kPktStatus"

definition is_ack :: "bytes \<Rightarrow> bool" where
  "is_ack f \<longleftrightarrow> sizeof_Ack \<le> length f \<and> f ! 0 = kPktAck"

definition ack_key :: "bytes \<Rightarrow> u8 \<times> u16" where
  "ack_key f = (ack_origin_node_id (dec_ack f), ack_seq (dec_ack f))"

definition statuses :: "bytes list \<Rightarrow> StatusPacket list" where
  "statuses fs = map dec_status (filter is_status fs)"

definition ack_keys :: "bytes list \<Rightarrow> (u8 \<times> u16) list" where
  "ack_keys fs = map ack_key (filter is_ack fs)"

lemma statuses_simps [simp]:
  "statuses [] = []" "statuses (xs @ ys) = statuses xs @ statuses ys"
  "statuses (f # fs) = (if is_status f then dec_status f # statuses fs else statuses fs)"
  by (simp_all add: statuses_def)

lemma ack_keys_simps [simp]:
  "ack_keys [] = []" "ack_keys (xs @ ys) = ack_keys xs @ ack_keys ys"
  "ack_keys (f # fs) = (if is_ack f then ack_key f # ack_keys fs else ack_keys fs)"
  by (simp_all add: ack_keys_def)

text \<open>The frames a stretch of call log transmits to station \<open>m\<close>; a broadcast reaches everybody.\<close>

fun frames_to :: "mac \<Rightarrow> call list \<Rightarrow> bytes list" where
  "frames_to m [] = []"
| "frames_to m (EspSend m' f # cs) = (if m' = m then f # frames_to m cs else frames_to m cs)"
| "frames_to m (EspBroadcast f # cs) = f # frames_to m cs"
| "frames_to m (_ # cs) = frames_to m cs"

lemma frames_to_append [trace]: "frames_to m (xs @ ys) = frames_to m xs @ frames_to m ys"
  by (induction m xs rule: frames_to.induct) auto

lemma enc_classify [simp]:
  "hello_type h = kPktHello \<Longrightarrow> \<not> is_status (enc_hello h)"
  "hello_type h = kPktHello \<Longrightarrow> \<not> is_ack (enc_hello h)"
  "status_type p = kPktStatus \<Longrightarrow> wf_status p \<Longrightarrow> is_status (enc_status p)"
  "status_type p = kPktStatus \<Longrightarrow> \<not> is_ack (enc_status p)"
  "ack_type a = kPktAck \<Longrightarrow> is_ack (enc_ack a)"
  "ack_type a = kPktAck \<Longrightarrow> \<not> is_status (enc_ack a)"
  by (auto simp: is_status_def is_ack_def enc_first pkt_type_defs)

lemma ack_key_enc [simp]: "ack_key (enc_ack a) = (ack_origin_node_id a, ack_seq a)"
  by (simp add: ack_key_def)

text \<open>The transmissions of STATUS packets in a log: unicast frames longer than an ACK.\<close>

fun aired_of :: "call list \<Rightarrow> bytes list" where
  "aired_of [] = []"
| "aired_of (EspSend m f # cs) = (if sizeof_Ack < length f then f # aired_of cs else aired_of cs)"
| "aired_of (_ # cs) = aired_of cs"

lemma aired_of_append [trace]: "aired_of (xs @ ys) = aired_of xs @ aired_of ys"
  by (induction xs rule: aired_of.induct) auto

definition aired :: "'q node \<Rightarrow> bytes list" where
  [trace]: "aired s = aired_of (calls s)"

lemma long_status: "sizeof_Ack < length (enc_status p)"
  by (simp add: enc_status_def sizeof_Ack_def)

section \<open>The new part of a log\<close>

text \<open>Every operation only appends to the log; \<open>new_calls\<close> is what it appended.\<close>

definition new_calls :: "'q node \<Rightarrow> 'q node \<Rightarrow> call list" where
  "new_calls s s' = drop (length (calls s)) (calls s')"

lemma new_callsI: "calls s' = calls s @ cs \<Longrightarrow> new_calls s s' = cs"
  by (simp add: new_calls_def)

end
