(* ===== verification/ChainInv.thy ===== *)
theory ChainInv
  imports ChainTrace
begin

text \<open>
  The invariant of one node of an \<open>N\<close>-node chain whose stations have the addresses
  \<open>macs\<close>, and the effect of every operation on it: what it does to the node's role as a
  sender towards \<open>next\<close> (\<open>quiet\<close> when nothing), to its role as a receiver from \<open>prev\<close>
  (\<open>deaf\<close> when nothing), and what it puts on the air (\<open>airs\<close>). The lemmas are proved
  once in the locale \<open>chain\<close>, over the contract of \<open>g_outQueue\<close>.
\<close>

section \<open>Neighbours and frames\<close>

definition nxt :: "nat \<Rightarrow> nat \<Rightarrow> nat" where
  "nxt N i = (i + 1) mod N"

definition prv :: "nat \<Rightarrow> nat \<Rightarrow> nat" where
  "prv N i = (i + N - 1) mod N"

definition pkt_ok :: "nat \<Rightarrow> StatusPacket \<Rightarrow> bool" where
  "pkt_ok i p \<longleftrightarrow> wf_status p \<and> status_type p = kPktStatus \<and>
     1 \<le> unat (origin_node_id p) \<and> unat (origin_node_id p) \<le> i"

definition frame_ok :: "nat \<Rightarrow> nat \<Rightarrow> nat \<Rightarrow> bytes \<Rightarrow> bool" where
  "frame_ok N i j f \<longleftrightarrow>
     (\<exists>h. f = enc_hello h \<and> hello_type h = kPktHello \<and> hello_node_id h = of_nat i) \<or>
     (\<exists>p. f = enc_status p \<and> pkt_ok i p \<and> i \<noteq> 0 \<and> j = nxt N i) \<or>
     (\<exists>a. f = enc_ack a \<and> ack_type a = kPktAck \<and> j = prv N i)"

section \<open>The invariant\<close>

definition ids_ok :: "nat \<Rightarrow> nat \<Rightarrow> 'q node \<Rightarrow> bool" where
  "ids_ok N i s \<longleftrightarrow> g_nodeId s = of_nat i \<and> g_chainSize s = of_nat N \<and> (g_isGateway s \<longleftrightarrow> i = 0) \<and>
     g_nextId s = of_nat (nxt N i) \<and> g_prevId s = of_nat (prv N i)"

definition peers_ok :: "nat \<Rightarrow> (nat \<Rightarrow> mac) \<Rightarrow> nat \<Rightarrow> 'q node \<Rightarrow> bool" where
  "peers_ok N macs i s \<longleftrightarrow>
     (g_nextKnown s \<longrightarrow> g_nextMac s = macs (nxt N i)) \<and> (g_prevKnown s \<longrightarrow> g_prevMac s = macs (prv N i)) \<and>
     (g_state s \<noteq> kDiscovering \<longrightarrow> g_prevKnown s \<and> (i = 0 \<or> g_nextKnown s))"

definition queue_ok ::
  "('q \<Rightarrow> bool) \<Rightarrow> ('q \<Rightarrow> StatusPacket list) \<Rightarrow> ('q \<Rightarrow> nat) \<Rightarrow> nat \<Rightarrow> 'q node \<Rightarrow> bool" where
  "queue_ok valid contents capacity i s \<longleftrightarrow>
     (if i = 0 then g_outQueue s = None \<and> enqueued s = [] \<and> sent s = []
      else case g_outQueue s of
             None \<Rightarrow> enqueued s = sent s
           | Some q \<Rightarrow> queue_inv valid contents capacity q \<and> capacity q = kStatusQueueDepth \<and>
                       enqueued s = sent s @ contents q)"

definition traffic_ok :: "nat \<Rightarrow> 'q node \<Rightarrow> bool" where
  "traffic_ok i s \<longleftrightarrow> (\<forall>p \<in> set (enqueued s). pkt_ok i p) \<and>
     (g_state s = kForwarding \<longrightarrow> i \<noteq> 0 \<and> sent s \<noteq> [] \<and> g_pending s = last (sent s))"

definition dedup_ok :: "nat \<Rightarrow> 'q node \<Rightarrow> bool" where
  "dedup_ok i s \<longleftrightarrow> i \<noteq> 0 \<longrightarrow>
     (g_hasAcceptedAny s \<longleftrightarrow> relayed s \<noteq> []) \<and>
     (relayed s \<noteq> [] \<longrightarrow> key (last (relayed s)) = (g_lastAcceptedOrigin s, g_lastAcceptedSeq s)) \<and>
     distinct_adj (map key (relayed s))"

definition node_ok ::
  "('q \<Rightarrow> bool) \<Rightarrow> ('q \<Rightarrow> StatusPacket list) \<Rightarrow> ('q \<Rightarrow> nat) \<Rightarrow> nat \<Rightarrow> (nat \<Rightarrow> mac) \<Rightarrow> nat \<Rightarrow>
     'q node \<Rightarrow> bool" where
  "node_ok valid contents capacity N macs i s \<longleftrightarrow>
     ids_ok N i s \<and> peers_ok N macs i s \<and> queue_ok valid contents capacity i s \<and>
     traffic_ok i s \<and> dedup_ok i s"

lemmas node_ok_defs = node_ok_def ids_ok_def peers_ok_def queue_ok_def traffic_ok_def dedup_ok_def

section \<open>Effects\<close>

definition quiet :: "'q node \<Rightarrow> 'q node \<Rightarrow> bool" where
  "quiet s s' \<longleftrightarrow> sent s' = sent s \<and> (g_state s' = kForwarding \<longleftrightarrow> g_state s = kForwarding)"

definition deaf :: "'q node \<Rightarrow> 'q node \<Rightarrow> bool" where
  "deaf s s' \<longleftrightarrow> accepted s' = accepted s \<and> g_hasAcceptedAny s' = g_hasAcceptedAny s \<and>
     g_lastAcceptedOrigin s' = g_lastAcceptedOrigin s \<and> g_lastAcceptedSeq s' = g_lastAcceptedSeq s"

definition airs ::
  "nat \<Rightarrow> (nat \<Rightarrow> mac) \<Rightarrow> nat \<Rightarrow> call list \<Rightarrow> StatusPacket list \<Rightarrow> (u8 \<times> u16) list \<Rightarrow> bool" where
  "airs N macs i cs ps ks \<longleftrightarrow> (\<forall>j < N. j \<noteq> i \<longrightarrow>
     statuses (frames_to (macs j) cs) = (if j = nxt N i then ps else []) \<and>
     ack_keys (frames_to (macs j) cs) = (if j = prv N i then ks else []) \<and>
     (\<forall>f \<in> set (frames_to (macs j) cs). frame_ok N i j f))"

lemma quiet_refl [simp]: "quiet s s"
  by (simp add: quiet_def)

lemma deaf_refl [simp]: "deaf s s"
  by (simp add: deaf_def)

lemma quiet_trans: "quiet s s' \<Longrightarrow> quiet s' s'' \<Longrightarrow> quiet s s''"
  by (simp add: quiet_def)

lemma deaf_trans: "deaf s s' \<Longrightarrow> deaf s' s'' \<Longrightarrow> deaf s s''"
  by (simp add: deaf_def)

lemma airs_Nil [simp]: "airs N macs i [] [] []"
  by (simp add: airs_def)

lemma airs_append:
  "airs N macs i cs ps ks \<Longrightarrow> airs N macs i cs' ps' ks' \<Longrightarrow> airs N macs i (cs @ cs') (ps @ ps') (ks @ ks')"
  unfolding airs_def by (auto simp: trace)

lemma airs_silent [simp]:
  "airs N macs i [EspAddPeer m] [] []" "airs N macs i [EspSetRecvHandler] [] []"
  "airs N macs i [QueueSend p b] [] []" "airs N macs i [QueueReceive p] [] []"
  "airs N macs i [QueueNull] [] []" "airs N macs i [UplinkFlush n st oc pl] [] []"
  by (simp_all add: airs_def)

lemma airs_hello:
  "hello_type h = kPktHello \<Longrightarrow> hello_node_id h = of_nat i \<Longrightarrow>
     airs N macs i [EspBroadcast (enc_hello h)] [] []"
  by (auto simp: airs_def frame_ok_def)

lemma airs_status:
  assumes "inj_on macs {..<N}" and "0 < N" and "pkt_ok i p" and "i \<noteq> 0"
  shows "airs N macs i [EspSend (macs (nxt N i)) (enc_status p)] [p] []"
proof -
  have "nxt N i < N" using assms(2) by (simp add: nxt_def)
  then have "macs (nxt N i) = macs j \<longleftrightarrow> j = nxt N i" if "j < N" for j
    using assms(1) that by (auto simp: inj_on_def)
  then show ?thesis
    using assms(3,4) by (auto simp: airs_def frame_ok_def pkt_ok_def)
qed

lemma airs_ack:
  assumes "inj_on macs {..<N}" and "0 < N" and "ack_type a = kPktAck"
  shows "airs N macs i [EspSend (macs (prv N i)) (enc_ack a)] [] [(ack_origin_node_id a, ack_seq a)]"
proof -
  have "prv N i < N" using assms(2) by (simp add: prv_def)
  then have "macs (prv N i) = macs j \<longleftrightarrow> j = prv N i" if "j < N" for j
    using assms(1) that by (auto simp: inj_on_def)
  then show ?thesis
    using assms(3) by (auto simp: airs_def frame_ok_def)
qed

section \<open>Stations of the chain\<close>

text \<open>
  A chain: at least two and at most \<open>kMaxChainNodes\<close> stations with distinct addresses, and
  outgoing queues that keep the contract of the kernel.
\<close>

locale chain = rtos_queue Q valid contents capacity
  for Q :: "(StatusPacket, 'q) queue_ops"
    and valid :: "'q \<Rightarrow> bool"
    and contents :: "'q \<Rightarrow> StatusPacket list"
    and capacity :: "'q \<Rightarrow> nat" +
  fixes N :: nat and macs :: "nat \<Rightarrow> mac"
  assumes two_nodes: "2 \<le> N"
    and max_nodes: "N \<le> unat kMaxChainNodes"
    and macs_inj: "inj_on macs {..<N}"
begin

abbreviation ok :: "nat \<Rightarrow> 'q node \<Rightarrow> bool" where
  "ok \<equiv> node_ok valid contents capacity N macs"

lemma small_N: "N \<le> 64"
  using max_nodes by (simp add: config_defs)

lemma nxt_less: "nxt N i < N"
  using two_nodes by (simp add: nxt_def)

lemma prv_less: "prv N i < N"
  using two_nodes by (simp add: prv_def)

lemma prv_nxt: "i < N \<Longrightarrow> prv N (nxt N i) = i"
  using two_nodes by (cases "Suc i = N") (auto simp: prv_def nxt_def)

lemma nxt_prv: "i < N \<Longrightarrow> nxt N (prv N i) = i"
  using two_nodes by (cases i) (auto simp: prv_def nxt_def)

lemma nxt_neq: "i < N \<Longrightarrow> nxt N i \<noteq> i"
  using two_nodes by (cases "Suc i = N") (auto simp: nxt_def)

lemma prv_neq: "i < N \<Longrightarrow> prv N i \<noteq> i"
  using prv_nxt nxt_prv nxt_neq prv_less by metis

lemma id_eq: "i < N \<Longrightarrow> j < N \<Longrightarrow> (of_nat i :: u8) = of_nat j \<longleftrightarrow> i = j"
  using small_N by (intro of_nat_u8_eq) auto

lemma macs_eq: "i < N \<Longrightarrow> j < N \<Longrightarrow> macs i = macs j \<longleftrightarrow> i = j"
  using macs_inj by (auto simp: inj_on_def)

lemma relay_origin:
  assumes "pkt_ok j p" and "j < i" and "i < N"
  shows "origin_node_id p \<noteq> of_nat i"
  using assms small_N unat_of_nat_u8 [of i] by (auto simp: pkt_ok_def)

lemma prv_pred: "i < N \<Longrightarrow> i \<noteq> 0 \<Longrightarrow> prv N i = i - 1"
  using two_nodes by (cases i) (simp_all add: prv_def)

subsection \<open>Boot\<close>

lemma chain_init_ok:
  assumes "i < N"
  shows "ok i (chain_init Q now (of_nat i) (of_nat N) node0) \<and>
    airs N macs i (calls (chain_init Q now (of_nat i) (of_nat N) node0)) [] []"
proof -
  have ids: "unat (of_nat i :: u8) = i" "unat (of_nat N :: u8) = N" "(of_nat i :: u8) = 0 \<longleftrightarrow> i = 0"
    using assms small_N id_eq [of i 0] two_nodes by (simp_all add: unat_of_nat_u8)
  have "airs N macs i ([EspSetRecvHandler] @ [EspBroadcast (enc_hello
      (HelloPacket0\<lparr>hello_node_id := of_nat i, hello_chain_size := of_nat N\<rparr>))]) ([] @ []) ([] @ [])"
    by (intro airs_append airs_silent airs_hello) (simp_all add: HelloPacket0_def)
  moreover have "queue_inv valid contents capacity q \<and> contents q = [] \<and> capacity q = kStatusQueueDepth"
    if "q_create Q kStatusQueueDepth = Some q" for q
    using create_inv [OF that] .
  ultimately show ?thesis
    using ids by (auto simp: chain_init_def broadcastHello_def emit_def node0_def node_ok_defs nxt_def
        prv_def relayed_def trace kGatewayNodeId_def Let_def split: option.splits)
qed

end

end
