(* ===== verification/ChainSteps.thy ===== *)
theory ChainSteps
  imports ChainInv
begin

text \<open>
  Every step of a node, stage by stage, keeps the node invariant, and its effect on the two
  links of the node is one of a few kinds: nothing (\<open>inert\<close>), a packet begun or resent
  (\<open>sends\<close>), a packet acknowledged by \<open>next\<close>, a packet accepted or re-acknowledged.
\<close>

context chain
begin

definition logs :: "nat \<Rightarrow> 'q node \<Rightarrow> 'q node \<Rightarrow> StatusPacket list \<Rightarrow> (u8 \<times> u16) list \<Rightarrow> bool" where
  "logs i s s' ps ks \<longleftrightarrow> (\<exists>cs. calls s' = calls s @ cs \<and> airs N macs i cs ps ks)"

definition inert :: "nat \<Rightarrow> 'q node \<Rightarrow> 'q node \<Rightarrow> bool" where
  "inert i s s' \<longleftrightarrow> logs i s s' [] [] \<and> ok i s' \<and> quiet s s' \<and> deaf s s'"

definition sends :: "nat \<Rightarrow> 'q node \<Rightarrow> StatusPacket list \<Rightarrow> 'q node \<Rightarrow> bool" where
  "sends i s ps s' \<longleftrightarrow> ok i s' \<and> deaf s s' \<and> i \<noteq> 0 \<and> logs i s s' ps [] \<and>
     ((g_state s \<noteq> kForwarding \<and> g_state s' = kForwarding \<and> sent s' = sent s @ ps \<and> length ps = 1) \<or>
      (g_state s = kForwarding \<and> quiet s s' \<and> ps = [last (sent s)]))"

definition accepts :: "nat \<Rightarrow> 'q node \<Rightarrow> StatusPacket \<Rightarrow> 'q node \<Rightarrow> bool" where
  "accepts i s p s' \<longleftrightarrow> ok i s' \<and> quiet s s' \<and> logs i s s' [] [key p] \<and>
     \<not> (g_hasAcceptedAny s \<and> key p = (g_lastAcceptedOrigin s, g_lastAcceptedSeq s)) \<and>
     accepted s' = accepted s @ [reading p] \<and> g_hasAcceptedAny s' \<and>
     (g_lastAcceptedOrigin s', g_lastAcceptedSeq s') = key p"

definition repeats :: "nat \<Rightarrow> 'q node \<Rightarrow> StatusPacket \<Rightarrow> 'q node \<Rightarrow> bool" where
  "repeats i s p s' \<longleftrightarrow> ok i s' \<and> quiet s s' \<and> deaf s s' \<and> logs i s s' [] [key p] \<and>
     g_hasAcceptedAny s \<and> key p = (g_lastAcceptedOrigin s, g_lastAcceptedSeq s)"

definition acked_by :: "nat \<Rightarrow> 'q node \<Rightarrow> u8 \<times> u16 \<Rightarrow> 'q node \<Rightarrow> bool" where
  "acked_by i s k s' \<longleftrightarrow> ok i s' \<and> deaf s s' \<and> logs i s s' [] [] \<and> g_state s = kForwarding \<and>
     g_state s' \<noteq> kForwarding \<and> sent s' = sent s \<and> k = key (last (sent s))"

lemma logs_refl [simp]: "logs i s s [] []"
  unfolding logs_def by (rule exI [of _ "[]"]) simp

lemma logs_trans: "logs i s s' ps ks \<Longrightarrow> logs i s' s'' ps' ks' \<Longrightarrow> logs i s s'' (ps @ ps') (ks @ ks')"
  unfolding logs_def by (metis airs_append append.assoc)

lemma inert_refl: "ok i s \<Longrightarrow> inert i s s"
  by (simp add: inert_def)

lemma inert_trans: "inert i s s' \<Longrightarrow> inert i s' s'' \<Longrightarrow> inert i s s''"
  using logs_trans [of i s s' "[]" "[]" s'' "[]" "[]"]
  by (auto simp: inert_def intro: quiet_trans deaf_trans)

lemma inert_sends: "inert i s s' \<Longrightarrow> sends i s' ps s'' \<Longrightarrow> sends i s ps s''"
  using logs_trans [of i s s' "[]" "[]" s'' ps "[]"] deaf_trans [of s s' s''] quiet_trans [of s s' s'']
  by (auto simp: inert_def sends_def quiet_def)

subsection \<open>The clock-driven stages\<close>

lemma loop_hello_inert:
  assumes "ok i s"
  shows "inert i s (loop_hello now s)"
proof (cases "helloInterval s \<le> nowMs (now HelloDue) - g_lastHelloMs s")
  case False
  then show ?thesis using assms by (simp add: loop_hello_def inert_refl)
next
  case True
  let ?h = "HelloPacket0\<lparr>hello_node_id := g_nodeId s, hello_chain_size := g_chainSize s\<rparr>"
  have "airs N macs i [EspBroadcast (enc_hello ?h)] [] []"
    using assms by (intro airs_hello) (simp_all add: HelloPacket0_def node_ok_defs)
  then have "logs i s (broadcastHello now s) [] []"
    by (simp add: logs_def broadcastHello_def emit_def)
  moreover have "ok i (broadcastHello now s)"
    using assms by (auto simp: broadcastHello_def emit_def node_ok_defs relayed_def trace
        split: option.splits)
  moreover have "quiet s (broadcastHello now s) \<and> deaf s (broadcastHello now s)"
    by (simp add: broadcastHello_def emit_def quiet_def deaf_def accepted_def relayed_def trace)
  ultimately show ?thesis
    using True by (simp add: loop_hello_def inert_def)
qed

lemma wf_localPacket: "wf_status (localPacket now s)"
  by (simp add: wf_status_def localPacket_def readLocalStatus_def StatusPacket0_def config_defs)

lemma localPacket_sel [simp]:
  "origin_node_id (localPacket now s) = g_nodeId s"
  "stream_id (localPacket now s) = g_localStream s"
  "seq (localPacket now s) = g_localSeq s"
  "status_type (localPacket now s) = kPktStatus"
  by (simp_all add: localPacket_def StatusPacket0_def Let_def)

lemma pkt_ok_localPacket: "ok i s \<Longrightarrow> i < N \<Longrightarrow> i \<noteq> 0 \<Longrightarrow> pkt_ok i (localPacket now s)"
  using small_N by (simp add: pkt_ok_def wf_localPacket node_ok_def ids_ok_def unat_of_nat_u8)

text \<open>Timers, counters and lane data are no part of the invariant.\<close>

definition same_core :: "'q node \<Rightarrow> 'q node \<Rightarrow> bool" where
  "same_core s s' \<longleftrightarrow> g_nodeId s' = g_nodeId s \<and> g_chainSize s' = g_chainSize s \<and>
     g_isGateway s' = g_isGateway s \<and> g_nextId s' = g_nextId s \<and> g_prevId s' = g_prevId s \<and>
     g_nextMac s' = g_nextMac s \<and> g_prevMac s' = g_prevMac s \<and> g_nextKnown s' = g_nextKnown s \<and>
     g_prevKnown s' = g_prevKnown s \<and> g_state s' = g_state s \<and>
     g_hasAcceptedAny s' = g_hasAcceptedAny s \<and> g_lastAcceptedOrigin s' = g_lastAcceptedOrigin s \<and>
     g_lastAcceptedSeq s' = g_lastAcceptedSeq s \<and> g_outQueue s' = g_outQueue s \<and>
     g_pending s' = g_pending s \<and> calls s' = calls s"

lemma same_core_inert:
  assumes "same_core s s'" and "ok i s"
  shows "inert i s s'"
proof -
  have "enqueued s' = enqueued s" "sent s' = sent s" "flushed s' = flushed s" "relayed s' = relayed s"
    using assms(1) by (simp_all add: same_core_def relayed_def trace)
  then have "quiet s s'" "deaf s s'" "ok i s' = ok i s"
    using assms(1)
    by (simp_all add: same_core_def quiet_def deaf_def accepted_def node_ok_defs split: option.split)
  moreover have "logs i s s' [] []"
    using assms(1) by (auto simp: logs_def same_core_def intro: exI [of _ "[]"])
  ultimately show ?thesis
    using assms(2) by (simp add: inert_def)
qed

text \<open>A call that is not a queue transfer changes nothing of the invariant.\<close>

lemma emit_parts:
  assumes "enq_of [c] = []" and "sent_of [c] = []"
  shows "enqueued (emit c s) = enqueued s" and "sent (emit c s) = sent s"
    and "flushed (emit c s) = flushed s @ flushed_of [c]" and "relayed (emit c s) = relayed s"
    and "ok i (emit c s) = ok i s" and "quiet s (emit c s)"
    and "airs N macs i [c] ps ks \<Longrightarrow> logs i s (emit c s) ps ks"
proof -
  show enq: "enqueued (emit c s) = enqueued s" and snt: "sent (emit c s) = sent s"
    and "flushed (emit c s) = flushed s @ flushed_of [c]"
    using assms by (simp_all add: emit_def trace)
  then show "relayed (emit c s) = relayed s" and "quiet s (emit c s)"
    by (simp_all add: relayed_def quiet_def emit_def)
  with enq snt show "ok i (emit c s) = ok i s"
    unfolding node_ok_defs by (simp add: emit_def split: option.split)
  show "airs N macs i [c] ps ks \<Longrightarrow> logs i s (emit c s) ps ks"
    by (auto simp: logs_def emit_def)
qed

lemma emit_inert:
  assumes "ok i s" and "enq_of [c] = []" and "sent_of [c] = []" and "flushed_of [c] = []"
    and "airs N macs i [c] [] []"
  shows "inert i s (emit c s)"
  using assms emit_parts [of c, OF assms(2,3)] unfolding inert_def
  by (simp add: deaf_def accepted_def) (simp add: emit_def)

lemma outQueueSend_ok:
  assumes "ok i s" and "i \<noteq> 0" and "pkt_ok i p" and "outQueueSend Q p s = (b, s')"
  shows "logs i s s' [] [] \<and> quiet s s' \<and>
    enqueued s' = enqueued s @ (if b then [p] else []) \<and>
    ids_ok N i s' \<and> peers_ok N macs i s' \<and> queue_ok valid contents capacity i s' \<and> traffic_ok i s' \<and>
    g_hasAcceptedAny s' = g_hasAcceptedAny s \<and> g_lastAcceptedOrigin s' = g_lastAcceptedOrigin s \<and>
    g_lastAcceptedSeq s' = g_lastAcceptedSeq s \<and> flushed s' = flushed s"
proof (cases "g_outQueue s")
  case None
  then have s': "\<not> b" "s' = emit QueueNull s"
    using assms(4) by (simp_all add: outQueueSend_def)
  then show ?thesis
    using assms(1) emit_inert [of i s QueueNull] emit_parts [where c = QueueNull and s = s]
    by (simp add: inert_def node_ok_def) (simp add: emit_def)
next
  case (Some q)
  with assms have q: "qinv q" "capacity q = kStatusQueueDepth" "enqueued s = sent s @ contents q"
    by (auto simp: node_ok_defs)
  show ?thesis
  proof (cases "q_send Q q p")
    case None
    then have s': "\<not> b" "s' = emit (QueueSend p False) s"
      using assms(4) Some by (simp_all add: outQueueSend_def)
    then show ?thesis
      using assms(1) emit_inert [of i s "QueueSend p False"] emit_parts [where c = "QueueSend p False" and s = s]
      by (simp add: inert_def node_ok_def) (simp add: emit_def)
  next
    case (Some q')
    then have q': "qinv q'" "contents q' = contents q @ [p]" "capacity q' = kStatusQueueDepth"
      using send_SomeD [OF _ Some] q by (auto simp: queue_inv_def)
    have b: "b" and s': "s' = emit (QueueSend p True) (s\<lparr>g_outQueue := Some q'\<rparr>)"
      using assms(4) Some \<open>g_outQueue s = Some q\<close> by (simp_all add: outQueueSend_def)
    have hist: "enqueued s' = enqueued s @ [p]" "sent s' = sent s" "flushed s' = flushed s"
      by (simp_all add: s' emit_def trace)
    have "queue_ok valid contents capacity i s'"
      using q q' hist assms(2) by (simp add: queue_ok_def s' emit_def)
    moreover have "traffic_ok i s'"
      using assms(1,3) hist by (auto simp: node_ok_def traffic_ok_def s' emit_def)
    moreover have "ids_ok N i s'" "peers_ok N macs i s'"
      using assms(1) by (simp_all add: node_ok_def ids_ok_def peers_ok_def s' emit_def)
    moreover have "logs i s s' [] []"
      by (simp add: logs_def s' emit_def)
    ultimately show ?thesis
      using hist b by (simp add: quiet_def s' emit_def)
  qed
qed

lemma loop_local_inert:
  assumes "ok i s" and "i < N"
  shows "inert i s (loop_local Q now s)"
proof (cases "kStatusLocalIntervalMs \<le> nowMs (now LocalDue) - g_lastLocalMs s")
  case False
  then show ?thesis using assms by (simp add: loop_local_def inert_refl)
next
  case True
  define s0 where "s0 = s\<lparr>g_lastLocalMs := nowMs (now LocalSent)\<rparr>"
  define p where "p = localPacket now s0"
  define s1 where "s1 = s0\<lparr>g_localSeq := g_localSeq s0 + 1,
    g_localStream := of_nat ((unat (g_localStream s0) + 1) mod unat kVideoStreamsPerNode),
    g_statLocal := g_statLocal s0 + 1\<rparr>"
  have s01: "inert i s s1"
    using assms(1) by (intro same_core_inert) (simp_all add: same_core_def s1_def s0_def)
  then have ok1: "ok i s1" by (simp add: inert_def)
  have ok0: "ok i s0"
    using same_core_inert [of s s0 i] assms(1) by (simp add: same_core_def s0_def inert_def)
  have eq: "loop_local Q now s =
    (if g_isGateway s1 then
       emit (UplinkFlush (origin_node_id p) (stream_id p) (occupied p) (plate p))
         (s1\<lparr>g_statSunk := g_statSunk s1 + 1\<rparr>)
     else (case outQueueSend Q p s1 of
             (False, s2) \<Rightarrow> s2\<lparr>g_statQueueDrops := g_statQueueDrops s2 + 1\<rparr>
           | (True, s2) \<Rightarrow> s2))"
    using True by (simp only: loop_local_def Let_def s1_def p_def s0_def if_True)
  have origin: "origin_node_id p = g_nodeId s1"
    by (simp add: p_def s1_def s0_def)
  show ?thesis
  proof (cases "i = 0")
    case True
    let ?s2 = "emit (UplinkFlush (origin_node_id p) (stream_id p) (occupied p) (plate p))
      (s1\<lparr>g_statSunk := g_statSunk s1 + 1\<rparr>)"
    have "inert i s1 ?s2"
      using ok1 True origin
      by (auto simp: emit_def inert_def logs_def quiet_def deaf_def node_ok_defs relayed_def
          accepted_def trace)
    with s01 have "inert i s ?s2" by (rule inert_trans)
    moreover have "g_isGateway s1" using ok1 True by (simp add: node_ok_defs)
    ultimately show ?thesis by (simp add: eq)
  next
    case False
    obtain b s2 where send: "outQueueSend Q p s1 = (b, s2)" by fastforce
    have "pkt_ok i p"
      unfolding p_def using ok0 assms(2) False by (rule pkt_ok_localPacket)
    note eff = outQueueSend_ok [OF ok1 False this send]
    then have "relayed s2 = relayed s1"
      using origin ok1 by (auto simp: relayed_def node_ok_defs)
    with eff ok1 have "inert i s1 s2"
      by (auto simp: inert_def deaf_def accepted_def node_ok_def dedup_ok_def ids_ok_def)
    with s01 have in2: "inert i s s2" by (rule inert_trans)
    then have "inert i s2 (s2\<lparr>g_statQueueDrops := g_statQueueDrops s2 + 1\<rparr>)"
      by (intro same_core_inert) (simp_all add: same_core_def inert_def)
    moreover have "\<not> g_isGateway s1" using ok1 False by (simp add: node_ok_defs)
    ultimately show ?thesis
      using in2 send inert_trans [OF in2] by (cases b) (simp_all add: eq)
  qed
qed

subsection \<open>Transmission\<close>

lemma emit_status:
  assumes "ok i s" and "i \<noteq> 0" and "g_nextKnown s" and "pkt_ok i p"
  shows "ok i (sendStatus p s) \<and> quiet s (sendStatus p s) \<and> deaf s (sendStatus p s) \<and>
    logs i s (sendStatus p s) [p] []"
proof -
  let ?c = "EspSend (g_nextMac s) (enc_status p)"
  have "airs N macs i [?c] [p] []"
    using assms two_nodes airs_status [OF macs_inj _ assms(4,2)] by (simp add: node_ok_defs)
  then show ?thesis
    using assms(1) emit_parts [where c = ?c and s = s]
    by (simp add: sendStatus_def deaf_def accepted_def) (simp add: emit_def)
qed

lemma retransmit_sends:
  assumes ok: "ok i s" and fwd: "g_state s = kForwarding"
  shows "sends i s [last (sent s)] (retransmit now s)"
proof -
  define s1 where "s1 = s\<lparr>g_retryCount := g_retryCount s + 1, g_statRetx := g_statRetx s + 1\<rparr>"
  define s2 where "s2 = (if kMaxRetransmit < g_retryCount s1 \<and>
                   5000 \<le> nowMs (now WarnDue) - g_lastRetryWarnMs s1
                then s1\<lparr>g_lastRetryWarnMs := nowMs (now WarnSent)\<rparr> else s1)"
  let ?s3 = "sendStatus (g_pending s2) s2"
  have core: "same_core s s2" by (simp add: s2_def s1_def same_core_def)
  then have i2: "inert i s s2" using ok by (rule same_core_inert)
  have "i \<noteq> 0" "g_nextKnown s2" "pkt_ok i (g_pending s2)" and pend: "g_pending s2 = last (sent s)"
    using ok fwd core by (auto simp: node_ok_defs same_core_def split: option.splits)
  then have e3: "ok i ?s3 \<and> quiet s2 ?s3 \<and> deaf s2 ?s3 \<and> logs i s2 ?s3 [last (sent s)] []"
    using i2 by (metis emit_status inert_def)
  have i4: "inert i ?s3 (?s3\<lparr>g_ackDeadlineMs := nowMs (now RetxDeadline) + kAckTimeoutMs\<rparr>)"
    using e3 by (intro same_core_inert) (simp_all add: same_core_def)
  have eq: "retransmit now s = ?s3\<lparr>g_ackDeadlineMs := nowMs (now RetxDeadline) + kAckTimeoutMs\<rparr>"
    by (simp only: retransmit_def Let_def s1_def s2_def)
  have "logs i s ?s3 ([] @ [last (sent s)]) ([] @ [])"
    using i2 e3 by (intro logs_trans) (auto simp: inert_def)
  with i4 have "logs i s (retransmit now s) ([last (sent s)] @ []) ([] @ [])"
    unfolding eq by (intro logs_trans) (auto simp: inert_def)
  then show ?thesis
    using i2 e3 i4 fwd \<open>i \<noteq> 0\<close> unfolding eq sends_def inert_def
    by (auto intro: quiet_trans deaf_trans)
qed

lemma beginForwarding_sends:
  assumes ok: "ok i s" and i: "i \<noteq> 0" and idle: "g_state s = kIdle" and q: "g_outQueue s = Some q"
    and rcv: "q_receive Q q = Some (p, q')"
  shows "sends i s [p] (beginForwarding now p (emit (QueueReceive p) (s\<lparr>g_outQueue := Some q'\<rparr>)))"
proof -
  define s1 where "s1 = (emit (QueueReceive p) (s\<lparr>g_outQueue := Some q'\<rparr>))
    \<lparr>g_pending := p, g_retryCount := 0, g_ackDeadlineMs := nowMs (now FwdDeadline) + kAckTimeoutMs,
     g_state := kForwarding\<rparr>"
  from ok q i have qi: "qinv q" "capacity q = kStatusQueueDepth" "enqueued s = sent s @ contents q"
    by (auto simp: node_ok_defs)
  then have q': "qinv q'" "capacity q' = kStatusQueueDepth" "contents q = p # contents q'"
    using receive_SomeD [OF qi(1) rcv] by auto
  have hist: "enqueued s1 = enqueued s" "sent s1 = sent s @ [p]" "flushed s1 = flushed s"
    by (simp_all add: s1_def emit_def trace)
  then have rel: "relayed s1 = relayed s"
    by (simp add: relayed_def s1_def emit_def)
  have "pkt_ok i p"
    using ok qi q' by (auto simp: node_ok_def traffic_ok_def)
  have known: "g_nextKnown s1" "g_prevKnown s1"
    using ok i idle by (auto simp: node_ok_defs s1_def emit_def)
  have "queue_ok valid contents capacity i s1"
    using hist qi q' i by (simp add: queue_ok_def s1_def emit_def)
  moreover have "traffic_ok i s1"
    using ok hist i by (simp add: node_ok_def traffic_ok_def) (simp add: s1_def)
  moreover have "dedup_ok i s1"
    using ok rel by (simp add: node_ok_def dedup_ok_def) (simp add: s1_def emit_def)
  moreover have "ids_ok N i s1" "peers_ok N macs i s1"
    using ok known by (simp_all add: node_ok_def ids_ok_def peers_ok_def s1_def emit_def)
  ultimately have ok1: "ok i s1" by (simp add: node_ok_def)
  have "deaf s s1"
    using hist rel by (simp add: deaf_def accepted_def) (simp add: s1_def emit_def)
  moreover have "logs i s s1 [] []"
    by (simp add: logs_def s1_def emit_def)
  moreover have e: "ok i (sendStatus p s1) \<and> quiet s1 (sendStatus p s1) \<and> deaf s1 (sendStatus p s1) \<and>
      logs i s1 (sendStatus p s1) [p] []"
    using ok1 i known(1) \<open>pkt_ok i p\<close> by (rule emit_status)
  moreover have "g_state s1 = kForwarding" by (simp add: s1_def)
  moreover have "beginForwarding now p (emit (QueueReceive p) (s\<lparr>g_outQueue := Some q'\<rparr>)) =
      sendStatus p s1"
    by (simp only: beginForwarding_def s1_def)
  ultimately show ?thesis
    using logs_trans [of i s s1 "[]" "[]" "sendStatus p s1" "[p]" "[]"] deaf_trans [of s s1] i idle hist
    by (auto simp: sends_def quiet_def)
qed

lemma loop_send_effect:
  assumes "ok i s" and "i \<noteq> 0" and "g_state s \<noteq> kDiscovering"
  shows "inert i s (loop_send Q now s) \<or> (\<exists>ps. sends i s ps (loop_send Q now s))"
proof (cases "g_state s = kForwarding")
  case True
  then show ?thesis
    using assms retransmit_sends [of i s now] by (auto simp: loop_send_def inert_refl)
next
  case False
  then have idle: "g_state s = kIdle" using assms(3) by (cases "g_state s") auto
  show ?thesis
  proof (cases "g_outQueue s")
    case None
    then show ?thesis
      using False assms(1) emit_inert [of i s QueueNull]
      by (simp add: loop_send_def outQueueReceive_def)
  next
    case (Some q)
    show ?thesis
    proof (cases "q_receive Q q")
      case None
      then show ?thesis
        using False Some assms(1) by (simp add: loop_send_def outQueueReceive_def inert_refl)
    next
      case rcv: (Some pq)
      then obtain p q' where "q_receive Q q = Some (p, q')" by (cases pq) auto
      from beginForwarding_sends [OF assms(1,2) idle Some this] this Some False
      show ?thesis by (auto simp: loop_send_def outQueueReceive_def)
    qed
  qed
qed

lemma loop_body_effect:
  assumes "ok i s" and "i < N"
  shows "inert i s (loop_body Q now s) \<or> (\<exists>ps. sends i s ps (loop_body Q now s))"
proof -
  let ?s1 = "loop_hello now s"
  have 1: "inert i s ?s1" using assms(1) by (rule loop_hello_inert)
  show ?thesis
  proof (cases "g_state ?s1 = kDiscovering")
    case True
    with 1 show ?thesis by (simp add: loop_body_def)
  next
    case False
    let ?s2 = "loop_local Q now ?s1"
    have 2: "inert i ?s1 ?s2" using 1 assms(2) by (intro loop_local_inert) (auto simp: inert_def)
    have 12: "inert i s ?s2" using 1 2 by (rule inert_trans)
    have st2: "g_state ?s2 = g_state ?s1"
      by (auto simp: loop_local_def outQueueSend_def emit_def Let_def split: option.splits)
    show ?thesis
    proof (cases "g_isGateway ?s2")
      case True
      with False 12 show ?thesis by (simp add: loop_body_def)
    next
      case ngw: False
      then have "i \<noteq> 0" using 12 by (auto simp: inert_def node_ok_defs)
      then have "inert i ?s2 (loop_send Q now ?s2) \<or> (\<exists>ps. sends i ?s2 ps (loop_send Q now ?s2))"
        using 12 st2 False by (intro loop_send_effect) (auto simp: inert_def)
      with 12 False ngw show ?thesis
        by (auto simp: loop_body_def dest: inert_trans inert_sends)
    qed
  qed
qed

lemma setLaneStatus_inert: "ok i s \<Longrightarrow> inert i s (setLaneStatus sid oc pl s)"
  by (intro same_core_inert) (simp_all add: setLaneStatus_def same_core_def)

end

end
