(* ===== verification/ChainRecv.thy ===== *)
theory ChainRecv
  imports ChainSteps
begin

text \<open>
  The receive handlers: discovery (\<open>handleHello\<close>), acceptance of data from upstream
  (\<open>handleStatus\<close>) and acknowledgements from downstream (\<open>handleAck\<close>), each with its effect
  on the invariant and on the two links of the node.
\<close>

context chain
begin

lemma learnNext_ok:
  assumes "ok i s" and "i < N" and "y < N" and "hello_node_id h = of_nat y"
  shows "inert i s (learnNext (macs y) h s)"
proof (cases "hello_node_id h = g_nextId s \<and> \<not> g_nextKnown s")
  case False
  then have "learnNext (macs y) h s = s" unfolding learnNext_def by (rule if_not_P)
  then show ?thesis using assms(1) by (simp add: inert_refl)
next
  case True
  then have y: "y = nxt N i"
    using assms id_eq [of y "nxt N i"] nxt_less by (simp add: node_ok_defs)
  let ?s' = "(emit (EspAddPeer (macs y)) (s\<lparr>g_nextMac := macs y\<rparr>))\<lparr>g_nextKnown := True\<rparr>"
  have hist: "enqueued ?s' = enqueued s" "sent ?s' = sent s" "flushed ?s' = flushed s"
      "relayed ?s' = relayed s"
    by (simp_all add: emit_def relayed_def trace)
  then have "ok i ?s'"
    using assms(1) y unfolding node_ok_defs by (auto simp: emit_def split: option.splits)
  moreover have "quiet s ?s'" "deaf s ?s'" "logs i s ?s' [] []"
    using hist by (simp_all add: quiet_def deaf_def accepted_def logs_def) (simp_all add: emit_def)
  ultimately show ?thesis
    using True by (simp add: learnNext_def inert_def)
qed

lemma learnPrev_ok:
  assumes "ok i s" and "i < N" and "y < N" and "hello_node_id h = of_nat y"
  shows "inert i s (learnPrev (macs y) h s)"
proof (cases "hello_node_id h = g_prevId s \<and> \<not> g_prevKnown s")
  case False
  then have "learnPrev (macs y) h s = s" unfolding learnPrev_def by (rule if_not_P)
  then show ?thesis using assms(1) by (simp add: inert_refl)
next
  case True
  then have y: "y = prv N i"
    using assms id_eq [of y "prv N i"] prv_less by (simp add: node_ok_defs)
  let ?s' = "(emit (EspAddPeer (macs y)) (s\<lparr>g_prevMac := macs y\<rparr>))\<lparr>g_prevKnown := True\<rparr>"
  have hist: "enqueued ?s' = enqueued s" "sent ?s' = sent s" "flushed ?s' = flushed s"
      "relayed ?s' = relayed s"
    by (simp_all add: emit_def relayed_def trace)
  then have "ok i ?s'"
    using assms(1) y unfolding node_ok_defs by (auto simp: emit_def split: option.splits)
  moreover have "quiet s ?s'" "deaf s ?s'" "logs i s ?s' [] []"
    using hist by (simp_all add: quiet_def deaf_def accepted_def logs_def) (simp_all add: emit_def)
  ultimately show ?thesis
    using True by (simp add: learnPrev_def inert_def)
qed

lemma idle_inert:
  assumes "ok i s" and "g_state s = kDiscovering" and "g_prevKnown s" and "g_isGateway s \<or> g_nextKnown s"
  shows "inert i s (s\<lparr>g_state := kIdle\<rparr>)"
proof -
  let ?s' = "s\<lparr>g_state := kIdle\<rparr>"
  have hist: "enqueued ?s' = enqueued s" "sent ?s' = sent s" "flushed ?s' = flushed s"
      "relayed ?s' = relayed s"
    by (simp_all add: relayed_def trace)
  then have "ok i ?s'"
    using assms unfolding node_ok_defs by (auto split: option.splits)
  moreover have "quiet s ?s'" "deaf s ?s'" "logs i s ?s' [] []"
    using hist assms(2) by (auto simp: quiet_def deaf_def accepted_def logs_def intro: exI [of _ "[]"])
  ultimately show ?thesis by (simp add: inert_def)
qed

lemma handleHello_inert:
  assumes "ok i s" and "i < N" and "y < N" and "hello_node_id h = of_nat y"
  shows "inert i s (handleHello (macs y) h s)"
proof -
  let ?s2 = "learnPrev (macs y) h (learnNext (macs y) h s)"
  have 1: "inert i s (learnNext (macs y) h s)" using assms by (rule learnNext_ok)
  then have "inert i (learnNext (macs y) h s) ?s2"
    using assms by (intro learnPrev_ok) (auto simp: inert_def)
  with 1 have 2: "inert i s ?s2" by (rule inert_trans)
  then have "inert i s (?s2\<lparr>g_state := kIdle\<rparr>)"
    if "g_state ?s2 = kDiscovering" "g_prevKnown ?s2" "g_isGateway ?s2 \<or> g_nextKnown ?s2"
    using that by (intro inert_trans [OF 2] idle_inert) (auto simp: inert_def)
  with 2 show ?thesis
    using assms(1) by (simp add: handleHello_def Let_def inert_refl)
qed

subsection \<open>Acknowledging\<close>

lemma sendAck_effect:
  assumes "ok i s" and "g_prevKnown s"
  shows "ok i (sendAck (g_prevMac s) oid sq s) \<and> quiet s (sendAck (g_prevMac s) oid sq s) \<and>
    deaf s (sendAck (g_prevMac s) oid sq s) \<and> logs i s (sendAck (g_prevMac s) oid sq s) [] [(oid, sq)]"
proof -
  let ?a = "AckPacket0\<lparr>ack_origin_node_id := oid, ack_seq := sq\<rparr>"
  let ?c = "EspSend (g_prevMac s) (enc_ack ?a)"
  have "airs N macs i [EspSend (macs (prv N i)) (enc_ack ?a)] [] [(ack_origin_node_id ?a, ack_seq ?a)]"
    using two_nodes by (intro airs_ack macs_inj) (simp_all add: AckPacket0_def)
  then have "airs N macs i [?c] [] [(oid, sq)]"
    using assms by (simp add: node_ok_defs)
  then show ?thesis
    using assms(1) emit_parts [where c = ?c and s = s]
    by (simp add: sendAck_def deaf_def accepted_def) (simp add: emit_def)
qed

lemma repeat_effect:
  assumes "ok i s" and "g_prevKnown s" and "isDuplicate p s"
  shows "repeats i s p (sendAck (g_prevMac s) (origin_node_id p) (seq p) s)"
  using assms sendAck_effect [of i s "origin_node_id p" "seq p"]
  by (auto simp: repeats_def isDuplicate_def key_def)

text \<open>The Gateway takes every new packet: acknowledge, then flush.\<close>

lemma gateway_accept:
  assumes ok: "ok 0 s" and known: "g_prevKnown s" and new: "\<not> isDuplicate p s"
    and origin: "origin_node_id p \<noteq> 0"
  shows "accepts 0 s p
    (let s1 = sendAck (g_prevMac s) (origin_node_id p) (seq p) (noteAccepted p s);
         s2 = s1\<lparr>g_statIn := g_statIn s1 + 1, g_statSunk := g_statSunk s1 + 1\<rparr>
     in emit (UplinkFlush (origin_node_id p) (stream_id p) (occupied p) (plate p)) s2)"
proof -
  define s0 where "s0 = noteAccepted p s"
  define s1 where "s1 = sendAck (g_prevMac s) (origin_node_id p) (seq p) s0"
  define s2 where "s2 = s1\<lparr>g_statIn := g_statIn s1 + 1, g_statSunk := g_statSunk s1 + 1\<rparr>"
  let ?s3 = "emit (UplinkFlush (origin_node_id p) (stream_id p) (occupied p) (plate p)) s2"
  have hist: "enqueued s0 = enqueued s" "sent s0 = sent s" "flushed s0 = flushed s" "relayed s0 = relayed s"
    by (simp_all add: s0_def noteAccepted_def relayed_def trace)
  then have ok0: "ok 0 s0"
    using ok unfolding node_ok_defs by (simp add: s0_def noteAccepted_def)
  have known0: "g_prevKnown s0" using known by (simp add: s0_def noteAccepted_def)
  have "g_prevMac s0 = g_prevMac s" by (simp add: s0_def noteAccepted_def)
  then have e1: "ok 0 s1 \<and> quiet s0 s1 \<and> deaf s0 s1 \<and> logs 0 s0 s1 [] [key p]"
    using sendAck_effect [OF ok0 known0, of "origin_node_id p" "seq p"] by (simp add: s1_def key_def)
  then have e2: "inert 0 s1 s2"
    by (intro same_core_inert) (simp_all add: same_core_def s2_def)
  note e3 = emit_parts [where c = "UplinkFlush (origin_node_id p) (stream_id p) (occupied p) (plate p)"
      and s = s2]
  have ok3: "ok 0 ?s3" using e2 e3 by (simp add: inert_def)
  have "logs 0 s s0 [] []" by (auto simp: logs_def s0_def noteAccepted_def intro: exI [of _ "[]"])
  then have "logs 0 s s1 ([] @ []) ([] @ [key p])" using e1 by (intro logs_trans) auto
  then have "logs 0 s s2 ([] @ []) ([key p] @ [])" using e2 by (intro logs_trans) (auto simp: inert_def)
  then have "logs 0 s ?s3 ([] @ []) ([key p] @ [])" using e3 by (intro logs_trans) auto
  moreover have "quiet s s0" by (simp add: quiet_def hist(2)) (simp add: s0_def noteAccepted_def)
  then have "quiet s ?s3" using e1 e2 e3 by (auto simp: inert_def intro: quiet_trans)
  moreover have "accepted s0 = accepted s"
    using hist by (simp add: accepted_def) (simp add: s0_def noteAccepted_def)
  then have "accepted s2 = accepted s" using e1 e2 by (auto simp: inert_def deaf_def)
  then have "accepted ?s3 = accepted s @ [reading p]"
    using e2 e3 origin by (simp add: accepted_def inert_def node_ok_defs) (simp add: emit_def reading_def)
  moreover have "g_hasAcceptedAny ?s3 \<and> (g_lastAcceptedOrigin ?s3, g_lastAcceptedSeq ?s3) = key p"
    using e1 e2 by (simp add: inert_def deaf_def) (simp add: emit_def s0_def noteAccepted_def key_def)
  moreover have "\<not> (g_hasAcceptedAny s \<and> key p = (g_lastAcceptedOrigin s, g_lastAcceptedSeq s))"
    using new by (simp add: isDuplicate_def key_def)
  ultimately have "accepts 0 s p ?s3"
    using ok3 by (simp add: accepts_def)
  then show ?thesis
    by (simp only: Let_def s0_def s1_def s2_def)
qed

text \<open>A relay takes a new packet when its queue has room; otherwise it says nothing.\<close>

lemma relay_accept:
  assumes ok: "ok i s" and i: "i \<noteq> 0" and known: "g_prevKnown s" and new: "\<not> isDuplicate p s"
    and pkt: "pkt_ok i p" and origin: "origin_node_id p \<noteq> of_nat i"
    and send: "outQueueSend Q p s = (True, s1)"
  shows "accepts i s p
    (sendAck (g_prevMac s1) (origin_node_id p) (seq p) (noteAccepted p (s1\<lparr>g_statIn := g_statIn s1 + 1\<rparr>)))"
proof -
  note e1 = outQueueSend_ok [OF ok i pkt send]
  define s2 where "s2 = noteAccepted p (s1\<lparr>g_statIn := g_statIn s1 + 1\<rparr>)"
  let ?s3 = "sendAck (g_prevMac s1) (origin_node_id p) (seq p) s2"
  have hist: "enqueued s2 = enqueued s @ [p]" "sent s2 = sent s1" "flushed s2 = flushed s"
    using e1 by (simp_all add: s2_def noteAccepted_def trace)
  have sel: "g_outQueue s2 = g_outQueue s1" "g_state s2 = g_state s1" "g_pending s2 = g_pending s1"
    by (simp_all add: s2_def noteAccepted_def)
  have id: "g_nodeId s2 = of_nat i" "g_nodeId s = of_nat i" "\<not> g_isGateway s" "\<not> g_isGateway s2"
    using ok e1 i by (auto simp: node_ok_def ids_ok_def s2_def noteAccepted_def)
  then have rel: "relayed s2 = relayed s @ [p]"
    using hist origin by (simp add: relayed_def)
  have "dedup_ok i s2"
    using ok new rel
    by (auto simp: node_ok_def dedup_ok_def s2_def noteAccepted_def isDuplicate_def key_def
        distinct_adj_snoc last_map)
  moreover have "queue_ok valid contents capacity i s2" "traffic_ok i s2"
    using e1 hist sel i by (auto simp: queue_ok_def traffic_ok_def split: option.splits)
  moreover have "ids_ok N i s2" "peers_ok N macs i s2"
    using e1 by (simp_all add: ids_ok_def peers_ok_def s2_def noteAccepted_def)
  ultimately have ok2: "ok i s2" by (simp add: node_ok_def)
  have mac: "g_prevMac s1 = g_prevMac s2" by (simp add: s2_def noteAccepted_def)
  have "g_prevKnown s2"
    using known send
    by (auto simp: s2_def noteAccepted_def outQueueSend_def emit_def split: option.splits)
  with ok2 have e3: "ok i ?s3 \<and> quiet s2 ?s3 \<and> deaf s2 ?s3 \<and> logs i s2 ?s3 [] [key p]"
    unfolding key_def mac by (rule sendAck_effect)
  have "logs i s1 s2 [] []" by (auto simp: logs_def s2_def noteAccepted_def intro: exI [of _ "[]"])
  then have "logs i s s2 ([] @ []) ([] @ [])" using e1 by (intro logs_trans) auto
  then have "logs i s ?s3 ([] @ []) ([] @ [key p])" using e3 by (intro logs_trans) auto
  moreover have "quiet s1 s2" by (simp add: quiet_def hist(2)) (simp add: s2_def noteAccepted_def)
  then have "quiet s ?s3" using e1 e3 by (auto intro: quiet_trans)
  moreover have "accepted ?s3 = accepted s @ [reading p]"
    using e3 rel id by (simp add: deaf_def accepted_def)
  moreover have "g_hasAcceptedAny ?s3 \<and> (g_lastAcceptedOrigin ?s3, g_lastAcceptedSeq ?s3) = key p"
    using e3 by (simp add: deaf_def) (simp add: s2_def noteAccepted_def key_def)
  moreover have "\<not> (g_hasAcceptedAny s \<and> key p = (g_lastAcceptedOrigin s, g_lastAcceptedSeq s))"
    using new by (simp add: isDuplicate_def key_def)
  ultimately show ?thesis
    using e3 unfolding accepts_def s2_def by simp
qed

lemma relay_refuse:
  assumes ok: "ok i s" and i: "i \<noteq> 0" and pkt: "pkt_ok i p" and origin: "origin_node_id p \<noteq> of_nat i"
    and send: "outQueueSend Q p s = (False, s1)"
  shows "inert i s (s1\<lparr>g_statQueueDrops := g_statQueueDrops s1 + 1\<rparr>)"
proof -
  note e1 = outQueueSend_ok [OF ok i pkt send]
  have "relayed s1 = relayed s"
    using e1 ok by (simp add: relayed_def node_ok_def ids_ok_def)
  with e1 ok have "inert i s s1"
    by (auto simp: inert_def deaf_def accepted_def node_ok_def dedup_ok_def ids_ok_def)
  moreover from this have "inert i s1 (s1\<lparr>g_statQueueDrops := g_statQueueDrops s1 + 1\<rparr>)"
    by (intro same_core_inert) (simp_all add: same_core_def inert_def)
  ultimately show ?thesis by (rule inert_trans)
qed

lemma handleStatus_effect:
  assumes ok: "ok i s" and "i < N" and "y < N" and y: "y \<noteq> 0" and i: "i = nxt N y" and p: "pkt_ok y p"
  shows "inert i s (handleStatus Q (macs y) p s) \<or> accepts i s p (handleStatus Q (macs y) p s) \<or>
    repeats i s p (handleStatus Q (macs y) p s)"
proof (cases "\<not> g_prevKnown s \<or> macs y \<noteq> g_prevMac s")
  case True
  then show ?thesis using ok by (simp add: handleStatus_def inert_refl)
next
  case False
  then have known: "g_prevKnown s" and mac: "macs y = g_prevMac s" by auto
  have o0: "origin_node_id p \<noteq> 0"
    using p by (auto simp: pkt_ok_def)
  show ?thesis
  proof (cases "isDuplicate p s")
    case True
    with ok known mac show ?thesis
      by (simp add: handleStatus_def repeat_effect)
  next
    case new: False
    show ?thesis
    proof (cases "i = 0")
      case True
      then have "g_isGateway s" using ok by (simp add: node_ok_defs)
      with True known mac new ok o0 gateway_accept [of s p] show ?thesis
        by (simp add: handleStatus_def)
    next
      case False
      then have "y < i" and ngw: "\<not> g_isGateway s"
        using i \<open>y < N\<close> two_nodes ok by (cases "Suc y = N", auto simp: nxt_def node_ok_defs)
      then have "pkt_ok i p" "origin_node_id p \<noteq> of_nat i"
        using p relay_origin [of y p i] \<open>i < N\<close> by (auto simp: pkt_ok_def)
      then show ?thesis
        using relay_accept [OF ok False known new] relay_refuse [OF ok False] known mac new ngw
        by (auto simp: handleStatus_def split: prod.split bool.split)
    qed
  qed
qed

lemma handleAck_effect:
  assumes ok: "ok i s"
  shows "inert i s (handleAck (macs y) a s) \<or>
    acked_by i s (ack_origin_node_id a, ack_seq a) (handleAck (macs y) a s)"
proof (cases "g_state s \<noteq> kForwarding \<or> \<not> g_nextKnown s \<or> macs y \<noteq> g_nextMac s \<or>
    ack_origin_node_id a \<noteq> origin_node_id (g_pending s) \<or> ack_seq a \<noteq> seq (g_pending s)")
  case True
  then have "handleAck (macs y) a s = s" by (auto simp: handleAck_def)
  then show ?thesis using ok by (simp add: inert_refl)
next
  case False
  let ?s' = "s\<lparr>g_state := kIdle, g_retryCount := 0, g_statForwarded := g_statForwarded s + 1\<rparr>"
  have hist: "enqueued ?s' = enqueued s" "sent ?s' = sent s" "flushed ?s' = flushed s"
      "relayed ?s' = relayed s"
    by (simp_all add: relayed_def trace)
  then have "ok i ?s'"
    using ok False unfolding node_ok_defs by (auto split: option.splits)
  moreover have "deaf s ?s'" "logs i s ?s' [] []"
    using hist by (auto simp: deaf_def accepted_def logs_def intro: exI [of _ "[]"])
  moreover have "key (last (sent s)) = (ack_origin_node_id a, ack_seq a)"
    using ok False by (simp add: node_ok_def traffic_ok_def key_def)
  ultimately have "acked_by i s (ack_origin_node_id a, ack_seq a) ?s'"
    using False hist by (simp add: acked_by_def)
  then show ?thesis
    using False by (simp add: handleAck_def)
qed

text \<open>A received frame, whatever it is.\<close>

lemma onEspNowRecv_effect:
  assumes ok: "ok i s" and "i < N" and "y < N" and f: "frame_ok N y i f"
  shows "inert i s (onEspNowRecv Q (macs y) f s) \<or>
    (is_status f \<and> y \<noteq> 0 \<and> i = nxt N y \<and>
      (accepts i s (dec_status f) (onEspNowRecv Q (macs y) f s) \<or>
       repeats i s (dec_status f) (onEspNowRecv Q (macs y) f s))) \<or>
    (is_ack f \<and> i = prv N y \<and> acked_by i s (ack_key f) (onEspNowRecv Q (macs y) f s))"
proof -
  from f consider
      (hello) h where "f = enc_hello h" "hello_type h = kPktHello" "hello_node_id h = of_nat y"
    | (status) p where "f = enc_status p" "pkt_ok y p" "y \<noteq> 0" "i = nxt N y"
    | (ack) a where "f = enc_ack a" "ack_type a = kPktAck" "i = prv N y"
    unfolding frame_ok_def by blast
  then show ?thesis
  proof cases
    case hello
    then show ?thesis
      using handleHello_inert [OF assms(1-3) hello(3)]
      by (simp add: onEspNowRecv_def enc_first sizeof_Hello_def Suc_le_eq)
  next
    case status
    then have "wf_status p" "status_type p = kPktStatus" by (simp_all add: pkt_ok_def)
    with status show ?thesis
      using handleStatus_effect [OF assms(1-3) status(3,4,2)]
      by (auto simp: onEspNowRecv_def enc_first sizeof_Status_def Suc_le_eq pkt_type_defs)
  next
    case ack
    then show ?thesis
      using handleAck_effect [OF ok, of y a]
      by (auto simp: onEspNowRecv_def enc_first sizeof_Ack_def Suc_le_eq pkt_type_defs)
  qed
qed

end

end
