(* ===== verification/ChainNet.thy ===== *)
theory ChainNet
  imports ChainRecv
begin

text \<open>
  The whole chain: \<open>N\<close> nodes running the model of chain_node.cpp and, for every ordered
  pair of stations, the frames in flight between them. A channel is FIFO and may lose or
  duplicate any frame (radio loss, a full receive queue). Each step is one loop body of a
  node, the handling of one received frame, a fresh lane reading, or a fault of a channel,
  in any interleaving. The refinement of every hop to the abstract link of StopAndWait is
  the invariant of the reachable networks.
\<close>

record 'q net =
  nodes :: "nat \<Rightarrow> 'q node"
  air :: "nat \<Rightarrow> nat \<Rightarrow> bytes list"      \<comment> \<open>\<open>air i j\<close>: frames from station \<open>i\<close> to station \<open>j\<close>\<close>

section \<open>Steps\<close>

definition update_node :: "(nat \<Rightarrow> mac) \<Rightarrow> nat \<Rightarrow> 'q node \<Rightarrow> 'q net \<Rightarrow> 'q net" where
  "update_node macs x s n =
     (let cs = new_calls (nodes n x) s
      in n\<lparr>nodes := (nodes n)(x := s),
           air := (\<lambda>i j. if i = x \<and> j \<noteq> x then air n i j @ frames_to (macs j) cs else air n i j)\<rparr>)"

definition set_air :: "nat \<Rightarrow> nat \<Rightarrow> bytes list \<Rightarrow> 'q net \<Rightarrow> 'q net" where
  "set_air y x fs n = n\<lparr>air := (\<lambda>i j. if i = y \<and> j = x then fs else air n i j)\<rparr>"

inductive net_step ::
  "(StatusPacket, 'q) queue_ops \<Rightarrow> nat \<Rightarrow> (nat \<Rightarrow> mac) \<Rightarrow> 'q net \<Rightarrow> 'q net \<Rightarrow> bool"
  for Q N macs where
  tick: "x < N \<Longrightarrow> net_step Q N macs n (update_node macs x (loop_body Q now (nodes n x)) n)"
| lane: "x < N \<Longrightarrow> net_step Q N macs n (update_node macs x (setLaneStatus sid oc pl (nodes n x)) n)"
| deliver: "y < N \<Longrightarrow> x < N \<Longrightarrow> y \<noteq> x \<Longrightarrow> air n y x = f # fs \<Longrightarrow>
    net_step Q N macs n
      (update_node macs x (onEspNowRecv Q (macs y) f (nodes n x)) (set_air y x fs n))"
| lose: "y < N \<Longrightarrow> x < N \<Longrightarrow> y \<noteq> x \<Longrightarrow> air n y x = fs @ f # gs \<Longrightarrow>
    net_step Q N macs n (set_air y x (fs @ gs) n)"
| dup: "y < N \<Longrightarrow> x < N \<Longrightarrow> y \<noteq> x \<Longrightarrow> air n y x = fs @ f # gs \<Longrightarrow>
    net_step Q N macs n (set_air y x (fs @ f # f # gs) n)"

text \<open>Power-on: every node has run \<open>init()\<close>, with its first HELLO on the air.\<close>

definition net0 ::
  "(StatusPacket, 'q) queue_ops \<Rightarrow> nat \<Rightarrow> (nat \<Rightarrow> mac) \<Rightarrow> (nat \<Rightarrow> clock) \<Rightarrow> 'q net" where
  "net0 Q N macs boot =
     (let ns = (\<lambda>i. chain_init Q (boot i) (of_nat i) (of_nat N) node0)
      in \<lparr>nodes = ns, air = (\<lambda>i j. if i = j then [] else frames_to (macs j) (calls (ns i)))\<rparr>)"

inductive net_reach ::
  "(StatusPacket, 'q) queue_ops \<Rightarrow> nat \<Rightarrow> (nat \<Rightarrow> mac) \<Rightarrow> 'q net \<Rightarrow> bool"
  for Q N macs where
  boot: "net_reach Q N macs (net0 Q N macs bt)"
| step: "net_reach Q N macs n \<Longrightarrow> net_step Q N macs n n' \<Longrightarrow> net_reach Q N macs n'"

inductive_cases net_stepE: "net_step Q N macs n n'"

section \<open>Refinement of a hop to the abstract link\<close>

definition hop_rel ::
  "'q node \<Rightarrow> 'q node \<Rightarrow> StatusPacket list \<Rightarrow> (u8 \<times> u16) list \<Rightarrow> link \<Rightarrow> bool" where
  "hop_rel sa sb D K l \<longleftrightarrow>
     lk_sent l = sent sa \<and> (lk_busy l \<longleftrightarrow> g_state sa = kForwarding) \<and>
     map reading (lk_acc l) = accepted sb \<and> (lk_acc l \<noteq> [] \<longleftrightarrow> g_hasAcceptedAny sb) \<and>
     (lk_acc l \<noteq> [] \<longrightarrow> key (last (lk_acc l)) = (g_lastAcceptedOrigin sb, g_lastAcceptedSeq sb)) \<and>
     lk_data l = D \<and> lk_acks l = K"

text \<open>A reachable abstract state related to the two nodes and the frames between them.\<close>

definition hop_sim :: "'q node \<Rightarrow> 'q node \<Rightarrow> StatusPacket list \<Rightarrow> (u8 \<times> u16) list \<Rightarrow> bool" where
  "hop_sim sa sb D K \<longleftrightarrow> (\<exists>l. link_reach l \<and> hop_rel sa sb D K l)"

lemma hop_simI: "link_reach l \<Longrightarrow> link_step l l' \<Longrightarrow> hop_rel sa sb D K l' \<Longrightarrow> hop_sim sa sb D K"
  unfolding hop_sim_def by (blast intro: link_reach.step)

lemma hop_quiet: "hop_sim sa sb D K \<Longrightarrow> quiet sa sa' \<Longrightarrow> hop_sim sa' sb D K"
  by (auto simp: hop_sim_def hop_rel_def quiet_def)

lemma hop_deaf: "hop_sim sa sb D K \<Longrightarrow> deaf sb sb' \<Longrightarrow> hop_sim sa sb' D K"
  by (auto simp: hop_sim_def hop_rel_def deaf_def)

text \<open>The faults of the two channels.\<close>

lemma hop_lose_data:
  assumes "hop_sim sa sb (xs @ p # ys) K"
  shows "hop_sim sa sb (xs @ ys) K"
proof -
  obtain l where l: "link_reach l" "hop_rel sa sb (xs @ p # ys) K l"
    using assms by (auto simp: hop_sim_def)
  then show ?thesis
    by (intro hop_simI [OF l(1) link_step.lose_data [of l xs p ys]]) (simp_all add: hop_rel_def)
qed

lemma hop_lose_ack:
  assumes "hop_sim sa sb D (xs @ k # ys)"
  shows "hop_sim sa sb D (xs @ ys)"
proof -
  obtain l where l: "link_reach l" "hop_rel sa sb D (xs @ k # ys) l"
    using assms by (auto simp: hop_sim_def)
  then show ?thesis
    by (intro hop_simI [OF l(1) link_step.lose_ack [of l xs k ys]]) (simp_all add: hop_rel_def)
qed

lemma hop_dup_data:
  assumes "hop_sim sa sb (xs @ p # ys) K"
  shows "hop_sim sa sb (xs @ p # p # ys) K"
proof -
  obtain l where l: "link_reach l" "hop_rel sa sb (xs @ p # ys) K l"
    using assms by (auto simp: hop_sim_def)
  then show ?thesis
    by (intro hop_simI [OF l(1) link_step.dup_data [of l xs p ys]]) (simp_all add: hop_rel_def)
qed

lemma hop_dup_ack:
  assumes "hop_sim sa sb D (xs @ k # ys)"
  shows "hop_sim sa sb D (xs @ k # k # ys)"
proof -
  obtain l where l: "link_reach l" "hop_rel sa sb D (xs @ k # ys) l"
    using assms by (auto simp: hop_sim_def)
  then show ?thesis
    by (intro hop_simI [OF l(1) link_step.dup_ack [of l xs k ys]]) (simp_all add: hop_rel_def)
qed

text \<open>The moves of the sender and of the receiver.\<close>

context chain
begin

lemma hop_sends:
  assumes "hop_sim sa sb D K" and "sends i sa ps sa'"
  shows "hop_sim sa' sb (D @ ps) K"
proof -
  obtain l where l: "link_reach l" "hop_rel sa sb D K l"
    using assms(1) by (auto simp: hop_sim_def)
  from assms(2) consider
      (new) p where "ps = [p]" "g_state sa \<noteq> kForwarding" "g_state sa' = kForwarding"
        "sent sa' = sent sa @ [p]"
    | (again) "ps = [last (sent sa)]" "g_state sa = kForwarding" "quiet sa sa'"
    by (auto simp: sends_def length_Suc_conv)
  then show ?thesis
  proof cases
    case new
    with l show ?thesis
      by (intro hop_simI [OF l(1) link_step.begin_send [of l p]]) (auto simp: hop_rel_def)
  next
    case again
    with l show ?thesis
      by (intro hop_simI [OF l(1) link_step.resend [of l]]) (auto simp: hop_rel_def quiet_def)
  qed
qed

lemma hop_accepts:
  assumes "hop_sim sa sb (p # D) K" and "accepts i sb p sb'"
  shows "hop_sim sa sb' D (K @ [key p])"
proof -
  obtain l where l: "link_reach l" "hop_rel sa sb (p # D) K l"
    using assms(1) by (auto simp: hop_sim_def)
  then have "\<not> repeated p l"
    using assms(2) by (auto simp: hop_rel_def repeated_def accepts_def)
  with l assms(2) show ?thesis
    by (intro hop_simI [OF l(1) link_step.recv_accept [of l p D]]) (auto simp: hop_rel_def accepts_def)
qed

lemma hop_repeats:
  assumes "hop_sim sa sb (p # D) K" and "repeats i sb p sb'"
  shows "hop_sim sa sb' D (K @ [key p])"
proof -
  obtain l where l: "link_reach l" "hop_rel sa sb (p # D) K l"
    using assms(1) by (auto simp: hop_sim_def)
  then have "repeated p l"
    using assms(2) by (auto simp: hop_rel_def repeated_def repeats_def)
  with l assms(2) show ?thesis
    by (intro hop_simI [OF l(1) link_step.recv_repeat [of l p D]])
      (auto simp: hop_rel_def repeats_def deaf_def)
qed

lemma hop_acked:
  assumes "hop_sim sa sb D (k # K)" and "acked_by i sa k sa'"
  shows "hop_sim sa' sb D K"
proof -
  obtain l where l: "link_reach l" "hop_rel sa sb D (k # K) l"
    using assms(1) by (auto simp: hop_sim_def)
  with assms(2) show ?thesis
    by (intro hop_simI [OF l(1) link_step.ack_match [of l k K]]) (auto simp: hop_rel_def acked_by_def)
qed

section \<open>The invariant of the network\<close>

definition hop :: "'q net \<Rightarrow> nat \<Rightarrow> bool" where
  "hop n a \<longleftrightarrow> hop_sim (nodes n a) (nodes n (nxt N a))
     (statuses (air n a (nxt N a))) (ack_keys (air n (nxt N a) a))"

definition net_inv :: "'q net \<Rightarrow> bool" where
  "net_inv n \<longleftrightarrow> (\<forall>i < N. ok i (nodes n i)) \<and>
     (\<forall>i < N. \<forall>j < N. i \<noteq> j \<longrightarrow> (\<forall>f \<in> set (air n i j). frame_ok N i j f)) \<and>
     (\<forall>a < N. a \<noteq> 0 \<longrightarrow> hop n a)"

lemma nxt_inj: "a < N \<Longrightarrow> b < N \<Longrightarrow> nxt N a = nxt N b \<longleftrightarrow> a = b"
  using prv_nxt by metis

text \<open>What a node's move puts into the channels of a hop.\<close>

lemma update_air:
  assumes "logs x (nodes n x) s ps ks" and "x < N" and "a < N"
  shows "statuses (air (update_node macs x s n) a (nxt N a)) =
      statuses (air n a (nxt N a)) @ (if x = a then ps else [])"
    and "ack_keys (air (update_node macs x s n) (nxt N a) a) =
      ack_keys (air n (nxt N a) a) @ (if x = nxt N a then ks else [])"
proof -
  obtain cs where cs: "new_calls (nodes n x) s = cs" "airs N macs x cs ps ks"
    using assms(1) by (auto simp: logs_def dest: new_callsI)
  show "statuses (air (update_node macs x s n) a (nxt N a)) =
      statuses (air n a (nxt N a)) @ (if x = a then ps else [])"
    using cs assms(3) nxt_less nxt_neq [OF assms(3)] by (auto simp: update_node_def Let_def airs_def)
  show "ack_keys (air (update_node macs x s n) (nxt N a) a) =
      ack_keys (air n (nxt N a) a) @ (if x = nxt N a then ks else [])"
    using cs assms(3) nxt_less nxt_neq [OF assms(3)] prv_nxt [OF assms(3)]
    by (auto simp: update_node_def Let_def airs_def)
qed

lemma update_frames:
  assumes "logs x (nodes n x) s ps ks" and "x < N"
    and "\<forall>i < N. \<forall>j < N. i \<noteq> j \<longrightarrow> (\<forall>f \<in> set (air n i j). frame_ok N i j f)"
  shows "\<forall>i < N. \<forall>j < N. i \<noteq> j \<longrightarrow> (\<forall>f \<in> set (air (update_node macs x s n) i j). frame_ok N i j f)"
proof -
  obtain cs where "new_calls (nodes n x) s = cs" "airs N macs x cs ps ks"
    using assms(1) by (auto simp: logs_def dest: new_callsI)
  with assms(3) show ?thesis
    by (auto simp: update_node_def Let_def airs_def)
qed

lemma update_nodes [simp]:
  "nodes (update_node macs x s n) = (nodes n)(x := s)"
  by (simp add: update_node_def Let_def)

lemma inert_move:
  assumes "net_inv n" and "x < N" and "inert x (nodes n x) s"
  shows "net_inv (update_node macs x s n)"
proof -
  have l: "logs x (nodes n x) s [] []" and e: "ok x s" "quiet (nodes n x) s" "deaf (nodes n x) s"
    using assms(3) by (auto simp: inert_def)
  have "hop (update_node macs x s n) a" if "a < N" "a \<noteq> 0" for a
    using assms(1) that e nxt_neq [OF that(1)] unfolding net_inv_def hop_def
    by (auto simp: update_air [OF l assms(2) that(1)] intro: hop_quiet hop_deaf)
  with assms(1) e show ?thesis
    using update_frames [OF l assms(2)] by (simp add: net_inv_def)
qed

lemma sends_move:
  assumes "net_inv n" and "x < N" and "sends x (nodes n x) ps s"
  shows "net_inv (update_node macs x s n)"
proof -
  have l: "logs x (nodes n x) s ps []" and e: "ok x s" "deaf (nodes n x) s"
    using assms(3) by (auto simp: sends_def)
  have "hop (update_node macs x s n) a" if "a < N" "a \<noteq> 0" for a
    using assms that e nxt_neq [OF that(1)] unfolding net_inv_def hop_def
    by (auto simp: update_air [OF l assms(2) that(1)] intro: hop_sends hop_deaf)
  with assms(1) e show ?thesis
    using update_frames [OF l assms(2)] by (simp add: net_inv_def)
qed

lemma net0_inv: "net_inv (net0 Q N macs bt)"
proof -
  let ?n = "net0 Q N macs bt"
  have init: "ok i (nodes ?n i)" "airs N macs i (calls (nodes ?n i)) [] []" if "i < N" for i
    using chain_init_ok [OF that, of "bt i"] by (auto simp: net0_def Let_def)
  have air: "air ?n i j = frames_to (macs j) (calls (nodes ?n i))" if "i \<noteq> j" for i j
    using that by (simp add: net0_def Let_def)
  have fresh: "sent (nodes ?n i) = []" "flushed (nodes ?n i) = []" "enqueued (nodes ?n i) = []"
      "\<not> g_hasAcceptedAny (nodes ?n i)" "g_state (nodes ?n i) = kDiscovering" for i
    by (auto simp: net0_def chain_init_def broadcastHello_def emit_def node0_def trace Let_def)
  have "hop ?n a" if a: "a < N" "a \<noteq> 0" for a
  proof -
    have "hop_rel (nodes ?n a) (nodes ?n (nxt N a)) [] [] link0"
      using fresh [of a] fresh [of "nxt N a"]
      by (simp add: hop_rel_def link0_def accepted_def relayed_def)
    moreover have "statuses (air ?n a (nxt N a)) = []" "ack_keys (air ?n (nxt N a) a) = []"
      using init [OF a(1)] init [OF nxt_less] nxt_less nxt_neq [OF a(1)] a
      by (auto simp: air airs_def)
    ultimately show ?thesis
      using link_reach.boot by (auto simp: hop_def hop_sim_def)
  qed
  then show ?thesis
    using init by (auto simp: net_inv_def air airs_def)
qed

text \<open>A fault of one channel, and the head of a channel taken off it.\<close>

lemma set_air_simps [simp]:
  "nodes (set_air y x fs n) = nodes n"
  "air (set_air y x fs n) i j = (if i = y \<and> j = x then fs else air n i j)"
  by (simp_all add: set_air_def)

lemma status_not_ack: "is_status f \<Longrightarrow> \<not> is_ack f"
  by (auto simp: is_status_def is_ack_def pkt_type_defs)

lemma lose_move:
  assumes "net_inv n" and "air n y x = fs @ f # gs"
  shows "net_inv (set_air y x (fs @ gs) n)"
proof -
  have "hop (set_air y x (fs @ gs) n) a" if a: "a < N" "a \<noteq> 0" for a
  proof -
    have h: "hop n a" using assms(1) a by (simp add: net_inv_def)
    have neq: "nxt N a \<noteq> a" using a(1) by (rule nxt_neq)
    show ?thesis
      using h assms(2) neq hop_lose_data [of _ _ "statuses fs" "dec_status f" "statuses gs"]
        hop_lose_ack [of _ _ _ "ack_keys fs" "ack_key f" "ack_keys gs"]
      by (auto simp: hop_def split: if_splits)
  qed
  moreover have "\<forall>i < N. \<forall>j < N. i \<noteq> j \<longrightarrow>
      (\<forall>g \<in> set (air (set_air y x (fs @ gs) n) i j). frame_ok N i j g)"
    using assms by (auto simp: net_inv_def)
  ultimately show ?thesis
    using assms(1) by (simp add: net_inv_def)
qed

lemma dup_move:
  assumes "net_inv n" and "air n y x = fs @ f # gs"
  shows "net_inv (set_air y x (fs @ f # f # gs) n)"
proof -
  have "hop (set_air y x (fs @ f # f # gs) n) a" if a: "a < N" "a \<noteq> 0" for a
  proof -
    have h: "hop n a" using assms(1) a by (simp add: net_inv_def)
    have neq: "nxt N a \<noteq> a" using a(1) by (rule nxt_neq)
    show ?thesis
      using h assms(2) neq hop_dup_data [of _ _ "statuses fs" "dec_status f" "statuses gs"]
        hop_dup_ack [of _ _ _ "ack_keys fs" "ack_key f" "ack_keys gs"]
      by (auto simp: hop_def split: if_splits)
  qed
  moreover have "\<forall>i < N. \<forall>j < N. i \<noteq> j \<longrightarrow>
      (\<forall>g \<in> set (air (set_air y x (fs @ f # f # gs) n) i j). frame_ok N i j g)"
    using assms by (auto simp: net_inv_def)
  ultimately show ?thesis
    using assms(1) by (simp add: net_inv_def)
qed

lemma deliver_data:
  assumes inv: "net_inv n" and "y < N" "x < N" and q: "air n y x = f # fs"
    and st: "is_status f" "y \<noteq> 0" "x = nxt N y"
    and eff: "accepts x (nodes n x) (dec_status f) s \<or> repeats x (nodes n x) (dec_status f) s"
  shows "net_inv (update_node macs x s (set_air y x fs n))"
proof -
  let ?n1 = "set_air y x fs n" and ?p = "dec_status f"
  have inv1: "net_inv ?n1" using lose_move [OF inv, of y x "[]" f fs] q by simp
  have l: "logs x (nodes ?n1 x) s [] [key ?p]" and e: "ok x s" "quiet (nodes n x) s"
    using eff by (auto simp: accepts_def repeats_def)
  note upd = update_air [OF l \<open>x < N\<close>]
  have "hop (update_node macs x s ?n1) a" if a: "a < N" "a \<noteq> 0" for a
  proof (cases "a = y")
    case True
    have "hop_sim (nodes n y) (nodes n x) (?p # statuses fs) (ack_keys (air n x y))"
      using inv st q \<open>y < N\<close> by (auto simp: net_inv_def hop_def)
    then have "hop_sim (nodes n y) s (statuses fs) (ack_keys (air n x y) @ [key ?p])"
      using eff hop_accepts hop_repeats by blast
    then show ?thesis
      using True st a nxt_neq [OF a(1)] unfolding hop_def upd(1) [OF a(1)] upd(2) [OF a(1)] by simp
  next
    case False
    then have "x \<noteq> nxt N a" using st a \<open>y < N\<close> by (simp add: nxt_inj)
    then show ?thesis
      using inv1 a e unfolding net_inv_def hop_def upd(1) [OF a(1)] upd(2) [OF a(1)]
      by (auto simp del: set_air_simps(2) intro: hop_quiet)
  qed
  then show ?thesis
    using inv1 e update_frames [OF l \<open>x < N\<close>] by (simp add: net_inv_def)
qed

lemma deliver_ack:
  assumes inv: "net_inv n" and "y < N" "x < N" and q: "air n y x = f # fs"
    and ack: "is_ack f" "x = prv N y" and eff: "acked_by x (nodes n x) (ack_key f) s"
  shows "net_inv (update_node macs x s (set_air y x fs n))"
proof -
  let ?n1 = "set_air y x fs n"
  have inv1: "net_inv ?n1" using lose_move [OF inv, of y x "[]" f fs] q by simp
  have l: "logs x (nodes ?n1 x) s [] []" and e: "ok x s" "deaf (nodes n x) s"
    using eff by (auto simp: acked_by_def)
  have y: "y = nxt N x" using ack(2) \<open>y < N\<close> by (simp add: nxt_prv)
  note upd = update_air [OF l \<open>x < N\<close>]
  have "hop (update_node macs x s ?n1) a" if a: "a < N" "a \<noteq> 0" for a
  proof (cases "a = x")
    case True
    have "hop_sim (nodes n x) (nodes n y) (statuses (air n x y)) (ack_key f # ack_keys fs)"
      using inv ack q a True y by (auto simp: net_inv_def hop_def)
    then have "hop_sim s (nodes n y) (statuses (air n x y)) (ack_keys fs)"
      using eff by (rule hop_acked)
    then show ?thesis
      using True y a nxt_neq [OF a(1)] unfolding hop_def upd(1) [OF a(1)] upd(2) [OF a(1)] by simp
  next
    case False
    then show ?thesis
      using inv1 a e unfolding net_inv_def hop_def upd(1) [OF a(1)] upd(2) [OF a(1)]
      by (auto simp del: set_air_simps(2) intro: hop_deaf)
  qed
  then show ?thesis
    using inv1 e update_frames [OF l \<open>x < N\<close>] by (simp add: net_inv_def)
qed

lemma deliver_move:
  assumes inv: "net_inv n" and yx: "y < N" "x < N" "y \<noteq> x" and q: "air n y x = f # fs"
  shows "net_inv (update_node macs x (onEspNowRecv Q (macs y) f (nodes n x)) (set_air y x fs n))"
proof -
  have "ok x (nodes n x)" and "frame_ok N y x f"
    using inv yx q by (auto simp: net_inv_def)
  from onEspNowRecv_effect [OF this(1) yx(2,1) this(2)] show ?thesis
  proof (elim disjE conjE)
    assume "inert x (nodes n x) (onEspNowRecv Q (macs y) f (nodes n x))"
    then show ?thesis
      using lose_move [OF inv, of y x "[]" f fs] q yx by (intro inert_move) simp_all
  next
    assume "is_status f" "y \<noteq> 0" "x = nxt N y"
      and "accepts x (nodes n x) (dec_status f) (onEspNowRecv Q (macs y) f (nodes n x))"
    then show ?thesis
      using inv yx q by (intro deliver_data) auto
  next
    assume "is_status f" "y \<noteq> 0" "x = nxt N y"
      and "repeats x (nodes n x) (dec_status f) (onEspNowRecv Q (macs y) f (nodes n x))"
    then show ?thesis
      using inv yx q by (intro deliver_data) auto
  next
    assume "is_ack f" "x = prv N y" "acked_by x (nodes n x) (ack_key f) (onEspNowRecv Q (macs y) f (nodes n x))"
    then show ?thesis
      using inv yx q by (intro deliver_ack)
  qed
qed

lemma net_step_inv: "net_step Q N macs n n' \<Longrightarrow> net_inv n \<Longrightarrow> net_inv n'"
proof (induction rule: net_step.induct)
  case (tick x n now)
  then have "ok x (nodes n x)" by (simp add: net_inv_def)
  then have "inert x (nodes n x) (loop_body Q now (nodes n x)) \<or>
      (\<exists>ps. sends x (nodes n x) ps (loop_body Q now (nodes n x)))"
    using tick by (intro loop_body_effect)
  with tick show ?case by (auto intro: inert_move sends_move)
next
  case (lane x n sid oc pl)
  then show ?case by (intro inert_move setLaneStatus_inert) (auto simp: net_inv_def)
next
  case (deliver y x n f fs)
  then show ?case by (intro deliver_move)
next
  case (lose y x n fs f gs)
  then show ?case by (intro lose_move)
next
  case (dup y x n fs f gs)
  then show ?case by (intro dup_move)
qed

lemma net_reach_inv: "net_reach Q N macs n \<Longrightarrow> net_inv n"
  by (induction rule: net_reach.induct) (auto intro: net0_inv net_step_inv)

section \<open>What the invariant gives\<close>

lemma sent_prefix_enqueued: "ok i s \<Longrightarrow> prefix (sent s) (enqueued s)"
  by (auto simp: node_ok_def queue_ok_def split: if_splits option.splits)

lemma key_adj_of_seq: "distinct_adj (map seq xs) \<Longrightarrow> distinct_adj (map key xs)"
proof -
  assume "distinct_adj (map seq xs)"
  moreover have "map seq xs = map snd (map key xs)" by (simp add: key_def)
  ultimately show ?thesis by (metis distinct_adj_mapD)
qed

text \<open>Neighbours in an outgoing queue have different keys, if a node's own readings do.\<close>

lemma enqueued_keys_adj:
  assumes "ok i s" and "i \<noteq> 0" and "distinct_adj (map seq (own_enqueued s))"
  shows "distinct_adj (map key (enqueued s))"
proof (rule distinct_adj_merge [where P = "\<lambda>p. origin_node_id p = g_nodeId s"])
  show "distinct_adj (map key (filter (\<lambda>p. origin_node_id p = g_nodeId s) (enqueued s)))"
    using key_adj_of_seq [OF assms(3)] by (simp add: own_enqueued_def)
  show "distinct_adj (map key (filter (\<lambda>p. origin_node_id p \<noteq> g_nodeId s) (enqueued s)))"
    using assms(1,2) by (simp add: node_ok_def dedup_ok_def relayed_def)
qed (auto simp: key_def)

lemma sent_keys_adj:
  assumes "ok i s" and "i \<noteq> 0" and "distinct_adj (map seq (own_enqueued s))"
  shows "distinct_adj (map key (sent s))"
  using enqueued_keys_adj [OF assms] sent_prefix_enqueued [OF assms(1)] by (auto simp: prefix_def)

lemma hop_delivery:
  assumes "net_reach Q N macs n" and "a < N" and "a \<noteq> 0"
    and "distinct_adj (map key (sent (nodes n a)))"
  shows "accepted (nodes n (nxt N a)) = map reading (sent (nodes n a)) \<or>
    (g_state (nodes n a) = kForwarding \<and>
     map reading (sent (nodes n a)) = accepted (nodes n (nxt N a)) @ [reading (g_pending (nodes n a))])"
proof -
  have inv: "net_inv n" using assms(1) by (rule net_reach_inv)
  then obtain l where l: "link_reach l" and rel: "hop_rel (nodes n a) (nodes n (nxt N a))
      (statuses (air n a (nxt N a))) (ack_keys (air n (nxt N a) a)) l"
    using assms by (auto simp: net_inv_def hop_def hop_sim_def)
  have pend: "g_state (nodes n a) = kForwarding \<longrightarrow> g_pending (nodes n a) = last (sent (nodes n a))"
    using inv assms by (auto simp: net_inv_def node_ok_def traffic_ok_def)
  have "lk_acc l = lk_sent l \<or> (lk_busy l \<and> lk_sent l = lk_acc l @ [last (lk_sent l)])"
    using l rel assms(4) by (intro link_exactly_once) (simp_all add: hop_rel_def)
  with rel pend show ?thesis
    unfolding hop_rel_def by (metis list.simps(8,9) map_append)
qed

lemma hop_prefix:
  assumes "net_reach Q N macs n" and "a < N" and "a \<noteq> 0"
    and "distinct_adj (map seq (own_enqueued (nodes n a)))"
  shows "prefix (accepted (nodes n (nxt N a))) (map reading (enqueued (nodes n a)))"
proof -
  have ok: "ok a (nodes n a)"
    using net_reach_inv [OF assms(1)] assms(2) by (simp add: net_inv_def)
  then have "distinct_adj (map key (sent (nodes n a)))"
    using assms by (intro sent_keys_adj)
  from hop_delivery [OF assms(1-3) this]
  have "prefix (accepted (nodes n (nxt N a))) (map reading (sent (nodes n a)))" by auto
  also have "prefix (map reading (sent (nodes n a))) (map reading (enqueued (nodes n a)))"
    using sent_prefix_enqueued [OF ok] by (rule map_mono_prefix)
  finally show ?thesis .
qed

lemma filter_reading:
  "filter (\<lambda>r. fst r = k) (map reading ps) = map reading (filter (\<lambda>p. origin_node_id p = k) ps)"
  by (simp add: filter_map comp_def reading_def)

text \<open>Readings of station \<open>k\<close> further down the chain, and at the Gateway, are accepted ones.\<close>

lemma relay_filter:
  assumes reach: "net_reach Q N macs n" and "k < i" and "i < N"
  shows "filter (\<lambda>r. fst r = of_nat k) (map reading (enqueued (nodes n i))) =
    filter (\<lambda>r. fst r = of_nat k) (accepted (nodes n i))"
proof -
  have "ok i (nodes n i)"
    using net_reach_inv [OF reach] \<open>i < N\<close> by (simp add: net_inv_def)
  then have id: "g_nodeId (nodes n i) = of_nat i" "\<not> g_isGateway (nodes n i)"
    using \<open>k < i\<close> by (simp_all add: node_ok_defs)
  have ne: "(of_nat k :: u8) \<noteq> of_nat i"
    using assms id_eq [of k i] by auto
  have "filter (\<lambda>p. origin_node_id p = of_nat k) (filter (\<lambda>p. origin_node_id p \<noteq> of_nat i) ps) =
      filter (\<lambda>p. origin_node_id p = of_nat k) ps" for ps :: "StatusPacket list"
    using ne by (induction ps) auto
  then show ?thesis
    by (simp only: accepted_def relayed_def filter_reading id if_False)
qed

lemma gateway_filter:
  assumes reach: "net_reach Q N macs n" and k: "k \<noteq> 0" "k < N"
  shows "filter (\<lambda>r. fst r = of_nat k) (flushed (nodes n 0)) =
    filter (\<lambda>r. fst r = of_nat k) (accepted (nodes n 0))"
proof -
  have "g_isGateway (nodes n 0)" "g_nodeId (nodes n 0) = 0"
    using net_reach_inv [OF reach] two_nodes by (simp_all add: net_inv_def node_ok_defs)
  moreover have "(of_nat k :: u8) \<noteq> 0" using id_eq [of k 0] k two_nodes by simp
  ultimately show ?thesis
    by (auto simp: accepted_def intro!: filter_cong)
qed

lemma upstream_prefix:
  assumes reach: "net_reach Q N macs n" and "k \<noteq> 0" and "k \<le> i" and "i < N"
    and adj: "\<And>a. a \<noteq> 0 \<Longrightarrow> a < N \<Longrightarrow> distinct_adj (map seq (own_enqueued (nodes n a)))"
  shows "prefix (filter (\<lambda>r. fst r = of_nat k) (map reading (enqueued (nodes n i))))
    (map reading (own_enqueued (nodes n k)))"
  using \<open>k \<le> i\<close> \<open>i < N\<close>
proof (induction i rule: dec_induct)
  case base
  then have "g_nodeId (nodes n k) = of_nat k"
    using net_reach_inv [OF reach] by (simp add: net_inv_def node_ok_defs)
  then show ?case by (simp add: filter_reading own_enqueued_def)
next
  case (step i)
  let ?F = "filter (\<lambda>r. fst r = (of_nat k :: u8))"
  have "?F (map reading (enqueued (nodes n (Suc i)))) = ?F (accepted (nodes n (Suc i)))"
    using step by (intro relay_filter reach) auto
  moreover have "nxt N i = Suc i" using step.prems by (simp add: nxt_def)
  then have "prefix (accepted (nodes n (Suc i))) (map reading (enqueued (nodes n i)))"
    using hop_prefix [OF reach, of i] step \<open>k \<noteq> 0\<close> adj by auto
  then have "prefix (?F (accepted (nodes n (Suc i)))) (?F (map reading (enqueued (nodes n i))))"
    by (rule prefix_filter)
  moreover have "prefix (?F (map reading (enqueued (nodes n i)))) (map reading (own_enqueued (nodes n k)))"
    using step by simp
  ultimately show ?case
    by (simp add: prefix_order.trans)
qed

lemma sunk_prefix:
  assumes reach: "net_reach Q N macs n" and k: "k \<noteq> 0" "k < N"
    and adj: "\<And>a. a \<noteq> 0 \<Longrightarrow> a < N \<Longrightarrow> distinct_adj (map seq (own_enqueued (nodes n a)))"
  shows "prefix (filter (\<lambda>r. fst r = of_nat k) (flushed (nodes n 0))) (map reading (own_enqueued (nodes n k)))"
proof -
  let ?F = "filter (\<lambda>r. fst r = (of_nat k :: u8))" and ?z = "N - 1"
  have z: "?z < N" "?z \<noteq> 0" "k \<le> ?z" "nxt N ?z = 0"
    using two_nodes k by (auto simp: nxt_def)
  have "?F (flushed (nodes n 0)) = ?F (accepted (nodes n 0))"
    using reach k by (rule gateway_filter)
  also have "prefix (?F (accepted (nodes n 0))) (?F (map reading (enqueued (nodes n ?z))))"
    using hop_prefix [OF reach z(1,2)] adj z by (intro prefix_filter) simp
  also have "prefix (?F (map reading (enqueued (nodes n ?z)))) (map reading (own_enqueued (nodes n k)))"
    using reach k z(3,1) adj by (intro upstream_prefix)
  finally show ?thesis .
qed

section \<open>Nothing is lost\<close>

lemma hop_complete:
  assumes "net_reach Q N macs n" and "a < N" and "a \<noteq> 0" and "drained (nodes n a)"
    and "distinct_adj (map seq (own_enqueued (nodes n a)))"
  shows "accepted (nodes n (nxt N a)) = map reading (enqueued (nodes n a))"
proof -
  have "ok a (nodes n a)"
    using net_reach_inv [OF assms(1)] assms(2) by (simp add: net_inv_def)
  then have "distinct_adj (map key (sent (nodes n a)))"
    using assms by (intro sent_keys_adj)
  from hop_delivery [OF assms(1-3) this] show ?thesis
    using assms(4) by (auto simp: drained_def)
qed

lemma upstream_complete:
  assumes reach: "net_reach Q N macs n" and "k \<noteq> 0" and "k \<le> i" and "i < N"
    and adj: "\<And>a. a \<noteq> 0 \<Longrightarrow> a < N \<Longrightarrow> distinct_adj (map seq (own_enqueued (nodes n a)))"
    and clear: "\<And>a. k \<le> a \<Longrightarrow> a < i \<Longrightarrow> drained (nodes n a)"
  shows "filter (\<lambda>r. fst r = of_nat k) (map reading (enqueued (nodes n i))) =
    map reading (own_enqueued (nodes n k))"
  using \<open>k \<le> i\<close> \<open>i < N\<close> clear
proof (induction i rule: dec_induct)
  case base
  then have "g_nodeId (nodes n k) = of_nat k"
    using net_reach_inv [OF reach] by (simp add: net_inv_def node_ok_defs)
  then show ?case by (simp add: filter_reading own_enqueued_def)
next
  case (step i)
  let ?F = "filter (\<lambda>r. fst r = (of_nat k :: u8))"
  have "nxt N i = Suc i" using step.prems by (simp add: nxt_def)
  then have "accepted (nodes n (Suc i)) = map reading (enqueued (nodes n i))"
    using hop_complete [OF reach, of i] step \<open>k \<noteq> 0\<close> adj by auto
  moreover have "?F (map reading (enqueued (nodes n (Suc i)))) = ?F (accepted (nodes n (Suc i)))"
    using step \<open>k \<noteq> 0\<close> by (intro relay_filter reach) auto
  ultimately show ?case using step by simp
qed

lemma sunk_complete:
  assumes reach: "net_reach Q N macs n" and k: "k \<noteq> 0" "k < N"
    and adj: "\<And>a. a \<noteq> 0 \<Longrightarrow> a < N \<Longrightarrow> distinct_adj (map seq (own_enqueued (nodes n a)))"
    and clear: "\<And>a. k \<le> a \<Longrightarrow> a < N \<Longrightarrow> drained (nodes n a)"
  shows "filter (\<lambda>r. fst r = of_nat k) (flushed (nodes n 0)) = map reading (own_enqueued (nodes n k))"
proof -
  let ?z = "N - 1"
  have z: "?z < N" "?z \<noteq> 0" "k \<le> ?z" "nxt N ?z = 0"
    using two_nodes k by (auto simp: nxt_def)
  have "accepted (nodes n 0) = map reading (enqueued (nodes n ?z))"
    using hop_complete [OF reach z(1,2) clear adj] z by simp
  with gateway_filter [OF reach k] show ?thesis
    using upstream_complete [OF reach k(1) z(3,1) adj] clear z by simp
qed

end

end
