(* ===== verification/ChainRun.thy ===== *)
theory ChainRun
  imports ChainNet
begin

text \<open>
  Executable runs: \<open>net_exec\<close> performs one scheduled event of the network and is a step of
  \<open>net_step\<close> (or nothing, when the event does not apply), so a list of events gives a
  reachable network; \<open>rack_run\<close> is the same run on tables, which evaluates.
\<close>

datatype net_event =
    Tick nat clock
  | Lane nat u8 u8 bytes
  | Deliver nat nat
  | Lose nat nat nat
  | Dup nat nat nat

fun net_exec ::
  "(StatusPacket, 'q) queue_ops \<Rightarrow> nat \<Rightarrow> (nat \<Rightarrow> mac) \<Rightarrow> net_event \<Rightarrow> 'q net \<Rightarrow> 'q net" where
  "net_exec Q N macs (Tick x now) n =
     (if x < N then update_node macs x (loop_body Q now (nodes n x)) n else n)"
| "net_exec Q N macs (Lane x sid oc pl) n =
     (if x < N then update_node macs x (setLaneStatus sid oc pl (nodes n x)) n else n)"
| "net_exec Q N macs (Deliver y x) n =
     (if y < N \<and> x < N \<and> y \<noteq> x then
        (case air n y x of
           [] \<Rightarrow> n
         | f # fs \<Rightarrow> update_node macs x (onEspNowRecv Q (macs y) f (nodes n x)) (set_air y x fs n))
      else n)"
| "net_exec Q N macs (Lose y x k) n =
     (if y < N \<and> x < N \<and> y \<noteq> x \<and> k < length (air n y x)
      then set_air y x (take k (air n y x) @ drop (Suc k) (air n y x)) n else n)"
| "net_exec Q N macs (Dup y x k) n =
     (if y < N \<and> x < N \<and> y \<noteq> x \<and> k < length (air n y x)
      then set_air y x (take k (air n y x) @ (air n y x ! k) # drop k (air n y x)) n else n)"

definition net_run ::
  "(StatusPacket, 'q) queue_ops \<Rightarrow> nat \<Rightarrow> (nat \<Rightarrow> mac) \<Rightarrow> (nat \<Rightarrow> clock) \<Rightarrow> net_event list \<Rightarrow> 'q net" where
  "net_run Q N macs bt evs = fold (net_exec Q N macs) evs (net0 Q N macs bt)"

lemma net_exec_step: "net_exec Q N macs ev n = n \<or> net_step Q N macs n (net_exec Q N macs ev n)"
proof (cases ev)
  case (Deliver y x)
  then show ?thesis
    by (cases "air n y x") (auto intro: net_step.deliver)
next
  case (Lose y x k)
  show ?thesis
  proof (cases "y < N \<and> x < N \<and> y \<noteq> x \<and> k < length (air n y x)")
    case True
    then show ?thesis
      using Lose id_take_nth_drop [of k "air n y x"] by (auto intro: net_step.lose)
  qed (use Lose in auto)
next
  case (Dup y x k)
  show ?thesis
  proof (cases "y < N \<and> x < N \<and> y \<noteq> x \<and> k < length (air n y x)")
    case True
    then show ?thesis
      using Dup id_take_nth_drop [of k "air n y x"] Cons_nth_drop_Suc [of k "air n y x", symmetric]
      by (auto intro: net_step.dup)
  qed (use Dup in auto)
qed (auto intro: net_step.tick net_step.lane)

lemma net_run_reach: "net_reach Q N macs (net_run Q N macs bt evs)"
proof (induction evs rule: rev_induct)
  case Nil
  show ?case by (simp add: net_run_def net_reach.boot)
next
  case (snoc ev evs)
  then show ?case
    using net_exec_step [of Q N macs ev "net_run Q N macs bt evs"]
    by (auto simp: net_run_def intro: net_reach.step)
qed

section \<open>Runs on tables\<close>

text \<open>
  The same events on a network kept in tables instead of functions, which evaluates; \<open>tab\<close>
  says that a table holds the first \<open>N\<close> stations of a network.
\<close>

declare node0_def [code_unfold]

record 'q rack =
  rk_nodes :: "'q node list"
  rk_air :: "bytes list list list"

definition rack_move :: "(nat \<Rightarrow> mac) \<Rightarrow> nat \<Rightarrow> 'q node \<Rightarrow> 'q rack \<Rightarrow> 'q rack" where
  "rack_move macs x s r =
     (let cs = new_calls (rk_nodes r ! x) s;
          row = rk_air r ! x
      in \<lparr>rk_nodes = (rk_nodes r)[x := s],
          rk_air = (rk_air r)[x := map (\<lambda>j. if j = x then row ! j else row ! j @ frames_to (macs j) cs)
                                     [0..<length row]]\<rparr>)"

definition rack_set :: "nat \<Rightarrow> nat \<Rightarrow> bytes list \<Rightarrow> 'q rack \<Rightarrow> 'q rack" where
  "rack_set y x fs r = r\<lparr>rk_air := (rk_air r)[y := (rk_air r ! y)[x := fs]]\<rparr>"

fun rack_exec ::
  "(StatusPacket, 'q) queue_ops \<Rightarrow> nat \<Rightarrow> (nat \<Rightarrow> mac) \<Rightarrow> net_event \<Rightarrow> 'q rack \<Rightarrow> 'q rack" where
  "rack_exec Q N macs (Tick x now) r =
     (if x < N then rack_move macs x (loop_body Q now (rk_nodes r ! x)) r else r)"
| "rack_exec Q N macs (Lane x sid oc pl) r =
     (if x < N then rack_move macs x (setLaneStatus sid oc pl (rk_nodes r ! x)) r else r)"
| "rack_exec Q N macs (Deliver y x) r =
     (if y < N \<and> x < N \<and> y \<noteq> x then
        (case rk_air r ! y ! x of
           [] \<Rightarrow> r
         | f # fs \<Rightarrow> rack_move macs x (onEspNowRecv Q (macs y) f (rk_nodes r ! x)) (rack_set y x fs r))
      else r)"
| "rack_exec Q N macs (Lose y x k) r =
     (if y < N \<and> x < N \<and> y \<noteq> x \<and> k < length (rk_air r ! y ! x)
      then rack_set y x (take k (rk_air r ! y ! x) @ drop (Suc k) (rk_air r ! y ! x)) r else r)"
| "rack_exec Q N macs (Dup y x k) r =
     (if y < N \<and> x < N \<and> y \<noteq> x \<and> k < length (rk_air r ! y ! x)
      then rack_set y x (take k (rk_air r ! y ! x) @ (rk_air r ! y ! x ! k) # drop k (rk_air r ! y ! x)) r
      else r)"

definition rack0 ::
  "(StatusPacket, 'q) queue_ops \<Rightarrow> nat \<Rightarrow> (nat \<Rightarrow> mac) \<Rightarrow> (nat \<Rightarrow> clock) \<Rightarrow> 'q rack" where
  "rack0 Q N macs boot =
     (let ns = map (\<lambda>i. chain_init Q (boot i) (of_nat i) (of_nat N) node0) [0..<N]
      in \<lparr>rk_nodes = ns,
          rk_air = map (\<lambda>i. map (\<lambda>j. if i = j then [] else frames_to (macs j) (calls (ns ! i))) [0..<N]) [0..<N]\<rparr>)"

definition rack_run ::
  "(StatusPacket, 'q) queue_ops \<Rightarrow> nat \<Rightarrow> (nat \<Rightarrow> mac) \<Rightarrow> (nat \<Rightarrow> clock) \<Rightarrow> net_event list \<Rightarrow> 'q rack" where
  "rack_run Q N macs bt evs = fold (rack_exec Q N macs) evs (rack0 Q N macs bt)"

definition tab :: "nat \<Rightarrow> 'q rack \<Rightarrow> 'q net \<Rightarrow> bool" where
  "tab N r n \<longleftrightarrow> length (rk_nodes r) = N \<and> length (rk_air r) = N \<and>
     (\<forall>i < N. rk_nodes r ! i = nodes n i \<and> length (rk_air r ! i) = N \<and>
        (\<forall>j < N. rk_air r ! i ! j = air n i j))"

lemma tab_move:
  assumes "tab N r n" and "x < N"
  shows "tab N (rack_move macs x s r) (update_node macs x s n)"
  using assms by (auto simp: tab_def rack_move_def update_node_def Let_def nth_list_update)

lemma tab_set: "tab N r n \<Longrightarrow> y < N \<Longrightarrow> x < N \<Longrightarrow> tab N (rack_set y x fs r) (set_air y x fs n)"
  by (auto simp: tab_def rack_set_def set_air_def nth_list_update)

lemma tab_look:
  "tab N r n \<Longrightarrow> i < N \<Longrightarrow> rk_nodes r ! i = nodes n i"
  "tab N r n \<Longrightarrow> i < N \<Longrightarrow> j < N \<Longrightarrow> rk_air r ! i ! j = air n i j"
  by (auto simp: tab_def)

lemma tab_exec: "tab N r n \<Longrightarrow> tab N (rack_exec Q N macs ev r) (net_exec Q N macs ev n)"
  by (cases ev) (auto simp: tab_look intro!: tab_move tab_set split: list.split)

lemma tab0: "tab N (rack0 Q N macs bt) (net0 Q N macs bt)"
  by (auto simp: tab_def rack0_def net0_def Let_def)

lemma tab_run: "tab N (rack_run Q N macs bt evs) (net_run Q N macs bt evs)"
  unfolding rack_run_def net_run_def
  by (induction evs rule: rev_induct) (auto simp: tab0 intro: tab_exec)

lemma run_node: "i < N \<Longrightarrow> nodes (net_run Q N macs bt evs) i = rk_nodes (rack_run Q N macs bt evs) ! i"
  using tab_run [of N Q macs bt evs] by (simp add: tab_def)

lemma run_air:
  "i < N \<Longrightarrow> j < N \<Longrightarrow> air (net_run Q N macs bt evs) i j = rk_air (rack_run Q N macs bt evs) ! i ! j"
  using tab_run [of N Q macs bt evs] by (simp add: tab_def)

section \<open>A small chain to run\<close>

definition station :: "nat \<Rightarrow> mac" where
  "station i = Mac 2 0 0 0 0 (of_nat i)"

lemma station_inj: "inj_on station {..<256}"
  by (auto simp: inj_on_def station_def of_nat_u8_eq)

interpretation pair: chain list_queue "\<lambda>_. True" fst snd 2 station
  by unfold_locales (auto simp: config_defs intro: inj_on_subset [OF station_inj])

interpretation trio: chain list_queue "\<lambda>_. True" fst snd 3 station
  by unfold_locales (auto simp: config_defs intro: inj_on_subset [OF station_inj])

lemma pair_chain: "chain list_queue (\<lambda>_. True) fst snd 2 station"
  by (rule pair.chain_axioms)

lemma trio_chain: "chain list_queue (\<lambda>_. True) fst snd 3 station"
  by (rule trio.chain_axioms)

text \<open>All clock reads of one step at \<open>ms\<close> milliseconds.\<close>

definition at :: "int \<Rightarrow> clock" where
  "at ms = (\<lambda>_. 1000 * ms)"

text \<open>
  Discovery, a reading of each relay, a lost and a duplicated frame, a retransmission, and
  the acknowledgements of a three-node chain.
\<close>

definition trio_events :: "net_event list" where
  "trio_events =
     [Deliver 0 1, Deliver 0 2, Deliver 1 0, Deliver 1 2, Deliver 2 0, Deliver 2 1,
      Lane 1 0 1 [66, 49], Tick 1 (at 2000), Tick 2 (at 2000),
      Lose 1 2 0, Tick 1 (at 2300), Dup 1 2 0, Deliver 1 2, Deliver 1 2, Deliver 2 1,
      Deliver 2 0, Deliver 0 2, Tick 2 (at 2310), Deliver 2 0]"

end
