(* ===== verification/ChainCounts.thy ===== *)
theory ChainCounts
  imports ChainNet
begin

text \<open>
  Two further invariants of the nodes of a reachable network: the numbering of a node's own
  readings (\<open>seq_ok\<close>) and the health counters that \<open>logStats\<close> prints (\<open>stats_ok\<close>), each
  against the call log. \<open>reach_node\<close> is the induction both use: an invariant of one node
  has to survive a loop body, a lane reading and the handlers of well-formed frames.
\<close>

section \<open>Readings a node has tried to queue\<close>

fun tried_of :: "call list \<Rightarrow> StatusPacket list" where
  "tried_of [] = []"
| "tried_of (QueueSend p b # cs) = p # tried_of cs"
| "tried_of (_ # cs) = tried_of cs"

fun refused_of :: "call list \<Rightarrow> StatusPacket list" where
  "refused_of [] = []"
| "refused_of (QueueSend p False # cs) = p # refused_of cs"
| "refused_of (_ # cs) = refused_of cs"

lemma tried_of_append [trace]: "tried_of (xs @ ys) = tried_of xs @ tried_of ys"
  by (induction xs rule: tried_of.induct) auto

lemma refused_of_append [trace]: "refused_of (xs @ ys) = refused_of xs @ refused_of ys"
  by (induction xs rule: refused_of.induct) auto

definition originated :: "'q node \<Rightarrow> StatusPacket list" where
  "originated s = filter (\<lambda>p. origin_node_id p = g_nodeId s) (tried_of (calls s))"

lemma subseq_tried: "subseq (enq_of cs) (tried_of cs)"
  by (induction cs rule: enq_of.induct) auto

lemma own_enqueued_subseq: "subseq (own_enqueued s) (originated s)"
  unfolding own_enqueued_def originated_def enqueued_def
  by (rule subseq_filter) (rule subseq_tried)

section \<open>Numbering\<close>

definition numbered :: "StatusPacket list \<Rightarrow> bool" where
  "numbered ps \<longleftrightarrow> map seq ps = map of_nat [0..<length ps] \<and>
     map stream_id ps = map (\<lambda>j. of_nat (j mod unat kVideoStreamsPerNode)) [0..<length ps]"

definition seq_ok :: "'q node \<Rightarrow> bool" where
  "seq_ok s \<longleftrightarrow> numbered (originated s) \<and> (g_isGateway s \<longrightarrow> g_outQueue s = None) \<and>
     (if g_outQueue s = None then originated s = []
      else g_localSeq s = of_nat (length (originated s)) \<and>
           g_localStream s = of_nat (length (originated s) mod unat kVideoStreamsPerNode))"

definition calm :: "'q node \<Rightarrow> 'q node \<Rightarrow> bool" where
  "calm s s' \<longleftrightarrow> g_nodeId s' = g_nodeId s \<and> g_isGateway s' = g_isGateway s \<and>
     originated s' = originated s \<and> g_localSeq s' = g_localSeq s \<and>
     g_localStream s' = g_localStream s \<and> (g_outQueue s' = None \<longleftrightarrow> g_outQueue s = None)"

lemma calm_seq_ok: "calm s s' \<Longrightarrow> seq_ok s \<Longrightarrow> seq_ok s'"
  by (simp add: calm_def seq_ok_def)

lemma calm_refl [simp]: "calm s s"
  by (simp add: calm_def)

lemma calm_trans: "calm s s' \<Longrightarrow> calm s' s'' \<Longrightarrow> calm s s''"
  by (simp add: calm_def)

lemma calm_emit: "tried_of [c] = [] \<Longrightarrow> calm s (emit c s)"
  by (simp add: calm_def emit_def originated_def trace)

lemma calm_hello: "calm s (loop_hello now s)"
  by (simp add: loop_hello_def broadcastHello_def emit_def calm_def originated_def trace)

lemma calm_send: "calm s (loop_send Q now s)"
  by (simp add: loop_send_def retransmit_def outQueueReceive_def beginForwarding_def sendStatus_def
      emit_def calm_def originated_def trace Let_def split: option.split)

lemma calm_handleHello: "calm s (handleHello m h s)"
  by (simp add: handleHello_def learnNext_def learnPrev_def emit_def calm_def originated_def trace Let_def)

lemma calm_handleAck: "calm s (handleAck m a s)"
  by (simp add: handleAck_def calm_def originated_def)

lemma calm_setLane: "calm s (setLaneStatus sid oc pl s)"
  by (simp add: setLaneStatus_def calm_def originated_def)

lemma calm_handleStatus: "origin_node_id p \<noteq> g_nodeId s \<Longrightarrow> calm s (handleStatus Q m p s)"
  by (simp add: handleStatus_def sendAck_def noteAccepted_def outQueueSend_def emit_def calm_def
      originated_def trace Let_def split: option.split)

lemma numbered_snoc:
  "numbered ps \<Longrightarrow> seq p = of_nat (length ps) \<Longrightarrow>
     stream_id p = of_nat (length ps mod unat kVideoStreamsPerNode) \<Longrightarrow> numbered (ps @ [p])"
  by (simp add: numbered_def)

text \<open>A due local tick of a relay numbers one more reading.\<close>

lemma localPacket_fields:
  "origin_node_id (localPacket now s) = g_nodeId s"
  "stream_id (localPacket now s) = g_localStream s"
  "seq (localPacket now s) = g_localSeq s"
  by (simp_all add: localPacket_def StatusPacket0_def Let_def)

lemma next_stream:
  "of_nat ((unat (of_nat (k mod unat kVideoStreamsPerNode) :: u8) + 1) mod unat kVideoStreamsPerNode) =
     (of_nat (Suc k mod unat kVideoStreamsPerNode) :: u8)"
proof -
  have "unat (of_nat (k mod 3) :: u8) = k mod 3"
    by (simp add: unat_of_nat)
  then show ?thesis by (simp add: config_defs mod_Suc_eq)
qed

lemma seq_ok_local:
  assumes "seq_ok s"
  shows "seq_ok (loop_local Q now s)"
proof (cases "kStatusLocalIntervalMs \<le> nowMs (now LocalDue) - g_lastLocalMs s")
  case False
  with assms show ?thesis by (simp add: loop_local_def)
next
  case due: True
  show ?thesis
  proof (cases "g_isGateway s \<or> g_outQueue s = None")
    case True
    then show ?thesis
      using assms due
      by (auto simp: seq_ok_def loop_local_def outQueueSend_def emit_def originated_def trace Let_def)
  next
    case False
    let ?p = "localPacket now (s\<lparr>g_lastLocalMs := nowMs (now LocalSent)\<rparr>)"
    have "originated (loop_local Q now s) = originated s @ [?p]"
      "g_outQueue (loop_local Q now s) \<noteq> None" "\<not> g_isGateway (loop_local Q now s)"
      "g_localSeq (loop_local Q now s) = g_localSeq s + 1"
      "g_localStream (loop_local Q now s) =
         of_nat ((unat (g_localStream s) + 1) mod unat kVideoStreamsPerNode)"
      using False due
      by (auto simp: loop_local_def outQueueSend_def emit_def originated_def trace Let_def
          localPacket_fields split: option.split)
    moreover have "numbered (originated s @ [?p])"
      using assms False by (intro numbered_snoc) (auto simp: seq_ok_def localPacket_fields)
    ultimately show ?thesis
      using assms False next_stream [of "length (originated s)"] by (simp add: seq_ok_def)
  qed
qed

lemma seq_ok_body: "seq_ok s \<Longrightarrow> seq_ok (loop_body Q now s)"
  by (simp add: loop_body_def Let_def seq_ok_local calm_seq_ok [OF calm_hello] calm_seq_ok [OF calm_send])

lemma seq_ok_init: "seq_ok (chain_init Q now i n node0)"
  by (simp add: seq_ok_def numbered_def chain_init_def broadcastHello_def emit_def node0_def
      originated_def Let_def)

section \<open>Counters\<close>

definition stats_ok :: "'q node \<Rightarrow> bool" where
  "stats_ok s \<longleftrightarrow> of_nat (length (accepted s)) = g_statIn s \<and>
     (if g_isGateway s
      then g_statLocal s + g_statIn s = g_statSunk s \<and> of_nat (length (flushed s)) = g_statSunk s \<and>
           sent s = [] \<and> g_statForwarded s = 0 \<and> g_state s \<noteq> kForwarding \<and> g_outQueue s = None
      else of_nat (length (sent s)) = g_statForwarded s + (if g_state s = kForwarding then 1 else 0) \<and>
           (g_outQueue s \<noteq> None \<longrightarrow> of_nat (length (originated s)) = g_statLocal s \<and>
              of_nat (length (refused_of (calls s))) = g_statQueueDrops s))"

lemmas stats_defs = stats_ok_def accepted_def relayed_def originated_def

lemma stats_init: "stats_ok (chain_init Q now i n node0)"
  by (simp add: stats_defs chain_init_def broadcastHello_def emit_def node0_def trace Let_def)

lemma stats_hello: "stats_ok s \<Longrightarrow> stats_ok (loop_hello now s)"
  by (auto simp: stats_defs loop_hello_def broadcastHello_def emit_def trace split: if_splits)

lemma stats_local: "stats_ok s \<Longrightarrow> stats_ok (loop_local Q now s)"
  by (auto simp: stats_defs loop_local_def outQueueSend_def emit_def trace localPacket_fields Let_def
      split: option.splits if_splits)

lemma stats_send: "stats_ok s \<Longrightarrow> \<not> g_isGateway s \<Longrightarrow> stats_ok (loop_send Q now s)"
  by (auto simp: stats_defs loop_send_def retransmit_def outQueueReceive_def beginForwarding_def
      sendStatus_def emit_def trace Let_def split: option.splits if_splits)

lemma stats_body: "stats_ok s \<Longrightarrow> stats_ok (loop_body Q now s)"
  by (simp add: loop_body_def Let_def stats_hello stats_local stats_send)

lemma stats_emit:
  "stats_ok s \<Longrightarrow> enq_of [c] = [] \<Longrightarrow> sent_of [c] = [] \<Longrightarrow> flushed_of [c] = [] \<Longrightarrow>
     tried_of [c] = [] \<Longrightarrow> refused_of [c] = [] \<Longrightarrow> stats_ok (emit c s)"
  by (simp add: stats_defs emit_def trace split: if_splits)

text \<open>Discovery touches no counter.\<close>

lemma stats_same:
  assumes "stats_ok s" and "g_nodeId s' = g_nodeId s" "g_isGateway s' = g_isGateway s"
    "g_statLocal s' = g_statLocal s" "g_statIn s' = g_statIn s" "g_statForwarded s' = g_statForwarded s"
    "g_statSunk s' = g_statSunk s" "g_statQueueDrops s' = g_statQueueDrops s"
    "g_outQueue s' = g_outQueue s" "g_state s' = kForwarding \<longleftrightarrow> g_state s = kForwarding"
    "calls s' = calls s"
  shows "stats_ok s'"
proof -
  have "stats_ok s' = stats_ok s"
    unfolding stats_defs enqueued_def sent_def flushed_def assms(2-) ..
  with assms(1) show ?thesis by simp
qed

lemma stats_learnNext: "stats_ok s \<Longrightarrow> stats_ok (learnNext m h s)"
  using stats_same [OF stats_emit [of s "EspAddPeer m"], where s' = "learnNext m h s"]
  by (cases "learnNext m h s = s") (auto simp: learnNext_def emit_def split: if_splits)

lemma stats_learnPrev: "stats_ok s \<Longrightarrow> stats_ok (learnPrev m h s)"
  using stats_same [OF stats_emit [of s "EspAddPeer m"], where s' = "learnPrev m h s"]
  by (cases "learnPrev m h s = s") (auto simp: learnPrev_def emit_def split: if_splits)

lemma stats_handleHello: "stats_ok s \<Longrightarrow> stats_ok (handleHello m h s)"
  using stats_learnPrev [OF stats_learnNext, of s m h m h]
  by (auto simp: handleHello_def Let_def intro: stats_same [of "learnPrev m h (learnNext m h s)"])

lemma stats_handleAck: "stats_ok s \<Longrightarrow> stats_ok (handleAck m a s)"
  by (auto simp: stats_defs handleAck_def trace split: if_splits)

lemma stats_setLane: "stats_ok s \<Longrightarrow> stats_ok (setLaneStatus sid oc pl s)"
  by (auto simp: stats_defs setLaneStatus_def trace)

lemma stats_handleStatus:
  "stats_ok s \<Longrightarrow> origin_node_id p \<noteq> g_nodeId s \<Longrightarrow> stats_ok (handleStatus Q m p s)"
  by (auto simp: stats_defs handleStatus_def sendAck_def noteAccepted_def outQueueSend_def emit_def
      trace Let_def split: option.splits if_splits)

section \<open>Invariants of one node\<close>

context chain
begin

lemma recv_elim:
  assumes ok: "ok i s" and "i < N" "y < N" and f: "frame_ok N y i f"
    and hello: "\<And>h. P (handleHello (macs y) h s)" and ack: "\<And>a. P (handleAck (macs y) a s)"
    and status: "\<And>p. origin_node_id p \<noteq> g_nodeId s \<Longrightarrow> P (handleStatus Q (macs y) p s)"
  shows "P (onEspNowRecv Q (macs y) f s)"
proof -
  from f consider
      (hello) h where "f = enc_hello h" "hello_type h = kPktHello"
    | (status) p where "f = enc_status p" "pkt_ok y p" "y \<noteq> 0" "i = nxt N y"
    | (ack) a where "f = enc_ack a" "ack_type a = kPktAck"
    unfolding frame_ok_def by blast
  then show ?thesis
  proof cases
    case hello
    then show ?thesis
      using assms(5) by (simp add: onEspNowRecv_def enc_first sizeof_Hello_def Suc_le_eq)
  next
    case status
    have "origin_node_id p \<noteq> of_nat i"
    proof (cases "Suc y = N")
      case True
      then have "i = 0" using status by (simp add: nxt_def)
      then show ?thesis using status by (auto simp: pkt_ok_def)
    next
      case False
      then have "y < i" using status \<open>y < N\<close> by (simp add: nxt_def)
      then show ?thesis using status \<open>i < N\<close> by (intro relay_origin)
    qed
    then show ?thesis
      using status assms(7) ok
      by (simp add: onEspNowRecv_def enc_first pkt_ok_def node_ok_def ids_ok_def pkt_type_defs sizeof_Status_def)
  next
    case ack
    then show ?thesis
      using assms(6) by (simp add: onEspNowRecv_def enc_first sizeof_Ack_def Suc_le_eq pkt_type_defs)
  qed
qed

lemma reach_node:
  assumes reach: "net_reach Q N macs n" and i: "i < N"
    and boot: "\<And>now. P (chain_init Q now (of_nat i) (of_nat N) node0)"
    and tick: "\<And>s now. P s \<Longrightarrow> P (loop_body Q now s)"
    and lane: "\<And>s sid oc pl. P s \<Longrightarrow> P (setLaneStatus sid oc pl s)"
    and hello: "\<And>s m h. P s \<Longrightarrow> P (handleHello m h s)"
    and ack: "\<And>s m a. P s \<Longrightarrow> P (handleAck m a s)"
    and status: "\<And>s m p. P s \<Longrightarrow> origin_node_id p \<noteq> g_nodeId s \<Longrightarrow> P (handleStatus Q m p s)"
  shows "P (nodes n i)"
  using reach
proof (induction rule: net_reach.induct)
  case (boot bt)
  then show ?case using assms(3) by (simp add: net0_def Let_def)
next
  case (step n n')
  have inv: "net_inv n" using step.hyps(1) by (rule net_reach_inv)
  from step.hyps(2) step.IH inv show ?case
  proof (induction rule: net_step.induct)
    case (deliver y x n f fs)
    have "P (onEspNowRecv Q (macs y) f (nodes n x))" if "x = i"
    proof (rule recv_elim [of x])
      show "ok x (nodes n x)" "frame_ok N y x f"
        using deliver by (simp_all add: net_inv_def)
      have p: "P (nodes n x)" using deliver that by simp
      show "P (handleHello (macs y) h (nodes n x))" for h using p by (rule hello)
      show "P (handleAck (macs y) a (nodes n x))" for a using p by (rule ack)
      show "P (handleStatus Q (macs y) p (nodes n x))" if "origin_node_id p \<noteq> g_nodeId (nodes n x)" for p
        using p that by (rule status)
    qed (use deliver in simp_all)
    with deliver.prems show ?case by auto
  qed (auto intro: tick lane)
qed

lemma reach_seq_ok: "net_reach Q N macs n \<Longrightarrow> i < N \<Longrightarrow> seq_ok (nodes n i)"
  by (rule reach_node [where P = seq_ok]) (assumption | rule seq_ok_init seq_ok_body
      calm_seq_ok [OF calm_setLane] calm_seq_ok [OF calm_handleHello] calm_seq_ok [OF calm_handleAck]
      calm_seq_ok [OF calm_handleStatus])+

lemma reach_stats_ok: "net_reach Q N macs n \<Longrightarrow> i < N \<Longrightarrow> stats_ok (nodes n i)"
  by (rule reach_node [where P = stats_ok]) (assumption | rule stats_init stats_body stats_setLane
      stats_handleHello stats_handleAck stats_handleStatus)+

end

section \<open>Few readings never share a sequence number\<close>

lemma numbered_distinct:
  assumes "numbered ps" and "length ps \<le> 65536"
  shows "distinct (map seq ps)"
proof -
  have "inj_on (of_nat :: nat \<Rightarrow> u16) (set [0..<length ps])"
  proof (rule inj_onI)
    fix a b assume ab: "a \<in> set [0..<length ps]" "b \<in> set [0..<length ps]" "(of_nat a :: u16) = of_nat b"
    then have "a < 2 ^ 16" "b < 2 ^ 16" using assms(2) by auto
    then have "unat (of_nat a :: u16) = a" "unat (of_nat b :: u16) = b"
      by (simp_all add: unat_of_nat)
    with ab(3) show "a = b" by metis
  qed
  then show ?thesis
    using assms(1) by (simp add: numbered_def distinct_map)
qed

lemma own_seq_adj:
  assumes "seq_ok s" and "length (originated s) \<le> 65536"
  shows "distinct_adj (map seq (own_enqueued s))"
proof -
  have "distinct (map seq (originated s))"
    using assms by (intro numbered_distinct) (simp_all add: seq_ok_def)
  then have "distinct (map seq (own_enqueued s))"
    using own_enqueued_subseq [of s] by (meson subseq_map distinct_subseq)
  then show ?thesis by (rule distinct_neighbours)
qed

end
