(* ===== verification/ChainTime.thy ===== *)
theory ChainTime
  imports ChainRun ChainCounts
begin

text \<open>
  The chain with honest clocks. Every board has its own uptime, which only goes forward: the
  clock readings of a pass (\<open>clock_site\<close>, in the order of the code) come one after the other
  and after those of all earlier passes. \<open>timed_reach\<close> are the networks that occur under such
  clocks, and \<open>stamped\<close> is what they add to the invariant of a node: its time stamps were read
  from its own clock in the past, and a packet that waits for its acknowledgement is armed
  300 ms after such a reading.
\<close>

section \<open>Milliseconds\<close>

lemma uint_nowMs: "uint (nowMs t) = (t div 1000) mod 2 ^ 32"
  by (simp add: nowMs_def uint_word_of_int)

lemma uint_nowMs_small: "0 \<le> t \<Longrightarrow> t div 1000 < 2 ^ 32 \<Longrightarrow> uint (nowMs t) = t div 1000"
  by (simp add: uint_nowMs)

text \<open>The time between two readings, and a deadline, while the 32-bit count has not wrapped.\<close>

lemma elapsed:
  assumes "0 \<le> h" and "h \<le> e" and "e div 1000 < 2 ^ 32"
  shows "uint (nowMs e - nowMs h) = e div 1000 - h div 1000"
proof -
  have h: "h div 1000 \<le> e div 1000" "0 \<le> h div 1000" using assms by (simp_all add: zdiv_mono1)
  then have "uint (nowMs h) \<le> uint (nowMs e)" using assms by (simp add: uint_nowMs)
  then have "uint (nowMs e - nowMs h) = uint (nowMs e) - uint (nowMs h)"
    by (simp add: uint_sub_lem [THEN iffD1])
  then show ?thesis using assms h by (simp add: uint_nowMs)
qed

lemma uint_deadline:
  "0 \<le> d \<Longrightarrow> d div 1000 + 300 < 2 ^ 32 \<Longrightarrow> uint (nowMs d + kAckTimeoutMs) = d div 1000 + 300"
  by (simp add: uint_word_ariths uint_nowMs config_defs)

section \<open>Honest clocks\<close>

definition in_order :: "int \<Rightarrow> clock \<Rightarrow> bool" where
  "in_order t now \<longleftrightarrow> sorted (t # map now [HelloDue, HelloSent, LocalDue, LocalSent, SelfTestPhase,
     AckDue, WarnDue, WarnSent, RetxDeadline, FwdDeadline])"

fun on_time :: "net_event \<Rightarrow> (nat \<Rightarrow> int) \<Rightarrow> bool" where
  "on_time (Tick x now) T \<longleftrightarrow> in_order (T x) now"
| "on_time _ T \<longleftrightarrow> True"

fun clock_after :: "net_event \<Rightarrow> (nat \<Rightarrow> int) \<Rightarrow> nat \<Rightarrow> int" where
  "clock_after (Tick x now) T = T(x := now FwdDeadline)"
| "clock_after _ T = T"

inductive timed_step ::
  "(StatusPacket, 'q) queue_ops \<Rightarrow> nat \<Rightarrow> (nat \<Rightarrow> mac) \<Rightarrow>
     'q net \<times> (nat \<Rightarrow> int) \<Rightarrow> 'q net \<times> (nat \<Rightarrow> int) \<Rightarrow> bool"
  for Q N macs where
  event: "on_time ev T \<Longrightarrow> timed_step Q N macs (n, T) (net_exec Q N macs ev n, clock_after ev T)"

inductive timed_reach ::
  "(StatusPacket, 'q) queue_ops \<Rightarrow> nat \<Rightarrow> (nat \<Rightarrow> mac) \<Rightarrow> 'q net \<times> (nat \<Rightarrow> int) \<Rightarrow> bool"
  for Q N macs where
  power_on: "(\<And>i. 0 \<le> bt i HelloSent \<and> bt i HelloSent \<le> T i) \<Longrightarrow> timed_reach Q N macs (net0 Q N macs bt, T)"
| later: "timed_reach Q N macs w \<Longrightarrow> timed_step Q N macs w w' \<Longrightarrow> timed_reach Q N macs w'"

inductive_cases timed_stepE: "timed_step Q N macs w w'"

lemma timed_is_net: "timed_step Q N macs w w' \<Longrightarrow> fst w' = fst w \<or> net_step Q N macs (fst w) (fst w')"
  by (erule timed_stepE) (use net_exec_step [of Q N macs] in \<open>metis fst_conv\<close>)

lemma timed_steps_net: "(timed_step Q N macs)\<^sup>*\<^sup>* w w' \<Longrightarrow> (net_step Q N macs)\<^sup>*\<^sup>* (fst w) (fst w')"
  by (induction rule: rtranclp_induct) (auto dest!: timed_is_net intro: rtranclp.rtrancl_into_rtrancl)

lemma timed_net: "timed_reach Q N macs w \<Longrightarrow> net_reach Q N macs (fst w)"
  by (induction rule: timed_reach.induct) (auto dest!: timed_is_net intro: net_reach.boot net_reach.step)

lemma timed_steps_reach:
  "(timed_step Q N macs)\<^sup>*\<^sup>* w w' \<Longrightarrow> timed_reach Q N macs w \<Longrightarrow> timed_reach Q N macs w'"
  by (induction rule: rtranclp_induct) (auto intro: timed_reach.later)

text \<open>A run of events with honest clocks, and the clocks after it.\<close>

fun all_on_time :: "net_event list \<Rightarrow> (nat \<Rightarrow> int) \<Rightarrow> bool" where
  "all_on_time [] T \<longleftrightarrow> True"
| "all_on_time (ev # evs) T \<longleftrightarrow> on_time ev T \<and> all_on_time evs (clock_after ev T)"

lemma timed_run:
  "timed_reach Q N macs (n, T) \<Longrightarrow> all_on_time evs T \<Longrightarrow>
     timed_reach Q N macs (fold (net_exec Q N macs) evs n, fold clock_after evs T)"
proof (induction evs arbitrary: n T)
  case (Cons ev evs)
  then show ?case
    using timed_reach.later [OF Cons.prems(1) timed_step.event [of ev T Q N macs n]] by simp
qed simp

section \<open>Time stamps\<close>

definition read_by :: "int \<Rightarrow> u32 \<Rightarrow> bool" where
  "read_by t w \<longleftrightarrow> (\<exists>h. 0 \<le> h \<and> h \<le> t \<and> w = nowMs h)"

definition stamped :: "int \<Rightarrow> 'q node \<Rightarrow> bool" where
  "stamped t s \<longleftrightarrow> read_by t (g_lastHelloMs s) \<and> read_by t (g_lastLocalMs s) \<and>
     (g_state s = kForwarding \<longrightarrow> read_by t (g_ackDeadlineMs s - kAckTimeoutMs))"

lemma read_by_mono: "read_by t w \<Longrightarrow> t \<le> t' \<Longrightarrow> read_by t' w"
  unfolding read_by_def by (blast intro: order_trans)

lemma read_by_now: "0 \<le> h \<Longrightarrow> h \<le> t \<Longrightarrow> read_by t (nowMs h)"
  unfolding read_by_def by blast

lemma stamped_mono: "stamped t s \<Longrightarrow> t \<le> t' \<Longrightarrow> stamped t' s"
  unfolding stamped_def by (blast intro: read_by_mono)

lemma stamped_same:
  assumes "stamped t s" and "g_lastHelloMs s' = g_lastHelloMs s" "g_lastLocalMs s' = g_lastLocalMs s"
    and "g_state s' = kForwarding \<Longrightarrow> g_state s = kForwarding \<and> g_ackDeadlineMs s' = g_ackDeadlineMs s"
  shows "stamped t s'"
  using assms by (auto simp: stamped_def)

text \<open>The handlers of frames and lane readings take no time stamps, and never begin to wait.\<close>

definition untimed :: "'q node \<Rightarrow> 'q node \<Rightarrow> bool" where
  "untimed s s' \<longleftrightarrow> g_lastHelloMs s' = g_lastHelloMs s \<and> g_lastLocalMs s' = g_lastLocalMs s \<and>
     g_ackDeadlineMs s' = g_ackDeadlineMs s \<and> (g_state s' = kForwarding \<longrightarrow> g_state s = kForwarding)"

lemma untimed_handlers:
  "untimed s (handleHello m h s)" "untimed s (handleStatus Q m p s)" "untimed s (handleAck m a s)"
  "untimed s (setLaneStatus sid oc pl s)"
  by (auto simp: untimed_def handleHello_def learnNext_def learnPrev_def handleStatus_def sendAck_def noteAccepted_def
      outQueueSend_def handleAck_def setLaneStatus_def emit_def Let_def split: option.split)

lemma untimed_recv: "untimed s (onEspNowRecv Q m f s)"
  using untimed_handlers [of s] by (auto simp: onEspNowRecv_def) (simp add: untimed_def)+

lemma stamped_untimed: "stamped t s \<Longrightarrow> untimed s s' \<Longrightarrow> stamped t s'"
  by (rule stamped_same) (auto simp: untimed_def)

lemma hello_stamps:
  "g_lastHelloMs (loop_hello now s) = g_lastHelloMs s \<or> g_lastHelloMs (loop_hello now s) = nowMs (now HelloSent)"
  "g_lastLocalMs (loop_hello now s) = g_lastLocalMs s" "g_ackDeadlineMs (loop_hello now s) = g_ackDeadlineMs s"
  "g_state (loop_hello now s) = g_state s"
  by (simp_all add: loop_hello_def broadcastHello_def emit_def)

lemma local_stamps:
  "g_lastLocalMs (loop_local Q now s) = g_lastLocalMs s \<or> g_lastLocalMs (loop_local Q now s) = nowMs (now LocalSent)"
  "g_lastHelloMs (loop_local Q now s) = g_lastHelloMs s" "g_ackDeadlineMs (loop_local Q now s) = g_ackDeadlineMs s"
  "g_state (loop_local Q now s) = g_state s"
  by (simp_all add: loop_local_def outQueueSend_def emit_def Let_def split: option.split)

lemma send_stamps:
  "g_lastHelloMs (loop_send Q now s) = g_lastHelloMs s" "g_lastLocalMs (loop_send Q now s) = g_lastLocalMs s"
  "g_ackDeadlineMs (loop_send Q now s) \<in> {nowMs (now RetxDeadline) + kAckTimeoutMs, nowMs (now FwdDeadline) + kAckTimeoutMs} \<or>
   (g_ackDeadlineMs (loop_send Q now s) = g_ackDeadlineMs s \<and> g_state (loop_send Q now s) = g_state s)"
  by (simp_all add: loop_send_def retransmit_def outQueueReceive_def beginForwarding_def sendStatus_def
      emit_def Let_def split: option.split)

lemma stamped_hello:
  assumes "stamped t s" and "0 \<le> now HelloSent" "t \<le> now HelloSent"
  shows "stamped (now HelloSent) (loop_hello now s)"
  using stamped_mono [OF assms(1,3)] hello_stamps(1) [of now s] read_by_now [OF assms(2) order_refl]
  by (auto simp: stamped_def hello_stamps(2-4))

lemma stamped_local:
  assumes "stamped t s" and "0 \<le> now LocalSent" "t \<le> now LocalSent"
  shows "stamped (now LocalSent) (loop_local Q now s)"
  using stamped_mono [OF assms(1,3)] local_stamps(1) [of Q now s] read_by_now [OF assms(2) order_refl]
  by (auto simp: stamped_def local_stamps(2-4))

lemma stamped_send:
  assumes "stamped t s" and "0 \<le> now RetxDeadline" "now RetxDeadline \<le> now FwdDeadline" "t \<le> now FwdDeadline"
  shows "stamped (now FwdDeadline) (loop_send Q now s)"
  using stamped_mono [OF assms(1,4)] send_stamps(3) [of Q now s] read_by_now [OF assms(2,3)]
    read_by_now [OF order_trans [OF assms(2,3)] order_refl]
  by (auto simp: stamped_def send_stamps(1,2))

lemma stamped_body:
  assumes "stamped t s" and "0 \<le> t" and "in_order t now"
  shows "stamped (now FwdDeadline) (loop_body Q now s)"
proof -
  have o: "t \<le> now HelloSent" "now HelloSent \<le> now LocalSent" "now LocalSent \<le> now FwdDeadline"
      "0 \<le> now RetxDeadline" "now RetxDeadline \<le> now FwdDeadline"
    using assms(2,3) by (auto simp: in_order_def)
  have 1: "stamped (now HelloSent) (loop_hello now s)"
    using assms o by (intro stamped_hello) auto
  have 2: "stamped (now LocalSent) (loop_local Q now (loop_hello now s))"
    using assms(2) o by (intro stamped_local [OF 1]) auto
  have 3: "stamped (now FwdDeadline) (loop_send Q now (loop_local Q now (loop_hello now s)))"
    by (rule stamped_send [OF 2 o(4,5,3)])
  show ?thesis
    using stamped_mono [OF 1, of "now FwdDeadline"] stamped_mono [OF 2 o(3)] 3 o
    by (simp add: loop_body_def Let_def)
qed

lemma timed_stamped:
  assumes "timed_reach Q N macs w"
  shows "0 \<le> snd w i \<and> stamped (snd w i) (nodes (fst w) i)"
  using assms
proof (induction rule: timed_reach.induct)
  case (power_on bt T)
  have "stamped (T i) (chain_init Q (bt i) (of_nat i) (of_nat N) node0)"
    using power_on [of i] read_by_now [of "bt i HelloSent" "T i"] read_by_now [of 0 "T i"]
    by (simp add: stamped_def chain_init_def broadcastHello_def emit_def node0_def nowMs_def Let_def)
  then show ?case using power_on [of i] by (simp add: net0_def Let_def)
next
  case (later w w')
  obtain n T where w: "w = (n, T)" by (cases w)
  from later.hyps(2) obtain ev where ev: "on_time ev T" "w' = (net_exec Q N macs ev n, clock_after ev T)"
    unfolding w by (auto elim: timed_stepE)
  have IH: "0 \<le> T i" "stamped (T i) (nodes n i)" using later.IH w by auto
  show ?case
  proof (cases ev)
    case (Tick x now)
    have "T x \<le> now FwdDeadline" using ev(1) Tick by (auto simp: in_order_def)
    then show ?thesis
      using IH ev Tick stamped_body [of "T i" "nodes n i" now Q] stamped_mono [of "T i" "nodes n i" "now FwdDeadline"]
      by (auto simp: update_node_def Let_def)
  next
    case (Lane x sid oc pl)
    then show ?thesis
      using IH ev stamped_untimed [OF IH(2) untimed_handlers(4)] by (auto simp: update_node_def Let_def)
  next
    case (Deliver y x)
    then show ?thesis
      using IH ev stamped_untimed [OF IH(2) untimed_recv]
      by (cases "air n y x") (auto simp: update_node_def Let_def)
  qed (use IH ev in auto)
qed

end
