(* ===== verification/ChainDrain.thy ===== *)
theory ChainDrain
  imports ChainTime
begin

text \<open>
  The chain is never wedged: from every network reachable with honest clocks, whatever is in
  flight, there is a continuation in which every station finds its neighbours and every
  queued reading reaches the Gateway, and in which no board's clock moves on by more than
  5.3 seconds. The frames in flight are given up as lost; then every board makes a pass five
  seconds later, at which its HELLO and a reading are due, hears its neighbours, and makes
  another pass. From 300 ms after that on every packet that waits is due for
  retransmission, and the relays are emptied one after the other by exchanges: a
  transmission, its delivery to the next station and the delivery of the acknowledgement.
\<close>

section \<open>What a station keeps on the way\<close>

definition stays :: "'q node \<Rightarrow> 'q node \<Rightarrow> bool" where
  "stays s s' \<longleftrightarrow> calm s s' \<and> own_enqueued s' = own_enqueued s \<and>
     (g_state s \<noteq> kDiscovering \<longrightarrow> g_state s' \<noteq> kDiscovering) \<and>
     (g_nextKnown s \<longrightarrow> g_nextKnown s') \<and> (g_prevKnown s \<longrightarrow> g_prevKnown s')"

lemma stays_refl [simp]: "stays s s"
  by (simp add: stays_def)

lemma stays_trans: "stays s s' \<Longrightarrow> stays s' s'' \<Longrightarrow> stays s s''"
  using calm_trans [of s s' s''] by (simp add: stays_def)

lemma stays_emit: "tried_of [c] = [] \<Longrightarrow> enq_of [c] = [] \<Longrightarrow> stays s (emit c s)"
  using calm_emit [of c s] by (simp add: stays_def) (simp add: emit_def own_enqueued_def trace)

lemma stays_hello: "stays s (loop_hello now s)"
  using calm_hello [of s now]
  by (simp add: stays_def) (simp add: loop_hello_def broadcastHello_def emit_def own_enqueued_def trace)

lemma stays_send: "g_state s \<noteq> kDiscovering \<Longrightarrow> stays s (loop_send Q now s)"
  using calm_send [of s Q now]
  by (simp add: stays_def)
    (simp add: loop_send_def retransmit_def outQueueReceive_def beginForwarding_def sendStatus_def
      emit_def own_enqueued_def trace Let_def split: option.split)

lemma stays_handleHello: "stays s (handleHello m h s)"
  using calm_handleHello [of s m h]
  by (simp add: stays_def)
    (simp add: handleHello_def learnNext_def learnPrev_def emit_def own_enqueued_def trace Let_def)

lemma stays_handleAck: "stays s (handleAck m a s)"
  using calm_handleAck [of s m a] by (simp add: stays_def) (simp add: handleAck_def own_enqueued_def trace)

lemma stays_handleStatus: "origin_node_id p \<noteq> g_nodeId s \<Longrightarrow> stays s (handleStatus Q m p s)"
  using calm_handleStatus [of p s Q m]
  by (simp add: stays_def)
    (simp add: handleStatus_def sendAck_def noteAccepted_def outQueueSend_def emit_def own_enqueued_def
      trace Let_def split: option.split)

text \<open>What it keeps in a pass that may take readings of its own, at most \<open>k\<close> of them.\<close>

definition onward :: "nat \<Rightarrow> 'q node \<Rightarrow> 'q node \<Rightarrow> bool" where
  "onward k s s' \<longleftrightarrow> g_nodeId s' = g_nodeId s \<and> g_isGateway s' = g_isGateway s \<and>
     (g_outQueue s' = None \<longleftrightarrow> g_outQueue s = None) \<and> prefix (own_enqueued s) (own_enqueued s') \<and>
     length (originated s') \<le> length (originated s) + k \<and>
     (g_state s \<noteq> kDiscovering \<longrightarrow> g_state s' \<noteq> kDiscovering)"

lemma stays_onward: "stays s s' \<Longrightarrow> onward 0 s s'"
  by (simp add: stays_def calm_def onward_def)

lemma onward_trans: "onward j s s' \<Longrightarrow> onward k s' s'' \<Longrightarrow> onward (j + k) s s''"
  by (auto simp: onward_def intro: prefix_order.trans)

lemma onward_local: "onward 1 s (loop_local Q now s)"
  by (auto simp: onward_def loop_local_def outQueueSend_def emit_def own_enqueued_def originated_def trace
      localPacket_fields Let_def split: option.split)

lemma onward_body: "onward 1 s (loop_body Q now s)"
proof -
  note h = stays_onward [OF stays_hello [of s now]]
  note hl = onward_trans [OF h onward_local [of "loop_hello now s" Q now]]
  show ?thesis
  proof (cases "g_state (loop_hello now s) = kDiscovering")
    case True
    then show ?thesis using h by (simp add: loop_body_def onward_def)
  next
    case False
    then have "g_state (loop_local Q now (loop_hello now s)) \<noteq> kDiscovering" by (simp add: local_stamps)
    from stays_onward [OF stays_send [OF this, of Q now]] show ?thesis
      using False hl onward_trans [OF hl] by (auto simp: loop_body_def Let_def)
  qed
qed

section \<open>Passes at one moment\<close>

definition frozen :: "int \<Rightarrow> clock" where
  "frozen e = (\<lambda>_. e)"

lemma frozen_in_order: "in_order t (frozen e) \<longleftrightarrow> t \<le> e"
  by (simp add: in_order_def frozen_def)

lemma frozen_site [simp]: "frozen e site = e"
  by (simp add: frozen_def)

text \<open>Five seconds after its last stamps a board has its HELLO and a reading due.\<close>

lemma all_due:
  assumes "read_by t w" and "t + 5000000 \<le> e" and "e div 1000 < 2 ^ 32"
  shows "5000 \<le> nowMs e - w"
proof -
  obtain h where h: "0 \<le> h" "h \<le> t" "w = nowMs h" using assms(1) by (auto simp: read_by_def)
  have "h div 1000 + 5000 \<le> e div 1000"
    using h assms(2) zdiv_mono1 [of "h + 5000 * 1000" e 1000] by simp
  then show ?thesis
    using h assms elapsed [of h e] by (simp add: word_le_def)
qed

lemma helloInterval_le: "helloInterval s \<le> 5000"
  by (simp add: helloInterval_def config_defs)

abbreviation own_hello :: "'q node \<Rightarrow> HelloPacket" where
  "own_hello s \<equiv> HelloPacket0\<lparr>hello_node_id := g_nodeId s, hello_chain_size := g_chainSize s\<rparr>"

lemma local_send_calls: "\<exists>cs. calls (loop_local Q now s) = calls s @ cs" "\<exists>cs. calls (loop_send Q now s) = calls s @ cs"
  by (simp_all add: loop_local_def outQueueSend_def loop_send_def retransmit_def outQueueReceive_def beginForwarding_def
      sendStatus_def emit_def Let_def split: option.split)

lemma body_stamps:
  "g_lastHelloMs (loop_body Q now s) = g_lastHelloMs (loop_hello now s)"
  "g_lastLocalMs (loop_body Q now s) =
     (if g_state s = kDiscovering then g_lastLocalMs s else g_lastLocalMs (loop_local Q now (loop_hello now s)))"
  by (simp_all add: loop_body_def Let_def hello_stamps(2,4) local_stamps(2) send_stamps(1,2))

lemma first_pass:
  assumes "stamped t s" and "t + 5000000 \<le> e" and "e div 1000 < 2 ^ 32"
  shows "g_lastHelloMs (loop_body Q (frozen e) s) = nowMs e"
    and "g_lastLocalMs (loop_body Q (frozen e) s) = nowMs e \<or> read_by t (g_lastLocalMs (loop_body Q (frozen e) s))"
    and "\<exists>cs. new_calls s (loop_body Q (frozen e) s) = EspBroadcast (enc_hello (own_hello s)) # cs"
proof -
  let ?c = "frozen e" and ?s1 = "loop_hello (frozen e) s"
  have "helloInterval s \<le> nowMs e - g_lastHelloMs s"
    by (rule order_trans [OF helloInterval_le all_due [OF _ assms(2,3)]]) (use assms(1) in \<open>simp add: stamped_def\<close>)
  then have s1: "?s1 = (emit (EspBroadcast (enc_hello (own_hello s))) s)\<lparr>g_lastHelloMs := nowMs e\<rparr>"
    by (simp add: loop_hello_def broadcastHello_def)
  then show "g_lastHelloMs (loop_body Q ?c s) = nowMs e" by (simp add: body_stamps)
  show "g_lastLocalMs (loop_body Q ?c s) = nowMs e \<or> read_by t (g_lastLocalMs (loop_body Q ?c s))"
    using assms(1) local_stamps(1) [of Q ?c ?s1] by (auto simp: body_stamps stamped_def hello_stamps(2))
  obtain cs where "calls (loop_local Q ?c ?s1) = calls ?s1 @ cs" using local_send_calls(1) by blast
  moreover obtain cs' where "calls (loop_send Q ?c (loop_local Q ?c ?s1)) = calls (loop_local Q ?c ?s1) @ cs'"
    using local_send_calls(2) by blast
  ultimately have "\<exists>cs. calls (loop_body Q ?c s) = calls ?s1 @ cs" by (simp add: loop_body_def Let_def)
  then show "\<exists>cs. new_calls s (loop_body Q ?c s) = EspBroadcast (enc_hello (own_hello s)) # cs"
    by (auto simp: new_calls_def s1 emit_def)
qed

lemma second_pass:
  assumes "g_lastHelloMs s = nowMs e" and "g_lastLocalMs s = nowMs e \<or> read_by t (g_lastLocalMs s)"
    and "t + 5000000 \<le> e" and "e div 1000 < 2 ^ 32" and "g_state s \<noteq> kDiscovering"
  shows "g_lastHelloMs (loop_body Q (frozen e) s) = nowMs e" and "g_lastLocalMs (loop_body Q (frozen e) s) = nowMs e"
proof -
  have h: "loop_hello (frozen e) s = s"
    using assms(1) by (simp add: loop_hello_def helloInterval_def config_defs)
  then show "g_lastHelloMs (loop_body Q (frozen e) s) = nowMs e" using assms(1) by (simp add: body_stamps)
  have "g_lastLocalMs (loop_local Q (frozen e) s) = nowMs e"
  proof (cases "g_lastLocalMs s = nowMs e")
    case True
    then show ?thesis using local_stamps(1) [of Q "frozen e" s] by auto
  next
    case False
    then have "5000 \<le> nowMs e - g_lastLocalMs s" using assms(2) by (intro all_due [OF _ assms(3,4)]) simp
    then have "kStatusLocalIntervalMs \<le> nowMs e - g_lastLocalMs s"
      by (rule order_trans [rotated]) (simp add: config_defs)
    then show ?thesis
      by (simp add: loop_local_def outQueueSend_def emit_def Let_def split: option.split)
  qed
  with assms(5) h show "g_lastLocalMs (loop_body Q (frozen e) s) = nowMs e" by (simp add: body_stamps)
qed

text \<open>Between two HELLOs and two readings a relay only sends.\<close>

definition settled :: "int \<Rightarrow> 'q node \<Rightarrow> bool" where
  "settled e s \<longleftrightarrow> g_state s \<noteq> kDiscovering \<and> nowMs e - g_lastHelloMs s < kHelloIdleIntervalMs \<and>
     nowMs e - g_lastLocalMs s < kStatusLocalIntervalMs"

lemma settled_pass:
  assumes "settled e s" and "\<not> g_isGateway s"
  shows "loop_body Q (frozen e) s = loop_send Q (frozen e) s"
proof -
  have "loop_hello (frozen e) s = s" "loop_local Q (frozen e) s = s"
    using assms by (auto simp: settled_def loop_hello_def helloInterval_def loop_local_def not_le)
  with assms show ?thesis by (simp add: loop_body_def settled_def)
qed

lemma settled_same:
  "settled e s \<Longrightarrow> g_lastHelloMs s' = g_lastHelloMs s \<Longrightarrow> g_lastLocalMs s' = g_lastLocalMs s \<Longrightarrow>
     g_state s' \<noteq> kDiscovering \<Longrightarrow> settled e s'"
  by (simp add: settled_def)

text \<open>A packet that waits is due at \<open>e\<close>.\<close>

definition resend_due :: "int \<Rightarrow> 'q node \<Rightarrow> bool" where
  "resend_due e s \<longleftrightarrow> (g_state s = kForwarding \<longrightarrow> g_ackDeadlineMs s \<le> nowMs e)"

text \<open>300 ms after the second pass.\<close>

lemma settled_later:
  assumes "stamped e s" and "0 \<le> e" and "(e + 300000) div 1000 < 2 ^ 32" and "g_state s \<noteq> kDiscovering"
    and "g_lastHelloMs s = nowMs e" and "g_lastLocalMs s = nowMs e"
  shows "settled (e + 300000) s" and "resend_due (e + 300000) s"
proof -
  have d: "(e + 300000) div 1000 = e div 1000 + 300" by simp
  have "uint (nowMs (e + 300000) - nowMs e) = 300"
    using elapsed [of e "e + 300000"] assms(2,3) d by simp
  then show "settled (e + 300000) s"
    using assms(4-6) by (simp add: settled_def word_less_def config_defs)
  show "resend_due (e + 300000) s"
    unfolding resend_due_def
  proof
    assume "g_state s = kForwarding"
    with assms(1) obtain h where h: "0 \<le> h" "h \<le> e" "g_ackDeadlineMs s = nowMs h + kAckTimeoutMs"
      by (auto simp: stamped_def read_by_def diff_eq_eq)
    then have "h div 1000 \<le> e div 1000" by (simp add: zdiv_mono1)
    then have "uint (g_ackDeadlineMs s) = h div 1000 + 300" "uint (nowMs (e + 300000)) = e div 1000 + 300"
      using h assms(2,3) d uint_deadline [of h] uint_nowMs_small [of "e + 300000"] by simp_all
    with \<open>h div 1000 \<le> e div 1000\<close> show "g_ackDeadlineMs s \<le> nowMs (e + 300000)"
      by (simp add: word_le_def)
  qed
qed

section \<open>Continuations\<close>

context chain
begin

abbreviation tsteps :: "'q net \<times> (nat \<Rightarrow> int) \<Rightarrow> 'q net \<times> (nat \<Rightarrow> int) \<Rightarrow> bool" where
  "tsteps \<equiv> (timed_step Q N macs)\<^sup>*\<^sup>*"

abbreviation treach :: "'q net \<times> (nat \<Rightarrow> int) \<Rightarrow> bool" where
  "treach \<equiv> timed_reach Q N macs"

lemma treach_ok: "treach (n, T) \<Longrightarrow> i < N \<Longrightarrow> ok i (nodes n i)"
  using net_reach_inv [OF timed_net, of "(n, T)"] by (simp add: net_inv_def)

lemma one_event: "on_time ev T \<Longrightarrow> tsteps (n, T) (net_exec Q N macs ev n, clock_after ev T)"
  by (intro r_into_rtranclp timed_step.event)

lemma ts_pass: "x < N \<Longrightarrow> T x \<le> e \<Longrightarrow>
    tsteps (n, T) (update_node macs x (loop_body Q (frozen e) (nodes n x)) n, T(x := e))"
  using one_event [of "Tick x (frozen e)" T n] by (simp add: frozen_in_order)

lemma ts_deliver: "y < N \<Longrightarrow> x < N \<Longrightarrow> y \<noteq> x \<Longrightarrow> air n y x = f # fs \<Longrightarrow>
    tsteps (n, T) (update_node macs x (onEspNowRecv Q (macs y) f (nodes n x)) (set_air y x fs n), T)"
  using one_event [of "Deliver y x" T n] by simp

text \<open>Frames in flight can be lost.\<close>

lemma set_air_same: "air n y x = fs \<Longrightarrow> set_air y x fs n = n"
  by (cases n) (auto simp: set_air_def fun_eq_iff)

lemma set_air_twice: "set_air y x gs (set_air y x fs n) = set_air y x gs n"
  by (cases n) (auto simp: set_air_def fun_eq_iff)

lemma ts_clear:
  assumes "y < N" and "x < N" and "y \<noteq> x"
  shows "tsteps (n, T) (set_air y x [] n, T)"
proof (induction "air n y x" arbitrary: n)
  case Nil
  then show ?case by (simp add: set_air_same)
next
  case (Cons f fs)
  then have "tsteps (n, T) (set_air y x fs n, T)"
    using one_event [of "Lose y x 0" T n] assms by (cases "air n y x") auto
  moreover have "tsteps (set_air y x fs n, T) (set_air y x [] (set_air y x fs n), T)"
    by (rule Cons.hyps(1)) simp
  ultimately show ?case by (simp add: set_air_twice)
qed

lemma clear_all: "\<exists>n'. tsteps (n, T) (n', T) \<and> nodes n' = nodes n \<and> (\<forall>i < N. \<forall>j < N. i \<noteq> j \<longrightarrow> air n' i j = [])"
proof -
  have "list_all (\<lambda>(i, j). i < N \<and> j < N \<and> i \<noteq> j) ps \<Longrightarrow>
      \<exists>n'. tsteps (n, T) (n', T) \<and> nodes n' = nodes n \<and> (\<forall>(i, j) \<in> set ps. air n' i j = [])" for ps
  proof (induction ps)
    case (Cons p ps)
    obtain i j where p: "p = (i, j)" "i < N" "j < N" "i \<noteq> j" using Cons.prems by (cases p) auto
    obtain n' where n': "tsteps (n, T) (n', T)" "nodes n' = nodes n" "\<forall>(i, j) \<in> set ps. air n' i j = []"
      using Cons by auto
    have "tsteps (n, T) (set_air i j [] n', T)" using n'(1) ts_clear [OF p(2-4), of n' T] by (rule rtranclp_trans)
    then show ?case using n' p(1) by (intro exI [of _ "set_air i j [] n'"]) auto
  qed auto
  from this [of "filter (\<lambda>(i, j). i \<noteq> j) (List.product [0..<N] [0..<N])"] show ?thesis
    by (fastforce simp: list_all_iff)
qed

section \<open>Every board makes a pass\<close>

lemma pass_all:
  assumes "\<forall>i < N. T i \<le> E i" and "m \<le> N"
  shows "\<exists>n' T'. tsteps (n, T) (n', T') \<and>
    (\<forall>i. nodes n' i = (if i < m then loop_body Q (frozen (E i)) (nodes n i) else nodes n i)) \<and>
    (\<forall>i. T' i = (if i < m then E i else T i)) \<and>
    (\<forall>i j. i \<noteq> j \<longrightarrow> air n' i j = air n i j @ frames_to (macs j) (new_calls (nodes n i) (nodes n' i)))"
  using assms(2)
proof (induction m)
  case 0
  then show ?case by (intro exI [of _ n] exI [of _ T]) (simp add: new_calls_def)
next
  case (Suc m)
  then obtain n1 T1 where n1: "tsteps (n, T) (n1, T1)"
      "\<forall>i. nodes n1 i = (if i < m then loop_body Q (frozen (E i)) (nodes n i) else nodes n i)"
      "\<forall>i. T1 i = (if i < m then E i else T i)"
      "\<forall>i j. i \<noteq> j \<longrightarrow> air n1 i j = air n i j @ frames_to (macs j) (new_calls (nodes n i) (nodes n1 i))"
    by (meson Suc_leD)
  let ?n2 = "update_node macs m (loop_body Q (frozen (E m)) (nodes n1 m)) n1"
  have same: "nodes n1 m = nodes n m" "T1 m = T m" using n1(2,3) by simp_all
  have "tsteps (n1, T1) (?n2, T1(m := E m))" using Suc.prems assms(1) same by (intro ts_pass) auto
  with n1(1) have "tsteps (n, T) (?n2, T1(m := E m))" by (rule rtranclp_trans)
  moreover have "air ?n2 i j = air n i j @ frames_to (macs j) (new_calls (nodes n i) (nodes ?n2 i))" if "i \<noteq> j" for i j
    using n1(4) that same by (auto simp: update_node_def Let_def new_calls_def)
  moreover have "nodes ?n2 i = (if i < Suc m then loop_body Q (frozen (E i)) (nodes n i) else nodes n i)"
      "(T1(m := E m)) i = (if i < Suc m then E i else T i)" for i
    using n1(2,3) by (auto simp: less_Suc_eq)
  ultimately show ?case by blast
qed

section \<open>Discovery\<close>

definition hello_from :: "nat \<Rightarrow> HelloPacket" where
  "hello_from x = HelloPacket0\<lparr>hello_node_id := of_nat x, hello_chain_size := of_nat N\<rparr>"

lemma hello_from_sel [simp]:
  "hello_node_id (hello_from x) = of_nat x" "hello_chain_size (hello_from x) = of_nat N"
  by (simp_all add: hello_from_def)

lemma handleHello_learns:
  assumes "hello_chain_size h = g_chainSize s" and "\<not> g_chainSize s \<le> hello_node_id h"
  shows "(hello_node_id h = g_prevId s \<longrightarrow> g_prevKnown (handleHello m h s)) \<and>
    (hello_node_id h = g_nextId s \<longrightarrow> g_nextKnown (handleHello m h s)) \<and>
    (g_prevKnown (handleHello m h s) \<and> g_nextKnown (handleHello m h s) \<longrightarrow>
      g_state (handleHello m h s) \<noteq> kDiscovering)"
proof -
  define s2 where "s2 = learnPrev m h (learnNext m h s)"
  have "handleHello m h s =
      (if g_state s2 = kDiscovering \<and> g_prevKnown s2 \<and> (g_isGateway s2 \<or> g_nextKnown s2)
       then s2\<lparr>g_state := kIdle\<rparr> else s2)"
    using assms by (simp add: handleHello_def s2_def Let_def)
  moreover have "hello_node_id h = g_prevId s \<longrightarrow> g_prevKnown s2" "hello_node_id h = g_nextId s \<longrightarrow> g_nextKnown s2"
    by (simp_all add: s2_def learnNext_def learnPrev_def emit_def)
  ultimately show ?thesis by auto
qed

lemma hello_heard:
  assumes "ok y s" and "y < N" and "x < N"
  shows "(x = prv N y \<longrightarrow> g_prevKnown (handleHello (macs x) (hello_from x) s)) \<and>
    (x = nxt N y \<longrightarrow> g_nextKnown (handleHello (macs x) (hello_from x) s)) \<and>
    (g_prevKnown (handleHello (macs x) (hello_from x) s) \<and> g_nextKnown (handleHello (macs x) (hello_from x) s) \<longrightarrow>
      g_state (handleHello (macs x) (hello_from x) s) \<noteq> kDiscovering)"
proof -
  have "unat (of_nat N :: u8) = N" "unat (of_nat x :: u8) = x"
    using assms small_N by (simp_all add: unat_of_nat_u8)
  then have "\<not> (of_nat N :: u8) \<le> of_nat x"
    using assms(3) by (simp add: word_le_nat_alt)
  then show ?thesis
    using assms(1) handleHello_learns [of "hello_from x" s "macs x"]
    by (auto simp: node_ok_def ids_ok_def)
qed

text \<open>A station hears the HELLO at the head of a channel; the heads of the other channels stay.\<close>

lemma hear:
  assumes "x < N" "y < N" "x \<noteq> y" and "air n x y = enc_hello (hello_from x) # fs"
  shows "\<exists>n'. tsteps (n, T) (n', T) \<and>
    nodes n' = (nodes n)(y := handleHello (macs x) (hello_from x) (nodes n y)) \<and>
    (\<forall>i j. (i, j) \<noteq> (x, y) \<longrightarrow> (\<exists>gs. air n' i j = air n i j @ gs))"
proof -
  have recv: "onEspNowRecv Q (macs x) (enc_hello (hello_from x)) s = handleHello (macs x) (hello_from x) s" for s
    by (simp add: onEspNowRecv_def enc_first sizeof_Hello_def hello_from_def HelloPacket0_def)
  show ?thesis
    using ts_deliver [OF assms(1-4), unfolded recv, of T]
    by (intro exI conjI) (assumption | auto simp: update_node_def Let_def)+
qed

definition heard :: "nat \<Rightarrow> 'q node \<Rightarrow> 'q node" where
  "heard y s =
     (let p = prv N y; q = nxt N y; s1 = handleHello (macs p) (hello_from p) s
      in if p = q then s1 else handleHello (macs q) (hello_from q) s1)"

lemma heard_keeps:
  "stays s (heard y s)" "g_lastHelloMs (heard y s) = g_lastHelloMs s" "g_lastLocalMs (heard y s) = g_lastLocalMs s"
proof -
  have keep: "stays s (handleHello m h s) \<and> g_lastHelloMs (handleHello m h s) = g_lastHelloMs s \<and>
      g_lastLocalMs (handleHello m h s) = g_lastLocalMs s" for m h and s :: "'q node"
    using stays_handleHello [of s m h] untimed_handlers(1) [of s m h] by (simp add: untimed_def)
  show "stays s (heard y s)" "g_lastHelloMs (heard y s) = g_lastHelloMs s" "g_lastLocalMs (heard y s) = g_lastLocalMs s"
    using keep [of s] keep [of "handleHello (macs (prv N y)) (hello_from (prv N y)) s"]
    by (auto simp: heard_def Let_def) (blast intro: stays_trans)
qed

definition greeted :: "'q net \<Rightarrow> nat \<Rightarrow> bool" where
  "greeted n y \<longleftrightarrow> (\<forall>x < N. x \<noteq> y \<longrightarrow> (\<exists>fs. air n x y = enc_hello (hello_from x) # fs))"

lemma hear_both:
  assumes "treach (n, T)" and "y < N" and "greeted n y"
  shows "\<exists>n'. tsteps (n, T) (n', T) \<and> nodes n' = (nodes n)(y := heard y (nodes n y)) \<and>
    g_state (heard y (nodes n y)) \<noteq> kDiscovering \<and> (\<forall>z. z \<noteq> y \<longrightarrow> greeted n z \<longrightarrow> greeted n' z)"
proof -
  let ?p = "prv N y" and ?q = "nxt N y"
  have p: "?p < N" "?p \<noteq> y" and q: "?q < N" "?q \<noteq> y"
    using prv_less prv_neq nxt_less nxt_neq assms(2) by auto
  have keep: "greeted n2 z" if keeps: "\<forall>i j. (i, j) \<noteq> (x, y) \<longrightarrow> (\<exists>gs. air n2 i j = air n1 i j @ gs)" "z \<noteq> y" "greeted n1 z"
    for n1 n2 x z
    unfolding greeted_def
  proof (intro allI impI)
    fix w assume w: "w < N" "w \<noteq> z"
    obtain fs where "air n1 w z = enc_hello (hello_from w) # fs" using keeps(3) w by (auto simp: greeted_def)
    moreover obtain gs where "air n2 w z = air n1 w z @ gs" using keeps(1,2) by blast
    ultimately show "\<exists>fs. air n2 w z = enc_hello (hello_from w) # fs" by simp
  qed
  obtain fs where "air n ?p y = enc_hello (hello_from ?p) # fs" using assms(3) p by (auto simp: greeted_def)
  from hear [OF p(1) assms(2) p(2) this] obtain n1 where n1: "tsteps (n, T) (n1, T)"
      "nodes n1 = (nodes n)(y := handleHello (macs ?p) (hello_from ?p) (nodes n y))"
      "\<forall>i j. (i, j) \<noteq> (?p, y) \<longrightarrow> (\<exists>gs. air n1 i j = air n i j @ gs)" by blast
  note h1 = hello_heard [OF treach_ok [OF assms(1,2)] assms(2) p(1)]
  have pk: "g_prevKnown (nodes n1 y)" using h1 n1(2) by simp
  show ?thesis
  proof (cases "?p = ?q")
    case True
    then show ?thesis
      using n1 h1 keep [OF n1(3)] by (intro exI [of _ n1]) (auto simp: heard_def Let_def)
  next
    case False
    obtain gs where "air n ?q y = enc_hello (hello_from ?q) # gs" using assms(3) q by (auto simp: greeted_def)
    moreover obtain hs where "air n1 ?q y = air n ?q y @ hs" using n1(3) False by (metis prod.inject)
    ultimately have "air n1 ?q y = enc_hello (hello_from ?q) # gs @ hs" by simp
    from hear [OF q(1) assms(2) q(2) this] obtain n2 where n2: "tsteps (n1, T) (n2, T)"
        "nodes n2 = (nodes n1)(y := handleHello (macs ?q) (hello_from ?q) (nodes n1 y))"
        "\<forall>i j. (i, j) \<noteq> (?q, y) \<longrightarrow> (\<exists>gs. air n2 i j = air n1 i j @ gs)" by blast
    have r1: "treach (n1, T)" by (rule timed_steps_reach [OF n1(1) assms(1)])
    have "heard y (nodes n y) = handleHello (macs ?q) (hello_from ?q) (nodes n1 y)"
      using n1(2) False by (simp add: heard_def Let_def)
    moreover have "g_prevKnown (handleHello (macs ?q) (hello_from ?q) (nodes n1 y))"
      using pk stays_handleHello [of "nodes n1 y" "macs ?q" "hello_from ?q"] by (simp add: stays_def)
    moreover have "tsteps (n, T) (n2, T)" using n1(1) n2(1) by (rule rtranclp_trans)
    ultimately show ?thesis
      using n1(2) n2(2) hello_heard [OF treach_ok [OF r1 assms(2)] assms(2) q(1)] keep [OF n1(3)] keep [OF n2(3)]
      by (intro exI [of _ n2]) auto
  qed
qed

lemma hear_all:
  assumes "treach (n, T)" and "\<forall>y < N. greeted n y"
  shows "\<exists>n'. tsteps (n, T) (n', T) \<and>
    (\<forall>y < N. nodes n' y = heard y (nodes n y) \<and> g_state (nodes n' y) \<noteq> kDiscovering)"
proof -
  have "m \<le> N \<Longrightarrow> \<exists>n'. tsteps (n, T) (n', T) \<and>
      (\<forall>y < m. nodes n' y = heard y (nodes n y) \<and> g_state (nodes n' y) \<noteq> kDiscovering) \<and>
      (\<forall>y \<ge> m. y < N \<longrightarrow> nodes n' y = nodes n y \<and> greeted n' y)" for m
  proof (induction m)
    case 0
    then show ?case using assms(2) by (intro exI [of _ n]) simp
  next
    case (Suc m)
    then obtain n1 where n1: "tsteps (n, T) (n1, T)"
        "\<forall>y < m. nodes n1 y = heard y (nodes n y) \<and> g_state (nodes n1 y) \<noteq> kDiscovering"
        "\<forall>y \<ge> m. y < N \<longrightarrow> nodes n1 y = nodes n y \<and> greeted n1 y" by auto
    have "treach (n1, T)" by (rule timed_steps_reach [OF n1(1) assms(1)])
    from hear_both [OF this, of m] obtain n2 where n2: "tsteps (n1, T) (n2, T)"
        "nodes n2 = (nodes n1)(m := heard m (nodes n1 m))" "g_state (heard m (nodes n1 m)) \<noteq> kDiscovering"
        "\<forall>z. z \<noteq> m \<longrightarrow> greeted n1 z \<longrightarrow> greeted n2 z"
      using n1(3) Suc.prems by auto
    have "tsteps (n, T) (n2, T)" using n1(1) n2(1) by (rule rtranclp_trans)
    then show ?case
      using n1(2,3) n2(2-4) Suc.prems by (intro exI [of _ n2]) (auto simp: less_Suc_eq)
  qed
  from this [of N] show ?thesis by auto
qed

section \<open>One exchange\<close>

text \<open>What every station keeps while the relays are emptied: it takes no time stamps, and a packet
  that still waits has waited all the time.\<close>

definition eases :: "'q node \<Rightarrow> 'q node \<Rightarrow> bool" where
  "eases s s' \<longleftrightarrow> stays s s' \<and> g_lastHelloMs s' = g_lastHelloMs s \<and> g_lastLocalMs s' = g_lastLocalMs s \<and>
     (g_state s' = kForwarding \<longrightarrow> g_state s = kForwarding \<and> g_ackDeadlineMs s' = g_ackDeadlineMs s)"

lemma eases_refl [simp]: "eases s s"
  by (simp add: eases_def)

lemma eases_trans: "eases s s' \<Longrightarrow> eases s' s'' \<Longrightarrow> eases s s''"
  unfolding eases_def using stays_trans [of s s' s''] by simp

lemma eases_settled: "eases s s' \<Longrightarrow> settled e s \<Longrightarrow> settled e s'"
  unfolding eases_def stays_def settled_def by auto

lemma eases_due: "eases s s' \<Longrightarrow> resend_due e s \<Longrightarrow> resend_due e s'"
  by (auto simp: eases_def resend_due_def)

lemma eases_queue: "eases s s' \<Longrightarrow> g_outQueue s' = None \<longleftrightarrow> g_outQueue s = None"
  by (simp add: eases_def stays_def calm_def)

definition evolves :: "(nat \<Rightarrow> int) \<Rightarrow> 'q net \<times> (nat \<Rightarrow> int) \<Rightarrow> 'q net \<times> (nat \<Rightarrow> int) \<Rightarrow> bool" where
  "evolves E w w' \<longleftrightarrow> tsteps w w' \<and> ((\<forall>i < N. snd w i \<le> E i) \<longrightarrow> (\<forall>i < N. snd w' i \<le> E i)) \<and>
     (\<forall>i < N. eases (nodes (fst w) i) (nodes (fst w') i))"

lemma evolves_refl [simp]: "evolves E w w"
  by (simp add: evolves_def)

lemma evolves_trans: "evolves E w w' \<Longrightarrow> evolves E w' w'' \<Longrightarrow> evolves E w w''"
  unfolding evolves_def by (meson rtranclp_trans eases_trans)

lemma evolves_reach: "evolves E w w' \<Longrightarrow> treach w \<Longrightarrow> treach w'"
  by (auto simp: evolves_def intro: timed_steps_reach)

lemma retransmit_parts:
  "calls (retransmit now s) = calls s @ [EspSend (g_nextMac s) (enc_status (g_pending s))]"
  "g_state (retransmit now s) = g_state s" "g_pending (retransmit now s) = g_pending s"
  "g_outQueue (retransmit now s) = g_outQueue s"
  by (simp_all add: retransmit_def sendStatus_def emit_def Let_def)

lemma handleStatus_acks:
  assumes "g_prevKnown s" and "m = g_prevMac s" and "queue_inv valid contents capacity q \<or> g_isGateway s"
    and "g_isGateway s \<or> (g_outQueue s = Some q \<and> length (contents q) < capacity q)"
  shows "frames_to m (new_calls s (handleStatus Q m p s)) =
    [enc_ack (AckPacket0\<lparr>ack_origin_node_id := origin_node_id p, ack_seq := seq p\<rparr>)]"
proof (cases "isDuplicate p s \<or> g_isGateway s")
  case True
  then show ?thesis
    using assms(1,2)
    by (auto simp: handleStatus_def sendAck_def noteAccepted_def emit_def new_calls_def Let_def)
next
  case False
  then have q: "g_outQueue s = Some q" "length (contents q) < capacity q" "queue_inv valid contents capacity q"
    using assms(3,4) by auto
  then obtain q' where "q_send Q q p = Some q'"
    using send_None_iff [OF q(3), of p] by fastforce
  with False q(1) assms(1,2) show ?thesis
    by (simp add: handleStatus_def outQueueSend_def sendAck_def noteAccepted_def emit_def new_calls_def)
qed

text \<open>A STATUS on the air with nothing before it is taken and acknowledged.\<close>

lemma answered:
  assumes reach: "treach (n, T)" and a: "a < N" "a \<noteq> 0"
    and fwd: "g_state (nodes n a) = kForwarding" and joined: "g_state (nodes n (nxt N a)) \<noteq> kDiscovering"
    and room: "nxt N a = 0 \<or> (\<exists>q. g_outQueue (nodes n (nxt N a)) = Some q \<and> length (contents q) < capacity q)"
    and air: "air n a (nxt N a) = [enc_status (g_pending (nodes n a))]" "air n (nxt N a) a = []"
  shows "\<exists>n'. tsteps (n, T) (n', T) \<and>
    nodes n' a = (nodes n a)\<lparr>g_state := kIdle, g_retryCount := 0, g_statForwarded := g_statForwarded (nodes n a) + 1\<rparr> \<and>
    eases (nodes n (nxt N a)) (nodes n' (nxt N a)) \<and>
    (\<forall>i. i \<noteq> a \<longrightarrow> i \<noteq> nxt N a \<longrightarrow> nodes n' i = nodes n i)"
proof -
  let ?b = "nxt N a" and ?sa = "nodes n a" and ?sb = "nodes n (nxt N a)"
  note neq = nxt_neq [OF a(1)] and b = nxt_less [of a]
  have oka: "ok a ?sa" and okb: "ok ?b ?sb" using treach_ok [OF reach] a b by auto
  let ?p = "g_pending ?sa"
  have macA: "g_nextMac ?sa = macs ?b" "g_nextKnown ?sa"
    using oka fwd a by (auto simp: node_ok_def peers_ok_def)
  have macB: "g_prevMac ?sb = macs a" "g_prevKnown ?sb"
    using okb joined prv_nxt [OF a(1)] by (auto simp: node_ok_def peers_ok_def)
  have "sent ?sa \<noteq> []" "?p = last (sent ?sa)" "\<forall>x \<in> set (enqueued ?sa). pkt_ok a x"
    using oka fwd by (auto simp: node_ok_def traffic_ok_def)
  then have p: "pkt_ok a ?p"
    using set_mono_prefix [OF sent_prefix_enqueued [OF oka]] by (metis last_in_set subsetD)
  have "origin_node_id ?p \<noteq> of_nat ?b"
  proof (cases "Suc a = N")
    case True
    then show ?thesis using p by (auto simp: nxt_def pkt_ok_def)
  next
    case False
    then have "?b = Suc a" using a(1) by (simp add: nxt_def)
    then show ?thesis using relay_origin [OF p, of ?b] b by simp
  qed
  then have foreign: "origin_node_id ?p \<noteq> g_nodeId ?sb" using okb by (simp add: node_ok_def ids_ok_def)
  let ?s2 = "handleStatus Q (macs a) ?p ?sb"
  let ?n3 = "update_node macs ?b ?s2 (set_air a ?b [] n)"
  have wf: "wf_status ?p" "status_type ?p = kPktStatus" using p by (auto simp: pkt_ok_def)
  have recv: "onEspNowRecv Q (macs a) (enc_status ?p) s = handleStatus Q (macs a) ?p s" for s
    using wf by (simp add: onEspNowRecv_def enc_first sizeof_Status_def Suc_le_eq pkt_type_defs)
  have go3: "tsteps (n, T) (?n3, T)"
    using ts_deliver [OF a(1) b neq [symmetric] air(1), unfolded recv] .
  obtain q where q: "queue_inv valid contents capacity q \<or> g_isGateway ?sb"
      "g_isGateway ?sb \<or> (g_outQueue ?sb = Some q \<and> length (contents q) < capacity q)"
    using room okb by (cases "?b = 0") (auto simp: node_ok_def ids_ok_def queue_ok_def)
  let ?k = "AckPacket0\<lparr>ack_origin_node_id := origin_node_id ?p, ack_seq := seq ?p\<rparr>"
  have "frames_to (macs a) (new_calls ?sb ?s2) = [enc_ack ?k]"
    using handleStatus_acks [OF macB(2) macB(1) [symmetric] q] .
  then have air3: "air ?n3 ?b a = enc_ack ?k # []"
    using neq air(2) by (simp add: update_node_def [of macs ?b] Let_def)
  let ?s3 = "handleAck (macs ?b) ?k ?sa"
  let ?n4 = "update_node macs a ?s3 (set_air ?b a [] ?n3)"
  have recv2: "onEspNowRecv Q (macs ?b) (enc_ack ?k) s = handleAck (macs ?b) ?k s" for s
    by (simp add: onEspNowRecv_def enc_first sizeof_Ack_def AckPacket0_def Suc_le_eq pkt_type_defs)
  have na: "nodes ?n3 a = ?sa" using neq by simp
  have "tsteps (?n3, T) (?n4, T)"
    using ts_deliver [OF b a(1) neq air3, unfolded recv2 na] .
  with go3 have "tsteps (n, T) (?n4, T)" by (rule rtranclp_trans)
  moreover have "?s3 = ?sa\<lparr>g_state := kIdle, g_retryCount := 0, g_statForwarded := g_statForwarded ?sa + 1\<rparr>"
    unfolding handleAck_def using fwd macA by simp
  moreover have "eases ?sb ?s2"
    using stays_handleStatus [OF foreign] untimed_handlers(2) [of ?sb Q "macs a" ?p] by (simp add: eases_def untimed_def)
  ultimately show ?thesis using neq by (intro exI [of _ ?n4]) simp
qed

text \<open>The two ways a relay puts its packet on the air: again, when it is due, or for the first time.\<close>

lemma exchange_from:
  assumes reach: "treach (n, T)" and a: "a < N" "a \<noteq> 0" and T: "T a \<le> E a"
    and settled: "settled (E a) (nodes n a)"
    and s1: "loop_send Q (frozen (E a)) (nodes n a) = s1" "g_state s1 = kForwarding"
      "frames_to (macs (nxt N a)) (new_calls (nodes n a) s1) = [enc_status (g_pending s1)]"
    and joined: "g_state (nodes n (nxt N a)) \<noteq> kDiscovering"
    and room: "nxt N a = 0 \<or> (\<exists>q. g_outQueue (nodes n (nxt N a)) = Some q \<and> length (contents q) < capacity q)"
  shows "\<exists>n' T'. evolves E (n, T) (n', T') \<and> g_state (nodes n' a) = kIdle \<and> g_outQueue (nodes n' a) = g_outQueue s1 \<and>
    (\<forall>i. i \<noteq> a \<longrightarrow> i \<noteq> nxt N a \<longrightarrow> nodes n' i = nodes n i)"
proof -
  let ?b = "nxt N a" and ?sa = "nodes n a"
  note neq = nxt_neq [OF a(1)] and b = nxt_less [of a]
  have gw: "\<not> g_isGateway ?sa" using treach_ok [OF reach a(1)] a by (auto simp: node_ok_def ids_ok_def)
  note pass = settled_pass [OF settled gw, of Q, unfolded s1(1)]
  let ?n1 = "set_air ?b a [] (set_air a ?b [] n)"
  let ?n2 = "update_node macs a s1 ?n1" and ?T2 = "T(a := E a)"
  have go1: "tsteps (n, T) (?n1, T)"
    using ts_clear [of a ?b n T] ts_clear [of ?b a "set_air a ?b [] n" T] a b neq by (auto intro: rtranclp_trans)
  have "tsteps (?n1, T) (?n2, ?T2)"
    using ts_pass [of a T "E a" ?n1, OF a(1) T] pass by simp
  with go1 have go2: "tsteps (n, T) (?n2, ?T2)" by (rule rtranclp_trans)
  have reach2: "treach (?n2, ?T2)" by (rule timed_steps_reach [OF go2 reach])
  have air2: "air ?n2 a ?b = [enc_status (g_pending (nodes ?n2 a))]" "air ?n2 ?b a = []"
    using neq s1(3) by (simp_all add: update_node_def Let_def)
  have nb: "nodes ?n2 ?b = nodes n ?b" using neq by simp
  have fwd2: "g_state (nodes ?n2 a) = kForwarding" using s1(2) by simp
  from answered [OF reach2 a fwd2 _ _ air2] joined room nb
  obtain n' where n': "tsteps (?n2, ?T2) (n', ?T2)"
      "nodes n' a = s1\<lparr>g_state := kIdle, g_retryCount := 0, g_statForwarded := g_statForwarded s1 + 1\<rparr>"
      "eases (nodes n ?b) (nodes n' ?b)" "\<forall>i. i \<noteq> a \<longrightarrow> i \<noteq> ?b \<longrightarrow> nodes n' i = nodes n i" by auto
  have go: "tsteps (n, T) (n', ?T2)" using go2 n'(1) by (rule rtranclp_trans)
  have "stays ?sa s1" using stays_send [of ?sa Q "frozen (E a)"] settled s1(1) by (simp add: settled_def)
  then have "eases ?sa (nodes n' a)"
    using send_stamps(1,2) [of Q "frozen (E a)" ?sa] s1(1)
    by (auto simp: eases_def n'(2) stays_def calm_def own_enqueued_def originated_def trace)
  then have "eases (nodes n i) (nodes n' i)" for i
    using n'(3,4) by (cases "i = a"; cases "i = ?b") auto
  then have "evolves E (n, T) (n', ?T2)" using go by (simp add: evolves_def)
  then show ?thesis using n'(2,4) by (intro exI [of _ n'] exI [of _ ?T2]) simp
qed

lemma exchange:
  assumes reach: "treach (n, T)" and a: "a < N" "a \<noteq> 0" and T: "T a \<le> E a"
    and settled: "settled (E a) (nodes n a)" "resend_due (E a) (nodes n a)"
    and fwd: "g_state (nodes n a) = kForwarding" and joined: "g_state (nodes n (nxt N a)) \<noteq> kDiscovering"
    and room: "nxt N a = 0 \<or> (\<exists>q. g_outQueue (nodes n (nxt N a)) = Some q \<and> length (contents q) < capacity q)"
  shows "\<exists>n' T'. evolves E (n, T) (n', T') \<and> g_state (nodes n' a) = kIdle \<and> g_outQueue (nodes n' a) = g_outQueue (nodes n a) \<and>
    (\<forall>i. i \<noteq> a \<longrightarrow> i \<noteq> nxt N a \<longrightarrow> nodes n' i = nodes n i)"
proof -
  let ?s = "nodes n a" and ?c = "frozen (E a)"
  have mac: "g_nextMac ?s = macs (nxt N a)"
    using treach_ok [OF reach a(1)] fwd a(2) by (auto simp: node_ok_def peers_ok_def)
  have s1: "loop_send Q ?c ?s = retransmit ?c ?s"
    using fwd settled(2) by (simp add: loop_send_def resend_due_def)
  have "frames_to (macs (nxt N a)) (new_calls ?s (retransmit ?c ?s)) = [enc_status (g_pending (retransmit ?c ?s))]"
    by (simp add: new_calls_def retransmit_parts mac)
  from exchange_from [where E = E, OF reach a T settled(1) s1 _ this joined room] fwd
  show ?thesis by (simp add: retransmit_parts)
qed

lemma take_up:
  assumes reach: "treach (n, T)" and a: "a < N" "a \<noteq> 0" and T: "T a \<le> E a" and settled: "settled (E a) (nodes n a)"
    and idle: "g_state (nodes n a) = kIdle" and q: "g_outQueue (nodes n a) = Some q" "contents q = p # ps"
    and joined: "g_state (nodes n (nxt N a)) \<noteq> kDiscovering"
    and room: "nxt N a = 0 \<or> (\<exists>q. g_outQueue (nodes n (nxt N a)) = Some q \<and> length (contents q) < capacity q)"
  shows "\<exists>n' T' q'. evolves E (n, T) (n', T') \<and> g_state (nodes n' a) = kIdle \<and> g_outQueue (nodes n' a) = Some q' \<and>
    contents q' = ps \<and> (\<forall>i. i \<noteq> a \<longrightarrow> i \<noteq> nxt N a \<longrightarrow> nodes n' i = nodes n i)"
proof -
  let ?s = "nodes n a" and ?c = "frozen (E a)"
  have ok: "ok a ?s" using treach_ok [OF reach a(1)] .
  then have "queue_inv valid contents capacity q" and mac: "g_nextMac ?s = macs (nxt N a)"
    using q(1) a(2) idle by (auto simp: node_ok_def queue_ok_def peers_ok_def)
  then obtain q' where q': "q_receive Q q = Some (p, q')" "contents q' = ps"
    using receive_Some_iff [OF _ q(2)] by blast
  let ?s1 = "beginForwarding ?c p (emit (QueueReceive p) (?s\<lparr>g_outQueue := Some q'\<rparr>))"
  have s1: "loop_send Q ?c ?s = ?s1"
    using idle q(1) q'(1) by (simp add: loop_send_def outQueueReceive_def)
  have "g_state ?s1 = kForwarding" "g_outQueue ?s1 = Some q'"
    "frames_to (macs (nxt N a)) (new_calls ?s ?s1) = [enc_status (g_pending ?s1)]"
    by (simp_all add: beginForwarding_def sendStatus_def emit_def new_calls_def mac)
  with exchange_from [where E = E, OF reach a T settled s1 _ _ joined room] q'(2)
  show ?thesis by fastforce
qed

section \<open>The whole chain\<close>

text \<open>Every station has found its neighbours, no HELLO and no reading is due, every packet that
  waits is, and every relay has its queue.\<close>

definition operational :: "(nat \<Rightarrow> int) \<Rightarrow> 'q net \<Rightarrow> bool" where
  "operational E n \<longleftrightarrow> (\<forall>y < N. settled (E y) (nodes n y) \<and> resend_due (E y) (nodes n y)) \<and>
     (\<forall>a < N. a \<noteq> 0 \<longrightarrow> g_outQueue (nodes n a) \<noteq> None)"

definition by_then :: "(nat \<Rightarrow> int) \<Rightarrow> (nat \<Rightarrow> int) \<Rightarrow> bool" where
  "by_then E T \<longleftrightarrow> (\<forall>i < N. T i \<le> E i)"

lemma evolves_operational: "evolves E w w' \<Longrightarrow> operational E (fst w) \<Longrightarrow> operational E (fst w')"
  unfolding evolves_def operational_def by (metis eases_settled eases_due eases_queue)

lemma evolves_by_then: "evolves E w w' \<Longrightarrow> by_then E (snd w) \<Longrightarrow> by_then E (snd w')"
  by (simp add: evolves_def by_then_def)

text \<open>What a relay still has to pass on.\<close>

definition load :: "'q node \<Rightarrow> nat" where
  "load s = (case g_outQueue s of None \<Rightarrow> 0 | Some q \<Rightarrow> length (contents q)) +
     (if g_state s = kForwarding then 1 else 0)"

lemma drained_iff:
  assumes "ok a s" and "a \<noteq> 0" and "g_outQueue s = Some q"
  shows "drained s \<longleftrightarrow> g_state s \<noteq> kForwarding \<and> contents q = []" and "capacity q = 8"
  using assms by (auto simp: drained_def node_ok_def queue_ok_def config_defs)

lemma next_has_room:
  assumes "treach (n, T)" and "operational E n" and "j < N" and "\<forall>a < N. Suc j \<le> a \<longrightarrow> drained (nodes n a)"
  shows "nxt N j = 0 \<or> (\<exists>q. g_outQueue (nodes n (nxt N j)) = Some q \<and> length (contents q) < capacity q)"
proof (cases "Suc j = N")
  case False
  then have b: "nxt N j = Suc j" "Suc j < N" using assms(3) by (simp_all add: nxt_def)
  then obtain q' where q': "g_outQueue (nodes n (Suc j)) = Some q'"
    using assms(2) by (auto simp: operational_def)
  then have "contents q' = []" "capacity q' = 8"
    using drained_iff [OF treach_ok [OF assms(1) b(2)] _ q'] assms(4) b(2) by auto
  with q' b(1) show ?thesis by simp
qed (simp add: nxt_def)

text \<open>A relay whose successors are empty passes on one packet.\<close>

lemma pass_one:
  assumes reach: "treach (n, T)" and op: "operational E n" and time: "by_then E T" and j: "j < N" "j \<noteq> 0"
    and below: "\<forall>a < N. Suc j \<le> a \<longrightarrow> drained (nodes n a)" and more: "\<not> drained (nodes n j)"
  shows "\<exists>n' T'. evolves E (n, T) (n', T') \<and> load (nodes n' j) < load (nodes n j) \<and>
    (\<forall>i < j. i \<noteq> 0 \<longrightarrow> nodes n' i = nodes n i)"
proof -
  obtain q where q: "g_outQueue (nodes n j) = Some q" using op j by (auto simp: operational_def)
  have set: "settled (E j) (nodes n j)" "resend_due (E j) (nodes n j)" using op j(1) by (auto simp: operational_def)
  have T: "T j \<le> E j" using time j(1) by (simp add: by_then_def)
  have joined: "g_state (nodes n (nxt N j)) \<noteq> kDiscovering"
    using op nxt_less [of j] by (simp add: operational_def settled_def)
  note room = next_has_room [OF reach op j(1) below]
  have "nxt N j = Suc j \<or> nxt N j = 0" using j(1) by (cases "Suc j = N") (auto simp: nxt_def)
  then have others: "\<forall>i < j. i \<noteq> 0 \<longrightarrow> nodes n' i = nodes n i"
    if "\<forall>i. i \<noteq> j \<longrightarrow> i \<noteq> nxt N j \<longrightarrow> nodes n' i = nodes n i" for n' using that by auto
  show ?thesis
  proof (cases "g_state (nodes n j) = kForwarding")
    case True
    from exchange [where E = E, OF reach j T set True joined room] obtain n' T' where n': "evolves E (n, T) (n', T')"
        "g_state (nodes n' j) = kIdle" "g_outQueue (nodes n' j) = g_outQueue (nodes n j)"
        "\<forall>i. i \<noteq> j \<longrightarrow> i \<noteq> nxt N j \<longrightarrow> nodes n' i = nodes n i" by blast
    then show ?thesis
      using True others [OF n'(4)] by (intro exI [of _ n'] exI [of _ T']) (simp add: load_def)
  next
    case False
    then have idle: "g_state (nodes n j) = kIdle"
      using set(1) by (cases "g_state (nodes n j)") (auto simp: settled_def)
    moreover obtain p ps where ps: "contents q = p # ps"
      using more False drained_iff(1) [OF treach_ok [OF reach j(1)] j(2) q] by (cases "contents q") auto
    ultimately obtain n' T' q' where n': "evolves E (n, T) (n', T')"
        "g_state (nodes n' j) = kIdle" "g_outQueue (nodes n' j) = Some q'" "contents q' = ps"
        "\<forall>i. i \<noteq> j \<longrightarrow> i \<noteq> nxt N j \<longrightarrow> nodes n' i = nodes n i"
      using take_up [where E = E, OF reach j T set(1) _ q _ joined room] by blast
    then show ?thesis
      using idle q ps others [OF n'(5)] by (intro exI [of _ n'] exI [of _ T']) (simp add: load_def)
  qed
qed

lemma drain_down:
  assumes "1 \<le> j" and "j \<le> N" and "treach (n, T)" and "operational E n" and "by_then E T"
  shows "\<exists>n' T'. evolves E (n, T) (n', T') \<and> (\<forall>a < N. j \<le> a \<longrightarrow> drained (nodes n' a)) \<and>
    (\<forall>i < j. i \<noteq> 0 \<longrightarrow> nodes n' i = nodes n i)"
  using assms(2,1,3,4,5)
proof (induction j arbitrary: n T rule: inc_induct)
  case base
  then show ?case by (intro exI [of _ n] exI [of _ T]) simp
next
  case (step j)
  have j: "j < N" "j \<noteq> 0" using step.hyps step.prems by auto
  from step.prems(2-4) show ?case
  proof (induction "load (nodes n j)" arbitrary: n T rule: less_induct)
    case (less n T)
    obtain n1 T1 where n1: "evolves E (n, T) (n1, T1)" "\<forall>a < N. Suc j \<le> a \<longrightarrow> drained (nodes n1 a)"
        "\<forall>i < Suc j. i \<noteq> 0 \<longrightarrow> nodes n1 i = nodes n i"
      using step.IH [OF _ less.prems] by auto
    note reach = evolves_reach [OF n1(1) less.prems(1)]
    have op: "operational E n1" and time: "by_then E T1"
      using evolves_operational [OF n1(1)] evolves_by_then [OF n1(1)] less.prems(2,3) by simp_all
    show ?case
    proof (cases "drained (nodes n1 j)")
      case True
      then have "\<forall>a < N. j \<le> a \<longrightarrow> drained (nodes n1 a)" using n1(2) by (metis le_neq_implies_less Suc_leI)
      then show ?thesis using n1 by (intro exI [of _ n1] exI [of _ T1]) simp
    next
      case False
      from pass_one [OF reach op time j n1(2) this] obtain n2 T2 where n2: "evolves E (n1, T1) (n2, T2)"
          "load (nodes n2 j) < load (nodes n1 j)" "\<forall>i < j. i \<noteq> 0 \<longrightarrow> nodes n2 i = nodes n1 i" by blast
      have e: "evolves E (n, T) (n2, T2)" using n1(1) n2(1) by (rule evolves_trans)
      have "load (nodes n2 j) < load (nodes n j)" using n2(2) n1(3) j by simp
      from less.hyps [OF this evolves_reach [OF e less.prems(1)]]
      obtain n' T' where n': "evolves E (n2, T2) (n', T')" "\<forall>a < N. j \<le> a \<longrightarrow> drained (nodes n' a)"
          "\<forall>i < j. i \<noteq> 0 \<longrightarrow> nodes n' i = nodes n2 i"
        using evolves_operational [OF e] evolves_by_then [OF e] less.prems(2,3) by auto
      have "evolves E (n, T) (n', T')" using e n'(1) by (rule evolves_trans)
      then show ?thesis using n'(2,3) n2(3) n1(3) by (intro exI [of _ n'] exI [of _ T']) auto
    qed
  qed
qed

text \<open>Two passes and the HELLOs between them leave the chain operational.\<close>

lemma both_passes:
  assumes reach: "treach (n, T)" and room: "\<forall>i < N. (T i + 5300000) div 1000 < 2 ^ 32"
    and queues: "\<forall>a < N. a \<noteq> 0 \<longrightarrow> g_outQueue (nodes n a) \<noteq> None"
  shows "\<exists>n' T'. tsteps (n, T) (n', T') \<and> (\<forall>i < N. T' i = T i + 5000000) \<and>
    operational (\<lambda>i. T i + 5300000) n' \<and> (\<forall>i < N. onward 2 (nodes n i) (nodes n' i))"
proof -
  let ?E = "\<lambda>i. T i + 5000000"
  have small: "?E i div 1000 < 2 ^ 32" "(?E i + 300000) div 1000 < 2 ^ 32" if "i < N" for i
  proof -
    show "(?E i + 300000) div 1000 < 2 ^ 32" using room that by (simp add: add.assoc)
    moreover have "?E i div 1000 \<le> (?E i + 300000) div 1000" by (intro zdiv_mono1) simp_all
    ultimately show "?E i div 1000 < 2 ^ 32" by (rule le_less_trans [rotated])
  qed
  have st: "0 \<le> T i" "stamped (T i) (nodes n i)" for i using timed_stamped [OF reach, of i] by simp_all
  obtain n0 where n0: "tsteps (n, T) (n0, T)" "nodes n0 = nodes n" "\<forall>i < N. \<forall>j < N. i \<noteq> j \<longrightarrow> air n0 i j = []"
    using clear_all by blast
  obtain n1 T1 where n1: "tsteps (n0, T) (n1, T1)"
      "\<forall>i. nodes n1 i = (if i < N then loop_body Q (frozen (?E i)) (nodes n i) else nodes n i)"
      "\<forall>i. T1 i = (if i < N then ?E i else T i)"
      "\<forall>i j. i \<noteq> j \<longrightarrow> air n1 i j = air n0 i j @ frames_to (macs j) (new_calls (nodes n i) (nodes n1 i))"
    using pass_all [of T ?E N n0] n0(2) by auto
  have r1: "treach (n1, T1)" by (rule timed_steps_reach [OF n1(1) timed_steps_reach [OF n0(1) reach]])
  have "greeted n1 y" if "y < N" for y
    unfolding greeted_def
  proof (intro allI impI)
    fix x assume x: "x < N" "x \<noteq> y"
    have "own_hello (nodes n x) = hello_from x"
      using treach_ok [OF reach x(1)] by (simp add: node_ok_def ids_ok_def hello_from_def)
    with first_pass(3) [OF st(2) order_refl small(1) [OF x(1)], of Q]
    obtain cs where "new_calls (nodes n x) (nodes n1 x) = EspBroadcast (enc_hello (hello_from x)) # cs"
      using n1(2) x(1) by auto
    then show "\<exists>fs. air n1 x y = enc_hello (hello_from x) # fs"
      using n1(4) n0(3) x that by simp
  qed
  from hear_all [OF r1] this obtain n2 where n2: "tsteps (n1, T1) (n2, T1)"
      "\<forall>y < N. nodes n2 y = heard y (nodes n1 y) \<and> g_state (nodes n2 y) \<noteq> kDiscovering" by blast
  obtain n3 T3 where n3: "tsteps (n2, T1) (n3, T3)"
      "\<forall>i. nodes n3 i = (if i < N then loop_body Q (frozen (?E i)) (nodes n2 i) else nodes n2 i)"
      "\<forall>i. T3 i = (if i < N then ?E i else T1 i)"
    using pass_all [of T1 ?E N n2] n1(3) by auto
  have go: "tsteps (n, T) (n3, T3)"
    using n0(1) n1(1) n2(1) n3(1) by (meson rtranclp_trans)
  have st3: "stamped (?E i) (nodes n3 i)" if "i < N" for i
    using timed_stamped [OF timed_steps_reach [OF go reach], of i] n3(3) that by simp
  have mv: "onward 2 (nodes n i) (nodes n3 i)" if i: "i < N" for i
  proof -
    have m: "onward 1 (nodes n i) (nodes n1 i)" "onward 0 (nodes n1 i) (nodes n2 i)" "onward 1 (nodes n2 i) (nodes n3 i)"
      using n1(2) n2(2) n3(2) i onward_body stays_onward [OF heard_keeps(1)] by simp_all
    show ?thesis using onward_trans [OF onward_trans [OF m(1,2)] m(3)] by (simp add: numeral_2_eq_2)
  qed
  have "settled (T i + 5300000) (nodes n3 i) \<and> resend_due (T i + 5300000) (nodes n3 i)" if i: "i < N" for i
  proof -
    note p1 = first_pass [OF st(2) order_refl small(1) [OF i], of Q]
    have n1i: "nodes n1 i = loop_body Q (frozen (?E i)) (nodes n i)"
      and n3i: "nodes n3 i = loop_body Q (frozen (?E i)) (nodes n2 i)" using n1(2) n3(2) i by simp_all
    have "g_lastHelloMs (nodes n2 i) = nowMs (?E i)"
        "g_lastLocalMs (nodes n2 i) = nowMs (?E i) \<or> read_by (T i) (g_lastLocalMs (nodes n2 i))"
      using p1(1,2) n2(2) i heard_keeps(2,3) n1i by simp_all
    moreover have "g_state (nodes n2 i) \<noteq> kDiscovering" using n2(2) i by blast
    ultimately have p2: "g_lastHelloMs (nodes n3 i) = nowMs (?E i)" "g_lastLocalMs (nodes n3 i) = nowMs (?E i)"
      using second_pass [OF _ _ order_refl small(1) [OF i], of "nodes n2 i" Q] n3i by simp_all
    have "onward 1 (nodes n2 i) (nodes n3 i)" using n3i onward_body by simp
    moreover have "g_state (nodes n2 i) \<noteq> kDiscovering" using n2(2) i by blast
    ultimately have "g_state (nodes n3 i) \<noteq> kDiscovering" by (simp add: onward_def)
    from settled_later [OF st3 [OF i] _ small(2) [OF i] this] p2 n3i st(1) [of i]
    show ?thesis by (simp add: add.assoc)
  qed
  moreover have "\<forall>a < N. a \<noteq> 0 \<longrightarrow> g_outQueue (nodes n3 a) \<noteq> None"
    using mv queues by (simp add: onward_def)
  ultimately show ?thesis
    using go n3(3) mv by (intro exI [of _ n3] exI [of _ T3]) (simp add: operational_def)
qed

text \<open>And then every reading queued so far has been handed to the uplink.\<close>

lemma can_deliver:
  assumes reach: "treach (n, T)" and room: "\<forall>i < N. (T i + 5300000) div 1000 < 2 ^ 32"
    and queues: "\<forall>a < N. a \<noteq> 0 \<longrightarrow> g_outQueue (nodes n a) \<noteq> None"
    and few: "\<forall>a < N. a \<noteq> 0 \<longrightarrow> length (originated (nodes n a)) \<le> 65534"
  shows "\<exists>n' T'. tsteps (n, T) (n', T') \<and> (\<forall>i < N. T' i \<le> T i + 5300000) \<and>
    (\<forall>k < N. k \<noteq> 0 \<longrightarrow> prefix (own_enqueued (nodes n k)) (own_enqueued (nodes n' k)) \<and>
      filter (\<lambda>r. fst r = of_nat k) (flushed (nodes n' 0)) = map reading (own_enqueued (nodes n' k)))"
proof -
  let ?E = "\<lambda>i. T i + 5300000"
  obtain n1 T1 where n1: "tsteps (n, T) (n1, T1)" "\<forall>i < N. T1 i = T i + 5000000" "operational ?E n1"
      "\<forall>i < N. onward 2 (nodes n i) (nodes n1 i)"
    using both_passes [OF assms(1-3)] by blast
  have "by_then ?E T1" using n1(2) by (simp add: by_then_def)
  from drain_down [OF order_refl _ timed_steps_reach [OF n1(1) reach] n1(3) this] two_nodes
  obtain n' T' where n': "evolves ?E (n1, T1) (n', T')" "\<forall>a < N. 1 \<le> a \<longrightarrow> drained (nodes n' a)" by auto
  have go: "tsteps (n, T) (n', T')" 
    using n'(1) by (auto simp: evolves_def intro: rtranclp_trans [OF n1(1)])
  note net = timed_net [OF timed_steps_reach [OF go reach], simplified]
  have same: "originated (nodes n' a) = originated (nodes n1 a)" "own_enqueued (nodes n' a) = own_enqueued (nodes n1 a)"
    if "a < N" for a
    using n'(1) that by (auto simp: evolves_def eases_def stays_def calm_def)
  have "length (originated (nodes n' a)) \<le> 65536" if "a < N" "a \<noteq> 0" for a
    using same(1) [OF that(1)] n1(4) few that by (fastforce simp: onward_def)
  then have "filter (\<lambda>r. fst r = of_nat k) (flushed (nodes n' 0)) = map reading (own_enqueued (nodes n' k))"
    if "k < N" "k \<noteq> 0" for k
    using that n'(2) reach_seq_ok [OF net]
    by (intro sunk_complete [OF net] own_seq_adj) auto
  moreover have "prefix (own_enqueued (nodes n k)) (own_enqueued (nodes n' k))" if "k < N" for k
    using same(2) [OF that] n1(4) that by (simp add: onward_def)
  moreover have "\<forall>i < N. T' i \<le> ?E i"
    using evolves_by_then [OF n'(1)] \<open>by_then ?E T1\<close> by (simp add: by_then_def)
  ultimately show ?thesis using go by blast
qed

end

end
