(* ===== verification/ChainProps.thy ===== *)
theory ChainProps
  imports ChainDrain
begin

text \<open>
  The properties of the chain (main/chain_node.cpp): the end-to-end theorems over the
  reachable networks, then the behaviour of the handlers one by one, each with a run or a
  state at which its hypotheses hold.
\<close>

section \<open>A run of three nodes\<close>

abbreviation trio_net :: "net_event list \<Rightarrow> StatusPacket list_q net" where
  "trio_net evs \<equiv> net_run list_queue 3 station (\<lambda>_. at 0) evs"

abbreviation trio_tab :: "net_event list \<Rightarrow> StatusPacket list_q rack" where
  "trio_tab evs \<equiv> rack_run list_queue 3 station (\<lambda>_. at 0) evs"

text \<open>The last acknowledgement, and the two readings at the Gateway acknowledged in turn.\<close>

definition trio_end :: "net_event list" where
  "trio_end = trio_events @ [Deliver 0 2]"

lemma trio_nodes: "i < 3 \<Longrightarrow> nodes (trio_net evs) i = rk_nodes (trio_tab evs) ! i"
  by (rule run_node)

lemma trio_reach: "net_reach list_queue 3 station (trio_net evs)"
  by (rule net_run_reach)

lemma trio_node:
  "nodes (trio_net evs) 0 = rk_nodes (trio_tab evs) ! 0"
  "nodes (trio_net evs) 1 = rk_nodes (trio_tab evs) ! 1"
  "nodes (trio_net evs) 2 = rk_nodes (trio_tab evs) ! 2"
  by (rule trio_nodes, simp)+

lemma below_3: "a < (3::nat) \<longleftrightarrow> a = 0 \<or> a = 1 \<or> a = 2"
  by auto

lemma trio_counts:
  "map (\<lambda>a. length (originated (rk_nodes (trio_tab trio_end) ! a))) [0, 1, 2] = [0, 1, 1]"
  by code_simp

lemma trio_few: "a < 3 \<Longrightarrow> length (originated (nodes (trio_net trio_end) a)) \<le> 65536"
  using trio_counts by (auto simp only: below_3 trio_node list.map list.inject) simp_all

section \<open>The chain end to end\<close>

text \<open>C1: In every reachable network, whatever the interleaving and whatever frames are lost
  or duplicated, what the Gateway has handed to the Ethernet uplink for station \<open>k\<close> is an
  initial part of the readings station \<open>k\<close> queued: none repeated, reordered, altered or
  skipped. (Up to 65536 readings per station: sequence numbers are 16 bits.)\<close>

theorem chain_in_order_exactly_once:
  assumes "chain Q valid contents capacity N macs"
    and "net_reach Q N macs n"
    and "k \<noteq> 0" and "k < N"
    and "\<And>a. a \<noteq> 0 \<Longrightarrow> a < N \<Longrightarrow> length (originated (nodes n a)) \<le> 65536"
  shows "prefix (filter (\<lambda>r. fst r = of_nat k) (flushed (nodes n 0)))
    (map reading (own_enqueued (nodes n k)))"
  using assms chain.reach_seq_ok [OF assms(1,2)]
  by (intro chain.sunk_prefix [OF assms(1,2)] own_seq_adj) auto

theorem chain_in_order_exactly_once_witness:
  "prefix (filter (\<lambda>r. fst r = of_nat 1) (flushed (nodes (trio_net trio_end) 0)))
     (map reading (own_enqueued (nodes (trio_net trio_end) 1))) \<and>
   flushed (nodes (trio_net trio_end) 0) =
     [(2, 0, 0, replicate 12 0), (1, 0, 1, [66, 49] @ replicate 10 0)]"
proof
  show "prefix (filter (\<lambda>r. fst r = of_nat 1) (flushed (nodes (trio_net trio_end) 0)))
     (map reading (own_enqueued (nodes (trio_net trio_end) 1)))"
    by (rule chain_in_order_exactly_once [OF trio_chain trio_reach]) (simp_all add: trio_few)
  show "flushed (nodes (trio_net trio_end) 0) =
     [(2, 0, 0, replicate 12 0), (1, 0, 1, [66, 49] @ replicate 10 0)]"
    unfolding trio_node by code_simp
qed

text \<open>C2: Nothing is lost on the way: when every relay from station \<open>k\<close> down to the Gateway
  has emptied its queue and has no packet outstanding, the Gateway has flushed exactly the
  readings station \<open>k\<close> queued, all of them and in order.\<close>

theorem drained_chain_complete:
  assumes "chain Q valid contents capacity N macs"
    and "net_reach Q N macs n"
    and "k \<noteq> 0" and "k < N"
    and "\<And>a. a \<noteq> 0 \<Longrightarrow> a < N \<Longrightarrow> length (originated (nodes n a)) \<le> 65536"
    and "\<And>a. k \<le> a \<Longrightarrow> a < N \<Longrightarrow> drained (nodes n a)"
  shows "filter (\<lambda>r. fst r = of_nat k) (flushed (nodes n 0)) = map reading (own_enqueued (nodes n k))"
  using assms chain.reach_seq_ok [OF assms(1,2)]
  by (intro chain.sunk_complete [OF assms(1,2)] own_seq_adj) auto

theorem drained_chain_complete_witness:
  "filter (\<lambda>r. fst r = of_nat 1) (flushed (nodes (trio_net trio_end) 0)) =
     map reading (own_enqueued (nodes (trio_net trio_end) 1))"
proof (rule drained_chain_complete [OF trio_chain trio_reach])
  have "\<forall>a \<in> set [1, 2]. drained (rk_nodes (trio_tab trio_end) ! a)"
    unfolding drained_def by code_simp
  then show "drained (nodes (trio_net trio_end) a)" if "1 \<le> a" "a < 3" for a
    using that by (auto simp only: trio_node below_3 list.set ball_simps)
qed (simp_all add: trio_few)

text \<open>In \<open>take 9 trio_events\<close> two packets are outstanding, one of them in the air, and nothing
  has reached the Gateway.\<close>

abbreviation trio_stuck :: "StatusPacket list_q net" where
  "trio_stuck \<equiv> trio_net (take 9 trio_events)"









text \<open>C4: One hop refines the stop-and-wait link: what the next station has accepted is what
  this one has begun to transmit, but for at most the packet now outstanding.\<close>

theorem hop_exactly_once:
  assumes "chain Q valid contents capacity N macs"
    and "net_reach Q N macs n"
    and "a < N" and "a \<noteq> 0"
    and "distinct_adj (map key (sent (nodes n a)))"
  shows "accepted (nodes n (nxt N a)) = map reading (sent (nodes n a)) \<or>
    (g_state (nodes n a) = kForwarding \<and>
     map reading (sent (nodes n a)) = accepted (nodes n (nxt N a)) @ [reading (g_pending (nodes n a))])"
  by (rule chain.hop_delivery [OF assms])

theorem hop_exactly_once_witness:
  "accepted (nodes (trio_net trio_events) (nxt 3 1)) = map reading (sent (nodes (trio_net trio_events) 1)) \<or>
   (g_state (nodes (trio_net trio_events) 1) = kForwarding \<and>
    map reading (sent (nodes (trio_net trio_events) 1)) =
      accepted (nodes (trio_net trio_events) (nxt 3 1)) @ [reading (g_pending (nodes (trio_net trio_events) 1))])"
proof (rule hop_exactly_once [OF trio_chain trio_reach])
  have "distinct_adj (map key (sent (rk_nodes (trio_tab trio_events) ! 1)))"
    by code_simp
  then show "distinct_adj (map key (sent (nodes (trio_net trio_events) 1)))"
    by (simp only: trio_node)
qed simp_all

text \<open>C14: A relay numbers its own readings 0, 1, 2, .. modulo 65536 and takes its lanes in
  turn, whether or not the queue had room for them; what it queued is a subsequence.\<close>

theorem readings_numbered:
  assumes "chain Q valid contents capacity N macs"
    and "net_reach Q N macs n" and "i < N"
  shows "map seq (originated (nodes n i)) = map of_nat [0..<length (originated (nodes n i))] \<and>
    map stream_id (originated (nodes n i)) =
      map (\<lambda>j. of_nat (j mod 3)) [0..<length (originated (nodes n i))] \<and>
    subseq (own_enqueued (nodes n i)) (originated (nodes n i))"
proof -
  have "unat kVideoStreamsPerNode = 3" by (simp add: config_defs)
  then show ?thesis
    using chain.reach_seq_ok [OF assms] own_enqueued_subseq [of "nodes n i"]
    by (simp add: seq_ok_def numbered_def)
qed

theorem readings_numbered_witness:
  "map seq (originated (nodes (trio_net trio_end) 1)) =
     map of_nat [0..<length (originated (nodes (trio_net trio_end) 1))] \<and>
   originated (nodes (trio_net trio_end) 1) \<noteq> []"
proof
  show "map seq (originated (nodes (trio_net trio_end) 1)) =
     map of_nat [0..<length (originated (nodes (trio_net trio_end) 1))]"
    using readings_numbered [OF trio_chain trio_reach [of trio_end], of 1] by simp
  show "originated (nodes (trio_net trio_end) 1) \<noteq> []"
    unfolding trio_node by code_simp
qed


lemma frame_ok_props:
  "frame_ok N i j f \<Longrightarrow> length f \<le> kMaxPacketBytes \<and> f ! 0 \<in> {kPktHello, kPktStatus, kPktAck} \<and>
     (is_status f \<longrightarrow> i \<noteq> 0 \<and> j = nxt N i \<and>
        unat (origin_node_id (dec_status f)) \<in> {1..i}) \<and> (is_ack f \<longrightarrow> j = prv N i)"
  by (auto simp: frame_ok_def pkt_ok_def enc_first sizeof_defs config_defs)

text \<open>C21: Every frame in flight fits an ESP-NOW frame and is a HELLO, a status or an ACK; a
  status only goes from a relay to its \<open>next\<close> and carries the reading of a station no
  further down, an ACK only goes to \<open>prev\<close>. The Gateway never sends a status.\<close>

theorem frames_on_air:
  assumes "chain Q valid contents capacity N macs"
    and "net_reach Q N macs n"
    and "i < N" and "j < N" and "i \<noteq> j" and "f \<in> set (air n i j)"
  shows "length f \<le> kMaxPacketBytes \<and> f ! 0 \<in> {kPktHello, kPktStatus, kPktAck} \<and>
    (is_status f \<longrightarrow> i \<noteq> 0 \<and> j = nxt N i \<and> unat (origin_node_id (dec_status f)) \<in> {1..i}) \<and>
    (is_ack f \<longrightarrow> j = prv N i)"
  using chain.net_reach_inv [OF assms(1,2)] assms(3-)
  by (intro frame_ok_props) (simp add: chain.net_inv_def [OF assms(1)])

definition frame_1_2 :: bytes where
  "frame_1_2 = [2, 1, 0, 0, 0, 1, 66, 49] @ replicate 10 0"

theorem frames_on_air_witness:
  "is_status frame_1_2 \<and> unat (origin_node_id (dec_status frame_1_2)) \<in> {1..1}"
proof -
  have "rk_air (trio_tab (take 9 trio_events)) ! 1 ! 2 = [frame_1_2]"
    by code_simp
  then have "frame_1_2 \<in> set (air (trio_net (take 9 trio_events)) 1 2)"
    by (simp add: run_air)
  from frames_on_air [OF trio_chain trio_reach _ _ _ this]
  have "is_status frame_1_2 \<longrightarrow> unat (origin_node_id (dec_status frame_1_2)) \<in> {1..1}"
    by simp
  moreover have "is_status frame_1_2" by code_simp
  ultimately show ?thesis by simp
qed

text \<open>C22: A relay's outgoing queue never holds more than eight packets, and holds exactly the
  packets it has queued and not yet begun to transmit; the Gateway has no queue.\<close>

theorem out_queue_bounded:
  assumes "chain Q valid contents capacity N macs"
    and "net_reach Q N macs n" and "i < N"
  shows "case g_outQueue (nodes n i) of
      None \<Rightarrow> enqueued (nodes n i) = sent (nodes n i)
    | Some q \<Rightarrow> i \<noteq> 0 \<and> length (contents q) \<le> 8 \<and> enqueued (nodes n i) = sent (nodes n i) @ contents q"
proof -
  have "node_ok valid contents capacity N macs i (nodes n i)"
    using chain.net_reach_inv [OF assms(1,2)] assms(3) by (simp add: chain.net_inv_def [OF assms(1)])
  then show ?thesis
    by (auto simp: node_ok_defs queue_inv_def config_defs split: option.splits if_splits)
qed

theorem out_queue_bounded_witness:
  "enqueued (nodes (trio_net trio_end) 1) = sent (nodes (trio_net trio_end) 1) @ []"
proof -
  have "g_outQueue (nodes (trio_net trio_end) 1) = Some ([], 8)"
    unfolding trio_node by code_simp
  with out_queue_bounded [OF trio_chain trio_reach [of trio_end], of 1] show ?thesis by simp
qed

section \<open>Handlers\<close>

definition ack_call :: "StatusPacket \<Rightarrow> 'q node \<Rightarrow> call" where
  "ack_call p s = EspSend (g_prevMac s)
     (enc_ack (AckPacket0\<lparr>ack_origin_node_id := origin_node_id p, ack_seq := seq p\<rparr>))"

text \<open>C18: A relay with a new packet from \<open>prev\<close> queues and acknowledges it when its queue has
  room, and otherwise only counts the drop: no acknowledgement, nothing remembered, so that
  \<open>prev\<close> keeps the packet and offers it again.\<close>

theorem back_pressure:
  assumes "rtos_queue Q valid contents capacity"
    and "g_prevKnown s" and "\<not> g_isGateway s" and "\<not> isDuplicate p s"
    and "g_outQueue s = Some q" and "queue_inv valid contents capacity q"
  shows "if length (contents q) < capacity q
    then \<exists>q'. contents q' = contents q @ [p] \<and>
      handleStatus Q (g_prevMac s) p s =
        s\<lparr>g_outQueue := Some q', g_statIn := g_statIn s + 1, g_hasAcceptedAny := True,
          g_lastAcceptedOrigin := origin_node_id p, g_lastAcceptedSeq := seq p,
          calls := calls s @ [QueueSend p True, ack_call p s]\<rparr>
    else handleStatus Q (g_prevMac s) p s =
      s\<lparr>g_statQueueDrops := g_statQueueDrops s + 1, calls := calls s @ [QueueSend p False]\<rparr>"
proof (cases "q_send Q q p")
  case None
  then have "length (contents q) = capacity q"
    using rtos_queue.send_None_iff [OF assms(1,6)] by simp
  with None assms show ?thesis
    by (simp add: handleStatus_def outQueueSend_def emit_def)
next
  case (Some q')
  have valid: "valid q" using assms(6) by (simp add: queue_inv_def)
  from rtos_queue.send_SomeD [OF assms(1) valid Some] have q': "contents q' = contents q @ [p]" by simp
  have "length (contents q) \<noteq> capacity q"
    using Some rtos_queue.send_None_iff [OF assms(1,6), of p] by simp
  with assms(6) have "length (contents q) < capacity q" by (simp add: queue_inv_def)
  with Some assms q' show ?thesis
    by (auto simp: handleStatus_def outQueueSend_def emit_def sendAck_def noteAccepted_def ack_call_def
        intro!: exI [of _ q'])
qed

text \<open>Station 1 of three, discovered, with its reading on the way; and a packet of station 0
  it could be sent (no station sends one there, but the handler does not look).\<close>

abbreviation relay1 :: "StatusPacket list_q node" where
  "relay1 \<equiv> rk_nodes (trio_tab (take 6 trio_events)) ! 1"

definition some_status :: StatusPacket where
  "some_status = StatusPacket0\<lparr>origin_node_id := 7, seq := 3, occupied := 1\<rparr>"

theorem back_pressure_witness:
  "handleStatus list_queue (g_prevMac relay1) some_status (relay1\<lparr>g_outQueue := Some (replicate 8 some_status, 8)\<rparr>) =
     relay1\<lparr>g_outQueue := Some (replicate 8 some_status, 8), g_statQueueDrops := 1,
       calls := calls relay1 @ [QueueSend some_status False]\<rparr>"
proof -
  let ?s = "relay1\<lparr>g_outQueue := Some (replicate 8 some_status, 8)\<rparr>"
  have "g_prevKnown relay1 \<and> \<not> g_isGateway relay1 \<and> \<not> isDuplicate some_status relay1 \<and>
      g_statQueueDrops relay1 = 0"
    by code_simp
  then have "g_prevKnown ?s" "\<not> g_isGateway ?s" "\<not> isDuplicate some_status ?s" "g_statQueueDrops ?s = 0"
    by (simp_all add: isDuplicate_def)
  from back_pressure [OF list_queue_contract this(1-3), of "(replicate 8 some_status, 8)"] this(4)
  show ?thesis by (simp add: queue_inv_def)
qed

text \<open>C19: Once a packet from \<open>prev\<close> is accepted, every further copy of it is only acknowledged
  again: nothing is queued, flushed or counted twice.\<close>

theorem retransmission_idempotent:
  assumes "g_prevKnown s" and "isDuplicate p (handleStatus Q (g_prevMac s) p s)"
  shows "(handleStatus Q (g_prevMac s) p ^^ Suc k) s =
    (let s' = handleStatus Q (g_prevMac s) p s in s'\<lparr>calls := calls s' @ replicate k (ack_call p s)\<rparr>)"
proof -
  let ?s' = "handleStatus Q (g_prevMac s) p s"
  have known: "g_prevKnown ?s'" "g_prevMac ?s' = g_prevMac s"
    using assms(1) by (auto simp: handleStatus_def sendAck_def noteAccepted_def outQueueSend_def emit_def
        Let_def split: option.splits)
  have "(handleStatus Q (g_prevMac s) p ^^ k) ?s' = ?s'\<lparr>calls := calls ?s' @ replicate k (ack_call p s)\<rparr>"
  proof (induction k)
    case (Suc k)
    then show ?case
      using known assms(2)
      by (simp add: handleStatus_def [of Q "g_prevMac s" p "?s'\<lparr>calls := _\<rparr>"] isDuplicate_def sendAck_def
          emit_def ack_call_def replicate_append_same)
  qed simp
  then show ?thesis by (simp add: Let_def funpow_swap1)
qed

theorem retransmission_idempotent_witness:
  "(handleStatus list_queue (g_prevMac relay1) some_status ^^ 3) relay1 =
     (let s' = handleStatus list_queue (g_prevMac relay1) some_status relay1
      in s'\<lparr>calls := calls s' @ replicate 2 (ack_call some_status relay1)\<rparr>)"
proof -
  have "g_prevKnown relay1"
    "isDuplicate some_status (handleStatus list_queue (g_prevMac relay1) some_status relay1)"
    by code_simp+
  from retransmission_idempotent [OF this, of 2] show ?thesis by (simp add: numeral_3_eq_3)
qed

text \<open>C20: Once a station of a reachable network has left discovery it keeps its neighbours, whatever
  frame comes from whatever address: it knows the address of \<open>prev\<close> and, on a relay, of \<open>next\<close>, both
  those of the neighbouring stations, and no frame changes them. A frame from any other address leaves
  the node exactly as it was, but for one case: the Gateway, which leaves discovery with
  \<open>prev\<close> alone, can still learn its \<open>next\<close> from a HELLO (it never sends there).\<close>

theorem neighbours_fixed:
  assumes "chain Q valid contents capacity N macs" and "net_reach Q N macs n" and "i < N"
    and "g_state (nodes n i) \<noteq> kDiscovering"
  shows "let s = nodes n i; s' = onEspNowRecv Q m f s in
    g_prevKnown s \<and> g_prevMac s = macs (prv N i) \<and> g_prevKnown s' \<and> g_prevMac s' = g_prevMac s \<and>
    (i \<noteq> 0 \<longrightarrow> g_nextKnown s) \<and>
    (g_nextKnown s \<longrightarrow> g_nextMac s = macs (nxt N i) \<and> g_nextKnown s' \<and> g_nextMac s' = g_nextMac s) \<and>
    (m \<noteq> g_prevMac s \<and> (g_nextKnown s \<longrightarrow> m \<noteq> g_nextMac s) \<longrightarrow>
      s' = s \<or> (i = 0 \<and> \<not> g_nextKnown s \<and> s' = learnNext m (dec_hello f) s))"
proof -
  let ?s = "nodes n i"
  have "node_ok valid contents capacity N macs i ?s"
    using chain.net_reach_inv [OF assms(1,2)] assms(3) by (simp add: chain.net_inv_def [OF assms(1)])
  then have ok: "g_prevKnown ?s" "g_prevMac ?s = macs (prv N i)" "i \<noteq> 0 \<longrightarrow> g_nextKnown ?s"
      "g_nextKnown ?s \<longrightarrow> g_nextMac ?s = macs (nxt N i)" "g_isGateway ?s \<longleftrightarrow> i = 0"
    using assms(3,4) by (auto simp: node_ok_def peers_ok_def ids_ok_def)
  have learn: "g_state (learnNext m h ?s) \<noteq> kDiscovering" "learnPrev m h (learnNext m h ?s) = learnNext m h ?s"
      "g_prevMac (learnNext m h ?s) = g_prevMac ?s" "g_prevKnown (learnNext m h ?s)" for h
    using ok(1) assms(4) by (simp_all add: learnNext_def learnPrev_def emit_def)
  have hello: "handleHello m h ?s = ?s \<or> handleHello m h ?s = learnNext m h ?s" for h
    using learn by (simp add: handleHello_def)
  have status: "g_prevMac (handleStatus Q m p ?s) = g_prevMac ?s \<and> g_nextMac (handleStatus Q m p ?s) = g_nextMac ?s \<and>
      g_prevKnown (handleStatus Q m p ?s) = g_prevKnown ?s \<and> g_nextKnown (handleStatus Q m p ?s) = g_nextKnown ?s \<and>
      (m = g_prevMac ?s \<or> handleStatus Q m p ?s = ?s)" for p
    by (simp add: handleStatus_def sendAck_def noteAccepted_def outQueueSend_def emit_def Let_def split: option.split)
  have ack: "g_prevMac (handleAck m a ?s) = g_prevMac ?s \<and> g_nextMac (handleAck m a ?s) = g_nextMac ?s \<and>
      g_prevKnown (handleAck m a ?s) = g_prevKnown ?s \<and> g_nextKnown (handleAck m a ?s) = g_nextKnown ?s \<and>
      ((g_nextKnown ?s \<and> m = g_nextMac ?s) \<or> handleAck m a ?s = ?s)" for a
    by (simp add: handleAck_def)
  let ?s' = "onEspNowRecv Q m f ?s"
  have "?s' \<in> {?s, learnNext m (dec_hello f) ?s, handleStatus Q m (dec_status f) ?s, handleAck m (dec_ack f) ?s}"
    using hello [of "dec_hello f"] by (simp add: onEspNowRecv_def) blast
  then consider (same) "?s' = ?s" | (learns) "?s' = learnNext m (dec_hello f) ?s"
    | (status) "?s' = handleStatus Q m (dec_status f) ?s" | (ack) "?s' = handleAck m (dec_ack f) ?s"
    by blast
  then show ?thesis
  proof cases
    case learns
    have "g_nextKnown ?s \<Longrightarrow> learnNext m (dec_hello f) ?s = ?s" by (simp add: learnNext_def)
    then show ?thesis using ok learn(3,4) unfolding learns Let_def by (cases "g_nextKnown ?s") auto
  qed (use ok status [of "dec_status f"] ack [of "dec_ack f"] in \<open>auto simp: Let_def\<close>)
qed

text \<open>Station 1 in the middle of the run, and the Gateway of a run in which only the HELLO of station 2 has
  reached it.\<close>

theorem neighbours_fixed_witness:
  "onEspNowRecv list_queue (station 9) (enc_status some_status) (nodes trio_stuck 1) = nodes trio_stuck 1 \<and>
   g_prevMac (nodes (trio_net [Deliver 2 0]) 0) = station 2 \<and>
   onEspNowRecv list_queue (station 9) [1, 1, 3] (nodes (trio_net [Deliver 2 0]) 0) =
     learnNext (station 9) (dec_hello [1, 1, 3]) (nodes (trio_net [Deliver 2 0]) 0)"
proof (intro conjI)
  have st: "g_state (nodes trio_stuck 1) \<noteq> kDiscovering" "g_state (nodes (trio_net [Deliver 2 0]) 0) \<noteq> kDiscovering"
    unfolding trio_node by code_simp+
  have at1: "g_prevMac (nodes trio_stuck 1) \<noteq> station 9 \<and> g_nextMac (nodes trio_stuck 1) \<noteq> station 9"
    and new: "onEspNowRecv list_queue (station 9) [1, 1, 3] (nodes (trio_net [Deliver 2 0]) 0) \<noteq> nodes (trio_net [Deliver 2 0]) 0"
    and at0: "g_prevMac (nodes (trio_net [Deliver 2 0]) 0) \<noteq> station 9" "\<not> g_nextKnown (nodes (trio_net [Deliver 2 0]) 0)"
    unfolding trio_node by code_simp+
  show "onEspNowRecv list_queue (station 9) (enc_status some_status) (nodes trio_stuck 1) = nodes trio_stuck 1"
    using neighbours_fixed [OF trio_chain trio_reach _ st(1), of "station 9" "enc_status some_status"] at1
    by (auto simp: Let_def)
  note gw = neighbours_fixed [OF trio_chain trio_reach _ st(2), of "station 9" "[1, 1, 3]", unfolded Let_def]
  show "g_prevMac (nodes (trio_net [Deliver 2 0]) 0) = station 2" using gw by (simp add: prv_def)
  show "onEspNowRecv list_queue (station 9) [1, 1, 3] (nodes (trio_net [Deliver 2 0]) 0) =
      learnNext (station 9) (dec_hello [1, 1, 3]) (nodes (trio_net [Deliver 2 0]) 0)"
    using gw new at0 by auto
qed

definition hello_of :: "nat \<Rightarrow> nat \<Rightarrow> bytes" where
  "hello_of N y = enc_hello (HelloPacket0\<lparr>hello_node_id := of_nat y, hello_chain_size := of_nat N\<rparr>)"

definition discovered :: "nat \<Rightarrow> (nat \<Rightarrow> mac) \<Rightarrow> nat \<Rightarrow> nat list \<Rightarrow> 'q node \<Rightarrow> bool" where
  "discovered N macs i ys s \<longleftrightarrow> g_chainSize s = of_nat N \<and> (g_isGateway s \<longleftrightarrow> i = 0) \<and>
     g_nextId s = of_nat (nxt N i) \<and> g_prevId s = of_nat (prv N i) \<and>
     (g_nextKnown s \<longleftrightarrow> nxt N i \<in> set ys) \<and> (g_prevKnown s \<longleftrightarrow> prv N i \<in> set ys) \<and>
     (g_nextKnown s \<longrightarrow> g_nextMac s = macs (nxt N i)) \<and> (g_prevKnown s \<longrightarrow> g_prevMac s = macs (prv N i)) \<and>
     g_state s = (if g_prevKnown s \<and> (i = 0 \<or> g_nextKnown s) then kIdle else kDiscovering)"

lemma discovered_hello:
  assumes "2 \<le> N" and "N \<le> 64" and "y < N" and "discovered N macs i ys s"
  shows "discovered N macs i (y # ys) (onEspNowRecv Q (macs y) (hello_of N y) s)"
proof -
  have lt: "nxt N i < 256" "prv N i < 256" "y < 256"
    using assms(1-3) mod_less_divisor [of N "i + 1"] mod_less_divisor [of N "i + N - 1"]
    unfolding nxt_def prv_def by linarith+
  have ids: "(of_nat y :: u8) = of_nat (nxt N i) \<longleftrightarrow> y = nxt N i" "(of_nat y :: u8) = of_nat (prv N i) \<longleftrightarrow> y = prv N i"
    "(of_nat (nxt N i) :: u8) = of_nat (prv N i) \<longleftrightarrow> nxt N i = prv N i"
    "(of_nat (prv N i) :: u8) = of_nat (nxt N i) \<longleftrightarrow> prv N i = nxt N i"
    using lt by (simp_all add: of_nat_u8_eq)
  have "(of_nat y :: u8) < of_nat N"
    using assms(2,3) by (simp add: word_less_nat_alt unat_of_nat_u8)
  then have "onEspNowRecv Q (macs y) (hello_of N y) s =
      handleHello (macs y) (HelloPacket0\<lparr>hello_node_id := of_nat y, hello_chain_size := of_nat N\<rparr>) s"
    by (simp add: onEspNowRecv_def hello_of_def enc_first HelloPacket0_def sizeof_Hello_def)
  moreover have "discovered N macs i (y # ys)
      (handleHello (macs y) (HelloPacket0\<lparr>hello_node_id := of_nat y, hello_chain_size := of_nat N\<rparr>) s)"
    using assms(4) \<open>of_nat y < of_nat N\<close>
    by (auto simp: discovered_def handleHello_def learnNext_def learnPrev_def emit_def ids Let_def
        not_le)
  ultimately show ?thesis by simp
qed

text \<open>C15: Discovery completes: after the HELLOs of both neighbours, in any order and mixed
  with those of any other stations of the chain, a booted node is idle and knows both.\<close>

theorem discovery_completes:
  assumes "2 \<le> N" and "N \<le> 64" and "i < N"
    and "set ys \<subseteq> {..<N}" and "nxt N i \<in> set ys" and "prv N i \<in> set ys"
  shows "let s = fold (\<lambda>y. onEspNowRecv Q (macs y) (hello_of N y)) ys
      (chain_init Q now (of_nat i) (of_nat N) node0)
    in g_state s = kIdle \<and> g_nextKnown s \<and> g_nextMac s = macs (nxt N i) \<and>
       g_prevKnown s \<and> g_prevMac s = macs (prv N i)"
proof -
  let ?s0 = "chain_init Q now (of_nat i) (of_nat N) node0"
  have "unat (of_nat i :: u8) = i" "unat (of_nat N :: u8) = N" "(of_nat i :: u8) = 0 \<longleftrightarrow> i = 0"
    using assms(2,3) of_nat_u8_eq [of i 0] by (simp_all add: unat_of_nat_u8)
  then have "discovered N macs i [] ?s0"
    by (auto simp: discovered_def chain_init_def broadcastHello_def emit_def node0_def nxt_def prv_def
        kGatewayNodeId_def Let_def)
  then have "discovered N macs i (rev ys @ []) (fold (\<lambda>y. onEspNowRecv Q (macs y) (hello_of N y)) ys ?s0)"
    using assms(4)
  proof (induction ys rule: rev_induct)
    case (snoc y ys)
    then show ?case using discovered_hello [OF assms(1,2), of y] by simp
  qed simp
  then show ?thesis
    using assms(5,6) by (simp add: discovered_def Let_def)
qed

theorem discovery_completes_witness:
  "let s = fold (\<lambda>y. onEspNowRecv list_queue (station y) (hello_of 4 y)) [0, 3, 1]
      (chain_init list_queue (at 0) (of_nat 2) (of_nat 4) node0)
   in g_state s = kIdle \<and> g_nextKnown s \<and> g_nextMac s = station (nxt 4 2) \<and>
      g_prevKnown s \<and> g_prevMac s = station (prv 4 2)"
  by (rule discovery_completes) (simp_all add: nxt_def prv_def)

definition can_take :: "(StatusPacket, 'q) queue_ops \<Rightarrow> StatusPacket \<Rightarrow> 'q node \<Rightarrow> bool" where
  "can_take Q p s \<longleftrightarrow> g_prevKnown s \<and> (isDuplicate p s \<or> g_isGateway s \<or> fst (outQueueSend Q p s))"

lemma status_acknowledged:
  assumes "can_take Q p s"
  shows "ack_call p s \<in> set (new_calls s (handleStatus Q (g_prevMac s) p s))"
proof -
  have "prefix (calls s) (calls (handleStatus Q (g_prevMac s) p s)) \<and>
      ack_call p s \<in> set (drop (length (calls s)) (calls (handleStatus Q (g_prevMac s) p s)))"
    using assms
    by (auto simp: can_take_def handleStatus_def sendAck_def noteAccepted_def outQueueSend_def emit_def
        ack_call_def Let_def split: option.splits)
  then show ?thesis by (simp add: new_calls_def)
qed

text \<open>One undisturbed exchange is enough: when the packet a relay is waiting on reaches
  the next station, and that station is the Gateway, has room, or has already taken it, the
  acknowledgement it sends back sets the relay free.\<close>

lemma exchange_completes:
  assumes "chain Q valid contents capacity N macs" and "net_reach Q N macs n"
    and "a < N" and "a \<noteq> 0" and "g_state (nodes n a) = kForwarding"
    and "can_take Q (g_pending (nodes n a)) (nodes n (nxt N a))"
  shows "\<exists>f. EspSend (macs a) f \<in> set (new_calls (nodes n (nxt N a))
      (onEspNowRecv Q (macs a) (enc_status (g_pending (nodes n a))) (nodes n (nxt N a)))) \<and>
    g_state (onEspNowRecv Q (macs (nxt N a)) f (nodes n a)) = kIdle"
proof -
  let ?s = "nodes n a" and ?t = "nodes n (nxt N a)" and ?p = "g_pending (nodes n a)"
  have less: "nxt N a < N" and pred: "prv N (nxt N a) = a"
    using chain.nxt_less [OF assms(1)] chain.prv_nxt [OF assms(1,3)] by auto
  have "\<And>i. i < N \<Longrightarrow> node_ok valid contents capacity N macs i (nodes n i)"
    using chain.net_reach_inv [OF assms(1,2)] by (simp add: chain.net_inv_def [OF assms(1)])
  from this [OF assms(3)] this [OF less]
  have s: "g_nextKnown ?s" "g_nextMac ?s = macs (nxt N a)" and pk: "pkt_ok a ?p"
    and mac: "g_prevMac ?t = macs a"
    using assms(4-6) pred by (auto simp: node_ok_defs can_take_def split: option.splits)
  let ?ack = "AckPacket0\<lparr>ack_origin_node_id := origin_node_id ?p, ack_seq := seq ?p\<rparr>"
  have "onEspNowRecv Q (macs a) (enc_status ?p) ?t = handleStatus Q (g_prevMac ?t) ?p ?t"
    using pk mac by (simp add: onEspNowRecv_def enc_first pkt_ok_def pkt_type_defs sizeof_Status_def)
  then have "EspSend (macs a) (enc_ack ?ack) \<in> set (new_calls ?t
      (onEspNowRecv Q (macs a) (enc_status ?p) ?t))"
    using status_acknowledged [OF assms(6)] mac by (simp add: ack_call_def)
  moreover have "ack_type ?ack = kPktAck" by (simp add: AckPacket0_def)
  then have "onEspNowRecv Q (macs (nxt N a)) (enc_ack ?ack) ?s = handleAck (macs (nxt N a)) ?ack ?s"
    by (simp add: onEspNowRecv_def enc_first pkt_type_defs sizeof_Ack_def)
  then have "g_state (onEspNowRecv Q (macs (nxt N a)) (enc_ack ?ack) ?s) = kIdle"
    using assms(5) s by (simp add: handleAck_def)
  ultimately show ?thesis by blast
qed

lemma exchange_completes_at_trio:
  "\<exists>f. EspSend (station 2) f \<in> set (new_calls (nodes (trio_net (take 9 trio_events)) (nxt 3 2))
      (onEspNowRecv list_queue (station 2) (enc_status (g_pending (nodes (trio_net (take 9 trio_events)) 2)))
        (nodes (trio_net (take 9 trio_events)) (nxt 3 2)))) \<and>
    g_state (onEspNowRecv list_queue (station (nxt 3 2)) f (nodes (trio_net (take 9 trio_events)) 2)) = kIdle"
proof (rule exchange_completes [OF trio_chain trio_reach])
  show "g_state (nodes (trio_net (take 9 trio_events)) 2) = kForwarding"
    unfolding trio_node by code_simp
  have "nxt 3 2 = 0" by (simp add: nxt_def)
  then show "can_take list_queue (g_pending (nodes (trio_net (take 9 trio_events)) 2))
      (nodes (trio_net (take 9 trio_events)) (nxt 3 2))"
    unfolding can_take_def by (simp only: trio_node) code_simp
qed simp_all

section \<open>Timers\<close>

text \<open>What can happen to one node: an iteration, a received frame, a lane reading.\<close>

datatype node_input = InLoop clock | InFrame mac bytes | InLane u8 u8 bytes

fun node_exec :: "(StatusPacket, 'q) queue_ops \<Rightarrow> node_input \<Rightarrow> 'q node \<Rightarrow> 'q node" where
  "node_exec Q (InLoop now) s = loop_body Q now s"
| "node_exec Q (InFrame m f) s = onEspNowRecv Q m f s"
| "node_exec Q (InLane sid oc pl) s = setLaneStatus sid oc pl s"

lemma mod_once: "(m::int) \<le> x \<Longrightarrow> x < 2 * m \<Longrightarrow> x mod m = x - m"
  by (metis add.commute diff_add_cancel diff_ge_0_iff_ge diff_less_eq minus_mod_self2 mod_pos_pos_trivial mult_2)

text \<open>When a pass that puts a STATUS on the air reads the clock for the deadline.\<close>

definition armed_at :: "clock \<Rightarrow> 'q node \<Rightarrow> int" where
  "armed_at now s = now (if g_state s = kForwarding then RetxDeadline else FwdDeadline)"

lemma hello_airs: "aired (loop_hello now s) = aired s" "g_pending (loop_hello now s) = g_pending s"
  "g_nextMac (loop_hello now s) = g_nextMac s" "g_nextKnown (loop_hello now s) = g_nextKnown s"
  "g_isGateway (loop_hello now s) = g_isGateway s"
  by (simp_all add: loop_hello_def broadcastHello_def emit_def trace)

lemma local_airs: "aired (loop_local Q now s) = aired s" "g_pending (loop_local Q now s) = g_pending s"
  "g_nextMac (loop_local Q now s) = g_nextMac s" "g_nextKnown (loop_local Q now s) = g_nextKnown s"
  "g_isGateway (loop_local Q now s) = g_isGateway s"
  by (simp_all add: loop_local_def outQueueSend_def emit_def trace Let_def split: option.split)

lemmas stages_air = hello_airs local_airs hello_stamps(3,4) local_stamps(3,4)

definition waits :: "u32 \<Rightarrow> mac \<Rightarrow> StatusPacket \<Rightarrow> bytes list \<Rightarrow> 'q node \<Rightarrow> bool" where
  "waits dl m p fs s \<longleftrightarrow> g_state s = kForwarding \<and> \<not> g_isGateway s \<and> g_nextKnown s \<and> g_nextMac s = m \<and>
     g_pending s = p \<and> g_ackDeadlineMs s = dl \<and> aired s = fs"

lemma send_arms:
  assumes "aired (loop_send Q now s) \<noteq> aired s" and "g_nextKnown s" and "\<not> g_isGateway s"
  shows "\<exists>p. waits (nowMs (armed_at now s) + kAckTimeoutMs) (g_nextMac s) p (aired s @ [enc_status p]) (loop_send Q now s)"
  using assms
  by (auto simp: loop_send_def retransmit_def outQueueReceive_def beginForwarding_def sendStatus_def emit_def
      armed_at_def waits_def trace long_status Let_def split: option.splits if_splits)

lemma body_arms:
  assumes "aired (loop_body Q now s) \<noteq> aired s" and "g_nextKnown s"
  shows "\<exists>p. waits (nowMs (armed_at now s) + kAckTimeoutMs) (g_nextMac s) p (aired s @ [enc_status p]) (loop_body Q now s)"
proof -
  let ?s = "loop_local Q now (loop_hello now s)"
  have body: "loop_body Q now s = loop_send Q now ?s" and gw: "\<not> g_isGateway ?s"
    using assms(1) by (auto simp: loop_body_def stages_air Let_def split: if_splits)
  from assms have "aired (loop_send Q now ?s) \<noteq> aired ?s" "g_nextKnown ?s" by (simp_all add: body stages_air)
  from send_arms [OF this gw] show ?thesis by (simp add: body stages_air armed_at_def)
qed

lemma waits_stages: "waits dl m p fs s \<Longrightarrow> waits dl m p fs (loop_local Q now (loop_hello now s))"
  by (simp add: waits_def stages_air)

lemma waits_body:
  assumes "waits dl m p fs s"
  shows "if dl \<le> nowMs (now AckDue) then aired (loop_body Q now s) = fs @ [enc_status p]
    else waits dl m p fs (loop_body Q now s)"
proof -
  note w = waits_stages [OF assms, of Q now]
  then have "loop_body Q now s = loop_send Q now (loop_local Q now (loop_hello now s))"
    using assms by (simp add: loop_body_def waits_def stages_air Let_def)
  with w show ?thesis
    by (auto simp: waits_def loop_send_def retransmit_def sendStatus_def emit_def trace long_status Let_def)
qed

lemma waits_recv:
  assumes "waits dl m p fs s" and "\<not> (m' = m \<and> is_ack f \<and> ack_key f = key p)"
  shows "waits dl m p fs (onEspNowRecv Q m' f s)"
proof -
  have hello: "waits dl m p fs (handleHello m' h s)" for h
    using assms(1) by (simp add: waits_def handleHello_def learnNext_def learnPrev_def emit_def trace Let_def)
  have status: "waits dl m p fs (handleStatus Q m' q s)" for q
    using assms(1) by (simp add: waits_def handleStatus_def sendAck_def noteAccepted_def outQueueSend_def emit_def
        enc_ack_def sizeof_Ack_def trace Let_def split: option.split)
  have "f ! 0 = kPktAck \<Longrightarrow> sizeof_Ack \<le> length f \<Longrightarrow> waits dl m p fs (handleAck m' (dec_ack f) s)"
    using assms by (auto simp: waits_def handleAck_def is_ack_def ack_key_def key_def)
  with hello status assms(1) show ?thesis by (simp add: onEspNowRecv_def)
qed

lemma waits_run:
  assumes "waits dl m p fs s"
    and "\<And>m' f. InFrame m' f \<in> set evs \<Longrightarrow> \<not> (m' = m \<and> is_ack f \<and> ack_key f = key p)"
    and "\<And>now. InLoop now \<in> set evs \<Longrightarrow> \<not> dl \<le> nowMs (now AckDue)"
  shows "waits dl m p fs (fold (node_exec Q) evs s)"
  using assms
proof (induction evs arbitrary: s)
  case (Cons ev evs)
  have "waits dl m p fs (node_exec Q ev s)"
  proof (cases ev)
    case (InLoop now)
    then show ?thesis using waits_body [OF Cons.prems(1), of now Q] Cons.prems(3) [of now] by simp
  next
    case (InFrame m' f)
    then show ?thesis using waits_recv [OF Cons.prems(1)] Cons.prems(2) [of m' f] by simp
  next
    case (InLane sid oc pl)
    then show ?thesis using Cons.prems(1) by (simp add: waits_def setLaneStatus_def trace)
  qed
  from Cons.IH [OF this] Cons.prems(2,3) show ?case by simp
qed simp

text \<open>C34: Away from the wrap of the 32-bit millisecond clock the acknowledgement timer is
  exact. Take a pass that puts a STATUS on the air, for the first time or again, and any inputs of the
  node after it without the acknowledgement: the packet is not sent again by any pass that looks at the
  clock less than 300 ms after the deadline was armed, however many there are, and the
  same packet is sent again, once, by the first one that looks later.\<close>

theorem ack_timer_exact:
  assumes "aired (loop_body Q now0 s) \<noteq> aired s" and "g_nextKnown s"
    and "0 \<le> armed_at now0 s" and "armed_at now0 s div 1000 + 300 < 2 ^ 32"
    and "\<And>m f. InFrame m f \<in> set evs \<Longrightarrow>
      \<not> (m = g_nextMac s \<and> is_ack f \<and> ack_key f = key (g_pending (loop_body Q now0 s)))"
    and "\<And>now. InLoop now \<in> set evs \<Longrightarrow> 0 \<le> now AckDue \<and> now AckDue div 1000 < armed_at now0 s div 1000 + 300"
    and "0 \<le> now AckDue" and "now AckDue div 1000 < 2 ^ 32"
  shows "let s0 = loop_body Q now0 s; s1 = fold (node_exec Q) evs s0 in
    aired s0 = aired s @ [enc_status (g_pending s0)] \<and> aired s1 = aired s0 \<and>
    aired (loop_body Q now s1) = aired s0 @
      (if armed_at now0 s div 1000 + 300 \<le> now AckDue div 1000 then [enc_status (g_pending s0)] else [])"
proof -
  let ?dl = "nowMs (armed_at now0 s) + kAckTimeoutMs" and ?s0 = "loop_body Q now0 s"
  obtain p where w: "waits ?dl (g_nextMac s) p (aired s @ [enc_status p]) ?s0" using body_arms [OF assms(1,2)] by blast
  then have p: "g_pending ?s0 = p" "aired ?s0 = aired s @ [enc_status p]" by (simp_all add: waits_def)
  have due: "?dl \<le> nowMs t \<longleftrightarrow> armed_at now0 s div 1000 + 300 \<le> t div 1000" if "0 \<le> t" "t div 1000 < 2 ^ 32" for t
    using that assms(3,4) by (simp add: word_le_def uint_deadline uint_nowMs_small)
  have "waits ?dl (g_nextMac s) p (aired s @ [enc_status p]) (fold (node_exec Q) evs ?s0)"
  proof (rule waits_run [OF w])
    show "\<not> (m' = g_nextMac s \<and> is_ack f \<and> ack_key f = key p)" if "InFrame m' f \<in> set evs" for m' f
      using assms(5) [OF that] p(1) by simp
    show "\<not> ?dl \<le> nowMs (now AckDue)" if "InLoop now \<in> set evs" for now
      using assms(6) [OF that] assms(4) due [of "now AckDue"] by simp
  qed
  from this waits_body [OF this, of now Q] show ?thesis
    using due [OF assms(7,8)] p by (auto simp: waits_def Let_def)
qed

text \<open>Station 1 with its first reading due; two passes, a frame of a stranger and a stale
  acknowledgement later.\<close>

abbreviation ready1 :: "StatusPacket list_q node" where
  "ready1 \<equiv> rk_nodes (trio_tab (take 7 trio_events)) ! 1"

abbreviation waiting1 :: "StatusPacket list_q node" where
  "waiting1 \<equiv> rk_nodes (trio_tab (take 8 trio_events)) ! 1"

definition quarter_second :: "node_input list" where
  "quarter_second = [InLoop (at 2001), InFrame (station 9) (enc_status some_status),
     InFrame (station 2) (enc_ack (AckPacket0\<lparr>ack_origin_node_id := 1, ack_seq := 7\<rparr>)), InLoop (at 2299)]"

theorem ack_timer_exact_witness:
  "let s1 = fold (node_exec list_queue) quarter_second (loop_body list_queue (at 2000) ready1) in
    aired ready1 = [] \<and> aired (loop_body list_queue (at 2299) s1) = [frame_1_2] \<and>
    aired (loop_body list_queue (at 2300) s1) = [frame_1_2, frame_1_2]"
proof -
  have start: "aired ready1 = []" "aired (loop_body list_queue (at 2000) ready1) = [frame_1_2]" "g_nextKnown ready1"
      "g_nextMac ready1 = station 2" "key (g_pending (loop_body list_queue (at 2000) ready1)) = (1, 0)"
      "ack_key (enc_ack (AckPacket0\<lparr>ack_origin_node_id := 1, ack_seq := 7\<rparr>)) = (1, 7)" "station 2 \<noteq> station 9"
      "enc_status (g_pending (loop_body list_queue (at 2000) ready1)) = frame_1_2" "armed_at (at 2000) ready1 = 2000000"
    by code_simp+
  have moved: "aired (loop_body list_queue (at 2000) ready1) \<noteq> aired ready1" unfolding start(1,2) by simp
  have now: "at t k = 1000 * t" for t k by (simp add: at_def)
  note timer = ack_timer_exact [OF moved start(3), of quarter_second]
  have "let s0 = loop_body list_queue (at 2000) ready1; s1 = fold (node_exec list_queue) quarter_second s0 in
      aired s0 = aired ready1 @ [enc_status (g_pending s0)] \<and> aired s1 = aired s0 \<and>
      aired (loop_body list_queue (at t) s1) = aired s0 @
        (if armed_at (at 2000) ready1 div 1000 + 300 \<le> at t AckDue div 1000 then [enc_status (g_pending s0)] else [])"
    if "0 \<le> t" "t < 3000" for t
    by (rule timer) (use that in \<open>auto simp: start quarter_second_def now simp del: One_nat_def\<close>)
  from this [of 2299] this [of 2300] show ?thesis by (simp add: start Let_def now del: One_nat_def)
qed

text \<open>C35: At the wrap the timer fails: a packet armed 301 ms before the clock returns to zero
  (with a deadline of 2^32 - 1) is not sent again by any pass of the following 49.7 days, since
  \<open>nowMs() >= g_ackDeadlineMs\<close> compares absolute times; one armed in the last 300 ms before
  the wrap is sent again by every pass until then.\<close>

theorem ack_timer_wraps:
  assumes "g_state s = kForwarding"
    and "g_ackDeadlineMs s = nowMs t0 + kAckTimeoutMs"
    and "0 \<le> t0" and "t0 div 1000 < 2 ^ 32"
  shows "(t0 div 1000 = 2 ^ 32 - 301 \<and> 2 ^ 32 \<le> now AckDue div 1000 \<and> now AckDue div 1000 < 2 ^ 33 - 1
      \<longrightarrow> loop_send Q now s = s) \<and>
    (2 ^ 32 - 300 \<le> t0 div 1000 \<and> t0 \<le> now AckDue \<and> now AckDue div 1000 < 2 ^ 32
      \<longrightarrow> loop_send Q now s = retransmit now s)"
proof (intro conjI impI)
  have dl: "uint (g_ackDeadlineMs s) = (t0 div 1000 + 300) mod 2 ^ 32"
    using assms(2-4) by (simp add: uint_word_ariths uint_nowMs config_defs)
  {
    assume a: "t0 div 1000 = 2 ^ 32 - 301 \<and> 2 ^ 32 \<le> now AckDue div 1000 \<and> now AckDue div 1000 < 2 ^ 33 - 1"
    then have "now AckDue div 1000 mod 2 ^ 32 = now AckDue div 1000 - 2 ^ 32"
      by (intro mod_once) simp_all
    with a dl have "\<not> g_ackDeadlineMs s \<le> nowMs (now AckDue)"
      by (simp add: word_le_def uint_nowMs)
    with assms(1) show "loop_send Q now s = s" by (simp add: loop_send_def)
  next
    assume a: "2 ^ 32 - 300 \<le> t0 div 1000 \<and> t0 \<le> now AckDue \<and> now AckDue div 1000 < 2 ^ 32"
    then have "t0 div 1000 \<le> now AckDue div 1000" by (intro zdiv_mono1) auto
    moreover have "(t0 div 1000 + 300) mod 2 ^ 32 = t0 div 1000 + 300 - 2 ^ 32"
      using a assms(4) by (intro mod_once) simp_all
    moreover have "uint (nowMs (now AckDue)) = now AckDue div 1000"
      using a assms(3) calculation(1) by (simp add: uint_nowMs)
    ultimately have "g_ackDeadlineMs s \<le> nowMs (now AckDue)"
      using a assms(4) dl by (simp add: word_le_def)
    with assms(1) show "loop_send Q now s = retransmit now s" by (simp add: loop_send_def)
  }
qed

theorem ack_timer_wraps_witness:
  "loop_send list_queue (at (2 ^ 32 + 1000000)) (waiting1\<lparr>g_ackDeadlineMs := 2 ^ 32 - 1\<rparr>) =
     waiting1\<lparr>g_ackDeadlineMs := 2 ^ 32 - 1\<rparr>"
proof -
  let ?s = "waiting1\<lparr>g_ackDeadlineMs := 2 ^ 32 - 1\<rparr>"
  have "g_state waiting1 = kForwarding" by code_simp
  then have st: "g_state ?s = kForwarding" by simp
  have dl: "g_ackDeadlineMs ?s = nowMs (1000 * (2 ^ 32 - 301)) + kAckTimeoutMs"
    by (simp add: nowMs_def config_defs)
  show ?thesis
    using ack_timer_wraps [OF st dl, of "at (2 ^ 32 + 1000000)" list_queue] by (simp add: at_def)
qed

section \<open>Lane readings\<close>

text \<open>The packet of a due local tick carries the latest reading set for its lane, the plate
  cut to eleven characters and terminated; readings of other lanes, and of lane ids that do
  not exist (a plate crop), do not change it.\<close>

lemma lane_reading_sent:
  assumes "length (g_laneOccupied s) = unat kVideoStreamsPerNode"
    and "length (g_lanePlate s) = unat kVideoStreamsPerNode"
    and "g_localStream s < kVideoStreamsPerNode"
  shows "let p = localPacket now (setLaneStatus sid oc pl s) in
    origin_node_id p = g_nodeId s \<and> stream_id p = g_localStream s \<and> seq p = g_localSeq s \<and>
    (if sid = g_localStream s then occupied p = oc \<and> c_str (plate p) = take kMaxPlateLen (c_str pl)
     else p = localPacket now s)"
proof -
  have ls: "unat (g_localStream s) < 3" using assms(3) by (simp add: word_less_nat_alt config_defs)
  have neq: "unat sid \<noteq> unat (g_localStream s)" if "sid \<noteq> g_localStream s" using that by (simp add: word_unat_eq_iff)
  show ?thesis
    using assms ls neq
    by (auto simp: localPacket_def setLaneStatus_def readLocalStatus_def kChainSelfTest_def Let_def
        not_le strncpy_idem c_str_append_nul c_str_strncpy kVideoStreamsPerNode_def)
qed

lemma lane_reading_sent_example:
  "c_str (plate (localPacket (at 2000) (setLaneStatus 0 1 [66, 49, 50, 0, 7] relay1))) = [66, 49, 50]"
proof -
  have "length (g_laneOccupied relay1) = unat kVideoStreamsPerNode"
    "length (g_lanePlate relay1) = unat kVideoStreamsPerNode"
    "g_localStream relay1 < kVideoStreamsPerNode" "g_localStream relay1 = 0"
    by code_simp+
  with lane_reading_sent [OF this(1-3), of "at 2000" 0 1 "[66, 49, 50, 0, 7]"] show ?thesis
    by (simp add: Let_def c_str_def kMaxPlateLen_def)
qed

section \<open>A chain of one\<close>

definition stuck :: "'q node \<Rightarrow> bool" where
  "stuck s \<longleftrightarrow> g_state s = kDiscovering \<and> g_chainSize s = 1 \<and> g_nextId s = 0 \<and> g_prevId s = 0 \<and>
     \<not> g_prevKnown s \<and> \<not> g_nextKnown s \<and> flushed s = [] \<and> g_statLocal s = 0"

definition claims_solo :: "bytes \<Rightarrow> bool" where
  "claims_solo f \<longleftrightarrow> sizeof_Hello \<le> length f \<and> f ! 0 = kPktHello \<and> hello_chain_size (dec_hello f) = 1"

lemma stuck_exec:
  assumes "stuck s" and "\<And>m f. i = InFrame m f \<Longrightarrow> \<not> claims_solo f"
  shows "stuck (node_exec Q i s)"
proof (cases i)
  case (InLoop now)
  then show ?thesis
    using assms(1) by (simp add: stuck_def loop_body_def loop_hello_def broadcastHello_def emit_def trace Let_def)
next
  case (InFrame m f)
  then have "\<not> claims_solo f" using assms(2) by simp
  then have "node_exec Q i s = s"
    using InFrame assms(1)
    by (auto simp: stuck_def claims_solo_def onEspNowRecv_def handleHello_def handleStatus_def handleAck_def)
  with assms(1) show ?thesis by simp
next
  case (InLane sid oc pl)
  then show ?thesis
    using assms(1) by (simp add: stuck_def setLaneStatus_def trace)
qed

text \<open>C38: A board provisioned as the only node of a chain (\<open>SETID 0 1\<close>, which provisioning
  accepts) never leaves discovery: unless some other station also says HELLO for a chain of
  one, it reports no reading, not even its own, whatever happens.\<close>

theorem lone_gateway_never_starts:
  assumes "\<And>m f. InFrame m f \<in> set ins \<Longrightarrow> \<not> claims_solo f"
  shows "let s = fold (node_exec Q) ins (chain_init Q now 0 1 node0)
    in g_state s = kDiscovering \<and> flushed s = [] \<and> g_statLocal s = 0"
proof -
  have "stuck (chain_init Q now 0 1 node0)"
    by (simp add: stuck_def chain_init_def broadcastHello_def emit_def node0_def trace Let_def)
  then have "stuck (fold (node_exec Q) ins (chain_init Q now 0 1 node0))"
    using assms
  proof (induction ins rule: rev_induct)
    case (snoc i ins)
    have "stuck (fold (node_exec Q) ins (chain_init Q now 0 1 node0))"
      by (rule snoc.IH [OF snoc.prems(1)]) (use snoc.prems(2) in auto)
    moreover have "\<not> claims_solo f" if "i = InFrame m f" for m f
      using snoc.prems(2) [of m f] that by simp
    ultimately show ?case by (simp add: stuck_exec)
  qed simp
  then show ?thesis by (simp add: stuck_def Let_def)
qed

theorem lone_gateway_never_starts_witness:
  "let s = fold (node_exec list_queue) [InLane 0 1 [65], InLoop (at 2000), InFrame (station 4) [1, 0, 2],
      InLoop (at 9000)] (chain_init list_queue (at 0) 0 1 node0)
   in g_state s = kDiscovering \<and> flushed s = [] \<and> g_statLocal s = 0"
proof (rule lone_gateway_never_starts)
  show "\<not> claims_solo f" if "InFrame m f \<in> set [InLane 0 1 [65], InLoop (at 2000), InFrame (station 4) [1, 0, 2],
      InLoop (at 9000)]" for m f
    using that by (auto simp: claims_solo_def dec_hello_def)
qed

section \<open>The receive path\<close>

text \<open>C33: An iteration of the main loop, with the WiFi task receiving all the while: as soon as the
  drain has been quicker than the arrivals (no more than \<open>m\<close> frames were waiting or have
  arrived before its look \<open>m\<close>) it ends; every frame that waited, and then every one that was taken
  meanwhile, has been handed to the handler once and in arrival order, the receive queue is
  empty, and the node acts once. That is the only way it ends: if a valid frame arrives before
  every look, the iteration never returns.\<close>

theorem loop_iteration:
  assumes "rx_queue RQ valid contents capacity"
    and "queue_inv valid contents capacity rq" and "0 < capacity rq"
    and "g_rxQueue t = Some rq" and "g_handler t = Some (onEspNowRecv Q)"
  shows "(length (contents rq) + length (concat (map arr [0..<Suc m])) \<le> m \<longrightarrow>
      (\<exists>rq' its. loop_live RQ Q arr now (t, s) =
          Some (t\<lparr>g_rxQueue := Some rq'\<rparr>,
                loop_body Q now (deliver_all (onEspNowRecv Q) (contents rq @ its) s)) \<and>
        contents rq' = [] \<and> queue_inv valid contents capacity rq' \<and>
        subseq (map (\<lambda>it. (rx_mac it, rx_frame it)) its) (concat (map arr [0..<Suc m])))) \<and>
    ((\<forall>k. \<exists>mf \<in> set (arr k). 0 < length (snd mf) \<and> length (snd mf) \<le> kMaxPacketBytes) \<longrightarrow>
      loop_live RQ Q arr now (t, s) = None)"
proof -
  have live: "poll_live RQ arr t s = drain_live RQ arr 0 (onEspNowRecv Q) t s"
    using assms(4,5) by (simp add: poll_live_def)
  show ?thesis
    using rx_queue.live_returns [OF assms(1,2,4), of arr 0 m "onEspNowRecv Q" s]
      rx_queue.live_starves [OF assms(1) _ assms(2,4,3), of arr 0 "onEspNowRecv Q" s]
    by (auto simp: loop_live_def live)
qed

definition rx_item :: "mac \<Rightarrow> bytes \<Rightarrow> RxItem" where
  "rx_item m f = \<lparr>rx_mac = m, rx_data = f @ replicate (250 - length f) 0, rx_len = of_nat (length f)\<rparr>"

text \<open>One frame waiting, one more arriving while it is handled; and a radio that never falls silent.\<close>

definition hello_again :: "nat \<Rightarrow> (mac \<times> bytes) list" where
  "hello_again k = (if k = 1 then [(station 2, [1, 2, 3])] else [])"

abbreviation rx_start :: "(RxItem list_q, StatusPacket list_q node) transport" where
  "rx_start \<equiv> \<lparr>g_rxQueue = Some ([rx_item (station 0) [1, 0, 3]], 16), g_handler = Some (onEspNowRecv list_queue)\<rparr>"

theorem loop_iteration_witness:
  "(\<exists>rq' its. loop_live list_queue list_queue hello_again (at 100) (rx_start, chain_init list_queue (at 0) 1 3 node0) =
      Some (rx_start\<lparr>g_rxQueue := Some rq'\<rparr>,
        loop_body list_queue (at 100) (deliver_all (onEspNowRecv list_queue) (rx_item (station 0) [1, 0, 3] # its)
          (chain_init list_queue (at 0) 1 3 node0))) \<and> fst rq' = []) \<and>
   loop_live list_queue list_queue (\<lambda>k. [(station 2, [1, 2, 3])]) (at 100)
     (rx_start, chain_init list_queue (at 0) 1 3 node0) = None"
proof -
  let ?rq = "([rx_item (station 0) [1, 0, 3]], 16 :: nat)" and ?s = "chain_init list_queue (at 0) 1 3 node0"
  have inv: "queue_inv (\<lambda>_. True) fst snd ?rq" by (simp add: queue_inv_def)
  have t: "0 < snd ?rq" "g_rxQueue rx_start = Some ?rq" "g_handler rx_start = Some (onEspNowRecv list_queue)" by simp_all
  note it = loop_iteration [OF rxq.rx_queue_axioms inv t]
  have "length (concat (map hello_again [0..<Suc 2])) = 1" by code_simp
  then have few: "length (fst ?rq) + length (concat (map hello_again [0..<Suc 2])) \<le> 2" by (simp del: upt_Suc)
  have always: "\<forall>k::nat. \<exists>mf \<in> set [(station 2, [1, 2, 3])]. 0 < length (snd mf) \<and> length (snd mf) \<le> kMaxPacketBytes"
    by (simp add: kMaxPacketBytes_def)
  from it [THEN conjunct1, THEN mp, OF few] obtain rq' its where
    "loop_live list_queue list_queue hello_again (at 100) (rx_start, ?s) = Some (rx_start\<lparr>g_rxQueue := Some rq'\<rparr>,
      loop_body list_queue (at 100) (deliver_all (onEspNowRecv list_queue) (fst ?rq @ its) ?s))" "fst rq' = []"
    by blast
  then show ?thesis
    using it [of "\<lambda>k. [(station 2, [1, 2, 3])]", THEN conjunct2, THEN mp, OF always] by auto
qed

text \<open>When nothing arrives meanwhile it is the iteration that the polling loop of MainLoop is built on.\<close>

lemma loop_quiet:
  assumes "rx_queue RQ valid contents capacity"
    and "queue_inv valid contents capacity rq" and "g_rxQueue t = Some rq"
  shows "loop_live RQ Q (\<lambda>_. []) now (t, s) = loop RQ Q now (t, s)"
  using rx_queue.poll_quiet [OF assms] by (simp add: loop_live_def loop_def)

text \<open>The receive callback appends a frame of 1 to 250 bytes, unaltered, while the queue
  has room; anything else leaves the queue as it is, and no frame is ever cut short.\<close>

lemma receive_callback:
  assumes "rx_queue RQ valid contents capacity"
    and "queue_inv valid contents capacity rq" and "g_rxQueue t = Some rq"
    and "length data = nat len"
  shows "if 0 < len \<and> len \<le> 250 \<and> length (contents rq) < capacity rq
    then \<exists>rq' it. onDataRecv RQ src data len t = t\<lparr>g_rxQueue := Some rq'\<rparr> \<and>
      contents rq' = contents rq @ [it] \<and> rx_mac it = src \<and> rx_frame it = data
    else onDataRecv RQ src data len t = t"
proof (cases "0 < len \<and> len \<le> 250 \<and> length (contents rq) < capacity rq")
  case True
  have rt: "rtos_queue RQ valid contents capacity" using assms(1) by (simp add: rx_queue_def)
  have "onDataRecv RQ src data len t \<noteq> t"
  proof
    let ?it = "\<lparr>rx_mac = src, rx_data = take (nat len) data @ replicate (kMaxPacketBytes - nat len) 0,
      rx_len = of_int len\<rparr>"
    assume same: "onDataRecv RQ src data len t = t"
    obtain rq' where s: "q_send RQ rq ?it = Some rq'"
      using True rtos_queue.send_None_iff [OF rt assms(2), of ?it] by auto
    then have "contents rq' = contents rq @ [?it]"
      using assms(2) rtos_queue.send_SomeD [OF rt _ s] by (simp add: queue_inv_def)
    moreover have "t\<lparr>g_rxQueue := Some rq'\<rparr> = t"
      using same s True assms(3) nat_mono [of len 250] by (simp add: onDataRecv_def config_defs)
    then have "rq' = rq" using assms(3) by (metis option.inject transport.select_convs(1)
        transport.surjective transport.update_convs(1))
    ultimately show False by simp
  qed
  then show ?thesis
    using True rx_queue.onDataRecv_cases [OF assms(1-4), of src] by auto
next
  case False
  have rt: "rtos_queue RQ valid contents capacity" using assms(1) by (simp add: rx_queue_def)
  from False assms(2) have "len \<le> 0 \<or> 250 < len \<or> length (contents rq) = capacity rq"
    by (auto simp: queue_inv_def)
  then show ?thesis
    using False assms(3) rtos_queue.send_None_iff [OF rt assms(2)]
    by (auto simp: onDataRecv_def config_defs Let_def split: option.split)
qed

lemma receive_callback_example:
  "\<exists>rq' it. onDataRecv list_queue (station 3) [1, 3, 4] 3
      \<lparr>g_rxQueue = Some ([], 16), g_handler = None :: nat recv_handler option\<rparr> =
      \<lparr>g_rxQueue = Some rq', g_handler = None\<rparr> \<and> fst rq' = [it] \<and> rx_frame it = [1, 3, 4]"
proof -
  let ?t = "\<lparr>g_rxQueue = Some ([], 16), g_handler = None :: nat recv_handler option\<rparr>"
  have "queue_inv (\<lambda>_. True) fst snd ([] :: RxItem list, 16)" by (simp add: queue_inv_def)
  from receive_callback [OF rxq.rx_queue_axioms this, of ?t "[1, 3, 4]" 3 "station 3"]
  show ?thesis by auto
qed

end
