(* ===== verification/Provision.thy ===== *)
theory Provision
  imports Config
begin

text \<open>
  main/provisioning.cpp: the identity of a board. \<open>parseSetId\<close> is the console command,
  \<open>loadOrProvision\<close> the boot-time decision between a stored identity and the console loop.
  NVS is part of ESP-IDF: its operations are the argument \<open>V\<close>, with the documented
  behaviour in the locale \<open>nvs_store\<close>. The console is the list of results of \<open>fgets\<close>. \<open>conv\<close>
  stands for the value \<open>sscanf\<close> stores for a decimal number outside the range of \<open>int\<close>,
  which C leaves open.
\<close>

section \<open>sscanf\<close>

text \<open>The characters of \<open>isspace\<close>, a literal of the format, and the conversion \<open>%d\<close>.\<close>

definition is_space :: "u8 \<Rightarrow> bool" where
  "is_space b \<longleftrightarrow> b = 32 \<or> (9 \<le> b \<and> b \<le> 13)"

definition skip_space :: "bytes \<Rightarrow> bytes" where
  "skip_space bs = dropWhile is_space bs"

fun scan_lit :: "bytes \<Rightarrow> bytes \<Rightarrow> bytes option" where
  "scan_lit [] bs = Some bs"
| "scan_lit (c # cs) (b # bs) = (if b = c then scan_lit cs bs else None)"
| "scan_lit (c # cs) [] = None"

definition scan_digits :: "bytes \<Rightarrow> (nat \<times> bytes) option" where
  "scan_digits bs = (let ds = takeWhile is_digit bs
     in if ds = [] then None else Some (dec_value ds, dropWhile is_digit bs))"

definition in_int :: "int \<Rightarrow> bool" where
  "in_int z \<longleftrightarrow> - (2 ^ 31) \<le> z \<and> z < 2 ^ 31"

definition scan_int :: "(int \<Rightarrow> int) \<Rightarrow> bytes \<Rightarrow> (int \<times> bytes) option" where
  "scan_int conv bs =
     (let r = skip_space bs;
          neg = (r \<noteq> [] \<and> hd r = 45);
          r' = (if r \<noteq> [] \<and> (hd r = 45 \<or> hd r = 43) then tl r else r)
      in case scan_digits r' of
           None \<Rightarrow> None
         | Some (v, rest) \<Rightarrow>
             let z = (if neg then - int v else int v)
             in Some (if in_int z then z else conv z, rest))"

section \<open>SETID\<close>

definition setid_lit :: bytes where
  "setid_lit = [83, 69, 84, 73, 68]"

definition parseSetId :: "(int \<Rightarrow> int) \<Rightarrow> bytes \<Rightarrow> (u8 \<times> u8) option" where
  "parseSetId conv line =
     (case scan_lit setid_lit (c_str line) of
        None \<Rightarrow> None
      | Some r1 \<Rightarrow>
          (case scan_int conv (skip_space r1) of
             None \<Rightarrow> None
           | Some (nid, r2) \<Rightarrow>
               (case scan_int conv (skip_space r2) of
                  None \<Rightarrow> None
                | Some (chainSize, _) \<Rightarrow>
                    if nid < 0 \<or> chainSize \<le> 0 \<or> chainSize \<le> nid \<or> uint kMaxChainNodes < chainSize then None
                    else Some (of_int nid, of_int chainSize))))"

section \<open>The stored identity\<close>

datatype nvs_key = kNvsKeyNodeId | kNvsKeyChainSize

record 'n nvs_ops =
  nvs_open_ok :: "'n \<Rightarrow> bool"
  nvs_get_u8 :: "'n \<Rightarrow> nvs_key \<Rightarrow> u8 option"
  nvs_set_u8 :: "'n \<Rightarrow> nvs_key \<Rightarrow> u8 \<Rightarrow> 'n option"
  nvs_commit :: "'n \<Rightarrow> 'n option"

text \<open>How a boot ends: an identity, a restart after saving one, a failed \<open>ESP_ERROR_CHECK\<close>, or
  still waiting when the console input considered here is used up.\<close>

datatype 'n boot_result = Ready u8 u8 | Restarted 'n | Aborted | Waiting 'n

definition valid_identity :: "u8 \<Rightarrow> u8 \<Rightarrow> bool" where
  "valid_identity nid chainSize \<longleftrightarrow> nid \<noteq> kUnprovisioned \<and> chainSize \<noteq> kUnprovisioned \<and>
     nid < chainSize \<and> chainSize \<le> kMaxChainNodes"

definition save_identity :: "'n nvs_ops \<Rightarrow> u8 \<Rightarrow> u8 \<Rightarrow> 'n \<Rightarrow> 'n boot_result" where
  "save_identity V nid chainSize n =
     (case nvs_set_u8 V n kNvsKeyNodeId nid of
        None \<Rightarrow> Aborted
      | Some n1 \<Rightarrow>
          (case nvs_set_u8 V n1 kNvsKeyChainSize chainSize of
             None \<Rightarrow> Aborted
           | Some n2 \<Rightarrow> (case nvs_commit V n2 of None \<Rightarrow> Aborted | Some n3 \<Rightarrow> Restarted n3)))"

fun console_loop :: "'n nvs_ops \<Rightarrow> (int \<Rightarrow> int) \<Rightarrow> 'n \<Rightarrow> bytes option list \<Rightarrow> 'n boot_result" where
  "console_loop V conv n [] = Waiting n"
| "console_loop V conv n (None # rs) = console_loop V conv n rs"
| "console_loop V conv n (Some line # rs) =
     (case parseSetId conv line of
        None \<Rightarrow> console_loop V conv n rs
      | Some (newId, newChainSize) \<Rightarrow> save_identity V newId newChainSize n)"

definition loadOrProvision ::
  "'n nvs_ops \<Rightarrow> (int \<Rightarrow> int) \<Rightarrow> 'n \<Rightarrow> bytes option list \<Rightarrow> 'n boot_result" where
  "loadOrProvision V conv n console =
     (if \<not> nvs_open_ok V n then Aborted
      else
        let nid = (case nvs_get_u8 V n kNvsKeyNodeId of None \<Rightarrow> kUnprovisioned | Some v \<Rightarrow> v);
            chainSize = (case nvs_get_u8 V n kNvsKeyChainSize of None \<Rightarrow> kUnprovisioned | Some v \<Rightarrow> v)
        in if valid_identity nid chainSize then Ready nid chainSize
           else console_loop V conv n console)"

section \<open>The contract of NVS\<close>

locale nvs_store =
  fixes V :: "'n nvs_ops"
    and stored :: "'n \<Rightarrow> nvs_key \<Rightarrow> u8 option"
  assumes get: "nvs_get_u8 V n k = Some v \<Longrightarrow> stored n k = Some v"
    and set: "nvs_set_u8 V n k v = Some n' \<Longrightarrow> stored n' = (stored n)(k \<mapsto> v)"
    and commit: "nvs_commit V n = Some n' \<Longrightarrow> stored n' = stored n"
begin

lemma save_stored:
  assumes "save_identity V nid chainSize n = Restarted n'"
  shows "stored n' kNvsKeyNodeId = Some nid \<and> stored n' kNvsKeyChainSize = Some chainSize"
  using assms set commit by (auto simp: save_identity_def split: option.splits)

lemma load_stored:
  assumes "stored n kNvsKeyNodeId = Some nid" "stored n kNvsKeyChainSize = Some chainSize" and "valid_identity nid chainSize"
    and "nvs_open_ok V n" "\<forall>k. nvs_get_u8 V n k \<noteq> None"
  shows "loadOrProvision V conv n console = Ready nid chainSize"
proof -
  obtain v where v: "nvs_get_u8 V n kNvsKeyNodeId = Some v" using assms(5) by (metis not_None_eq)
  moreover obtain w where "nvs_get_u8 V n kNvsKeyChainSize = Some w" using assms(5) by (metis not_None_eq)
  ultimately show ?thesis
    using get [OF v] get [of n kNvsKeyChainSize w] assms(1-4) by (simp add: loadOrProvision_def)
qed

lemma load_ready:
  assumes "loadOrProvision V conv n console = Ready i c" and "\<not> (\<exists>i c. console_loop V conv n console = Ready i c)"
  shows "valid_identity i c \<and> stored n kNvsKeyNodeId = Some i \<and> stored n kNvsKeyChainSize = Some c"
  using assms get by (auto simp: loadOrProvision_def valid_identity_def Let_def split: if_splits option.splits)

end

definition flash_ops :: "(nvs_key \<Rightarrow> u8 option) nvs_ops" where
  "flash_ops = \<lparr>nvs_open_ok = (\<lambda>_. True), nvs_get_u8 = (\<lambda>n. n), nvs_set_u8 = (\<lambda>n k v. Some (n(k \<mapsto> v))),
     nvs_commit = Some\<rparr>"

interpretation flash: nvs_store flash_ops "\<lambda>n. n"
  by unfold_locales (auto simp: flash_ops_def)

section \<open>Lemmas\<close>

lemma scan_digits_dec:
  assumes "rest = [] \<or> \<not> is_digit (hd rest)"
  shows "scan_digits (dec_digits n @ rest) = Some (n, rest)"
proof -
  have "takeWhile is_digit (dec_digits n @ rest) = dec_digits n"
    "dropWhile is_digit (dec_digits n @ rest) = rest"
    using assms dec_digits_are_digits [of _ n] by (cases rest; simp add: takeWhile_append dropWhile_append)+
  then show ?thesis
    using dec_digits_nonempty [of n] by (simp add: scan_digits_def dec_value_digits)
qed

lemma dec_digits_hd: "is_digit (hd (dec_digits n))"
  using dec_digits_are_digits [of "hd (dec_digits n)" n] dec_digits_nonempty [of n] by simp

lemma is_space_blank: "is_space 32"
  by (simp add: is_space_def)

lemma scan_int_dec:
  assumes "rest = [] \<or> \<not> is_digit (hd rest)" and "int n < 2 ^ 31"
  shows "scan_int conv (dec_digits n @ rest) = Some (int n, rest)"
    and "scan_int conv (32 # dec_digits n @ rest) = Some (int n, rest)"
proof -
  obtain d ds where d: "dec_digits n = d # ds" "is_digit d"
    using dec_digits_nonempty [of n] dec_digits_hd [of n] by (cases "dec_digits n") auto
  then have nsp: "\<not> is_space d" "d \<noteq> 45" "d \<noteq> 43"
    by (auto simp: is_digit_def is_space_def word_le_nat_alt)
  have z: "in_int (int n)" using assms(2) by (simp add: in_int_def)
  have sp: "skip_space (dec_digits n @ rest) = dec_digits n @ rest"
    "skip_space (32 # dec_digits n @ rest) = dec_digits n @ rest"
    using d nsp(1) by (simp_all add: skip_space_def is_space_blank)
  have sd: "scan_digits (d # ds @ rest) = Some (n, rest)"
    using scan_digits_dec [OF assms(1), of n] d by simp
  show "scan_int conv (dec_digits n @ rest) = Some (int n, rest)"
    using nsp z sd by (simp add: scan_int_def sp) (simp add: d)
  show "scan_int conv (32 # dec_digits n @ rest) = Some (int n, rest)"
    using nsp z sd by (simp add: scan_int_def sp) (simp add: d)
qed

lemma skip_space_idem: "scan_int conv (skip_space bs) = scan_int conv bs"
  by (simp add: scan_int_def skip_space_def dropWhile_idem)

lemma parseSetId_valid:
  assumes "parseSetId conv line = Some (i, c)"
  shows "valid_identity i c"
proof -
  obtain nid cs :: int where b: "0 \<le> nid" "nid < cs" "cs \<le> 64" and ic: "i = of_int nid" "c = of_int cs"
    using assms by (fastforce simp: parseSetId_def kMaxChainNodes_def not_less not_le
        split: option.splits if_splits)
  have "uint i = nid" "uint c = cs"
    using b by (simp_all add: ic uint_word_of_int)
  with b show ?thesis
    by (simp add: valid_identity_def config_defs word_less_def word_le_def word_uint_eq_iff)
qed

text \<open>The console ends at the first line that parses, and saves what that line says.\<close>

lemma console_saves:
  "console_loop V conv n rs = Restarted n' \<Longrightarrow>
     \<exists>pre line post i c. rs = pre @ Some line # post \<and> (\<forall>l. Some l \<in> set pre \<longrightarrow> parseSetId conv l = None) \<and>
       parseSetId conv line = Some (i, c) \<and> save_identity V i c n = Restarted n'"
proof (induction V conv n rs rule: console_loop.induct)
  case (2 V conv n rs)
  then obtain pre line post i c where "rs = pre @ Some line # post" "\<forall>l. Some l \<in> set pre \<longrightarrow> parseSetId conv l = None"
      "parseSetId conv line = Some (i, c)" "save_identity V i c n = Restarted n'" by auto
  then show ?case by (intro exI [of _ "None # pre"] exI) auto
next
  case (3 V conv n line rs)
  show ?case
  proof (cases "parseSetId conv line")
    case None
    with 3 obtain pre line' post i c where "rs = pre @ Some line' # post" "\<forall>l. Some l \<in> set pre \<longrightarrow> parseSetId conv l = None"
        "parseSetId conv line' = Some (i, c)" "save_identity V i c n = Restarted n'" by auto
    then show ?thesis using None by (intro exI [of _ "Some line # pre"] exI) auto
  next
    case (Some ic)
    then show ?thesis
      using 3(2) by (cases ic) (intro exI [of _ "[]"] exI [of _ line] exI [of _ rs], auto)
  qed
qed auto

lemma console_waits:
  "console_loop V conv n rs = Waiting n' \<Longrightarrow> n' = n \<and> (\<forall>l. Some l \<in> set rs \<longrightarrow> parseSetId conv l = None)"
  by (induction V conv n rs rule: console_loop.induct) (auto simp: save_identity_def split: option.splits)

lemma console_aborts:
  "console_loop V conv n rs = Aborted \<Longrightarrow> \<exists>l. Some l \<in> set rs \<and> parseSetId conv l \<noteq> None"
  by (induction V conv n rs rule: console_loop.induct) (auto split: option.splits)

lemma console_never_ready: "console_loop V conv n rs \<noteq> Ready i c"
  by (induction V conv n rs rule: console_loop.induct) (auto simp: save_identity_def split: option.splits)

section \<open>Properties\<close>

text \<open>The console line \<open>SETID <id> <n>\<close>, followed by \<open>rest\<close>.\<close>

definition setid_line :: "nat \<Rightarrow> nat \<Rightarrow> bytes \<Rightarrow> bytes" where
  "setid_line nid n rest = setid_lit @ [32] @ dec_digits nid @ [32] @ dec_digits n @ rest"

text \<open>C37: A printed \<open>SETID\<close> line is read back as the two numbers it shows exactly when they
  name a position in a chain of at most 64 nodes, and is refused otherwise.\<close>

theorem setid_roundtrip:
  assumes "0 \<notin> set rest" and "rest = [] \<or> \<not> is_digit (hd rest)"
    and "int nid < 2 ^ 31" and "int n < 2 ^ 31"
  shows "parseSetId conv (setid_line nid n rest) =
    (if nid < n \<and> n \<le> 64 then Some (of_nat nid, of_nat n) else None)"
proof -
  have digits: "0 \<notin> set (dec_digits k)" for k
    using dec_digits_are_digits [of 0 k] by (auto simp: is_digit_def)
  have c: "c_str (setid_line nid n rest) = setid_line nid n rest"
    using digits assms(1) by (intro c_str_all) (auto simp: setid_line_def setid_lit_def)
  have l: "scan_lit setid_lit (setid_line nid n rest) = Some (32 # dec_digits nid @ 32 # dec_digits n @ rest)"
    by (simp add: setid_line_def setid_lit_def)
  have "scan_int conv (32 # dec_digits nid @ 32 # dec_digits n @ rest) =
      Some (int nid, 32 # dec_digits n @ rest)"
    using assms(3) by (intro scan_int_dec) (simp_all add: is_digit_def)
  with l scan_int_dec(2) [OF assms(2,4), of conv] show ?thesis
    by (auto simp: parseSetId_def c skip_space_idem kMaxChainNodes_def)
qed

theorem setid_roundtrip_witness:
  "parseSetId (\<lambda>z. z) (setid_line 2 5 [10]) = Some (2, 5) \<and> parseSetId (\<lambda>z. z) (setid_line 5 5 [10]) = None"
  using setid_roundtrip [of "[10]" 2 5 "\<lambda>z. z"] setid_roundtrip [of "[10]" 5 5 "\<lambda>z. z"]
  by (simp add: is_digit_def)

text \<open>C36: Whatever the flash holds and whatever is typed: a boot that goes on does so with the
  stored identity, and only with a valid one. A boot that restarts has stored the two numbers of the
  first line typed that is a valid \<open>SETID\<close> command, and any boot after it whose reads succeed goes on
  with them. As long as no such line was typed, the flash is untouched; a boot is aborted only
  when NVS cannot be opened or written.\<close>

theorem identity_always_valid:
  assumes "nvs_store V stored"
  shows "case loadOrProvision V conv n console of
      Ready i c \<Rightarrow> i < c \<and> c \<le> kMaxChainNodes \<and>
        stored n kNvsKeyNodeId = Some i \<and> stored n kNvsKeyChainSize = Some c
    | Restarted n' \<Rightarrow> (\<exists>pre line post i c. console = pre @ Some line # post \<and>
        (\<forall>l. Some l \<in> set pre \<longrightarrow> parseSetId conv l = None) \<and> parseSetId conv line = Some (i, c) \<and>
        i < c \<and> c \<le> kMaxChainNodes \<and> stored n' kNvsKeyNodeId = Some i \<and> stored n' kNvsKeyChainSize = Some c \<and>
        (nvs_open_ok V n' \<longrightarrow> (\<forall>k. nvs_get_u8 V n' k \<noteq> None) \<longrightarrow>
          (\<forall>conv' console'. loadOrProvision V conv' n' console' = Ready i c)))
    | Waiting n' \<Rightarrow> n' = n \<and> (\<forall>l. Some l \<in> set console \<longrightarrow> parseSetId conv l = None)
    | Aborted \<Rightarrow> \<not> nvs_open_ok V n \<or> (\<exists>l. Some l \<in> set console \<and> parseSetId conv l \<noteq> None)"
proof (cases "loadOrProvision V conv n console")
  case (Ready i c)
  with nvs_store.load_ready [OF assms Ready] show ?thesis by (simp add: console_never_ready valid_identity_def)
next
  case (Restarted n')
  then have "console_loop V conv n console = Restarted n'"
    by (auto simp: loadOrProvision_def Let_def split: if_splits)
  from console_saves [OF this]
  obtain pre line post i c where l: "console = pre @ Some line # post" "\<forall>l. Some l \<in> set pre \<longrightarrow> parseSetId conv l = None"
      "parseSetId conv line = Some (i, c)" "save_identity V i c n = Restarted n'" by blast
  note st = nvs_store.save_stored [OF assms l(4)] and v = parseSetId_valid [OF l(3)]
  have "loadOrProvision V conv' n' console' = Ready i c" if "nvs_open_ok V n'" "\<forall>k. nvs_get_u8 V n' k \<noteq> None" for conv' console'
    by (rule nvs_store.load_stored [OF assms _ _ v that]) (simp_all add: st)
  then have "nvs_open_ok V n' \<longrightarrow> (\<forall>k. nvs_get_u8 V n' k \<noteq> None) \<longrightarrow>
      (\<forall>conv' console'. loadOrProvision V conv' n' console' = Ready i c)" by simp
  moreover have "i < c" "c \<le> kMaxChainNodes" using v by (simp_all add: valid_identity_def)
  ultimately show ?thesis
    unfolding Restarted boot_result.case using l(1-3) st [THEN conjunct1] st [THEN conjunct2]
    by (intro exI conjI) assumption+
next
  case Aborted
  then have "\<not> nvs_open_ok V n \<or> console_loop V conv n console = Aborted"
    by (auto simp: loadOrProvision_def Let_def split: if_splits)
  with Aborted console_aborts [of V conv n console] show ?thesis by auto
next
  case (Waiting n')
  then have "console_loop V conv n console = Waiting n'"
    by (auto simp: loadOrProvision_def Let_def split: if_splits)
  with Waiting console_waits show ?thesis by fastforce
qed

theorem identity_always_valid_witness:
  "\<exists>n'. loadOrProvision flash_ops (\<lambda>z. z) (\<lambda>_. None) [None, Some [63], Some (setid_line 2 5 [10]), Some [64]] = Restarted n' \<and>
    loadOrProvision flash_ops (\<lambda>z. z) n' [] = Ready 2 5"
proof -
  let ?con = "[None, Some [63], Some (setid_line 2 5 [10]), Some [64]]"
  have first: "parseSetId (\<lambda>z. z) [63] = None" and set: "parseSetId (\<lambda>z. z) (setid_line 2 5 [10]) = Some (2, 5)"
    and last: "parseSetId (\<lambda>z. z) [64] = None"
    by code_simp+
  obtain n' where boot: "loadOrProvision flash_ops (\<lambda>z. z) (\<lambda>_. None) ?con = Restarted n'"
    by (simp add: loadOrProvision_def flash_ops_def valid_identity_def kUnprovisioned_def first set save_identity_def)
  from identity_always_valid [OF flash.nvs_store_axioms, where conv = "\<lambda>z. z" and n = "\<lambda>_. None" and console = ?con]
  obtain line i c where l: "Some line \<in> set ?con" "parseSetId (\<lambda>z. z) line = Some (i, c)"
      "nvs_open_ok flash_ops n' \<longrightarrow> (\<forall>k. nvs_get_u8 flash_ops n' k \<noteq> None) \<longrightarrow>
        (\<forall>conv' console'. loadOrProvision flash_ops conv' n' console' = Ready i c)"
      "n' kNvsKeyNodeId = Some i" "n' kNvsKeyChainSize = Some c"
    unfolding boot boot_result.case by (metis in_set_conv_decomp)
  then have ic: "i = 2" "c = 5" using first set last by auto
  have "\<forall>k. n' k \<noteq> None"
  proof
    fix k show "n' k \<noteq> None" using l(4,5) by (cases k) simp_all
  qed
  with l(3) ic have "loadOrProvision flash_ops (\<lambda>z. z) n' [] = Ready 2 5" by (simp add: flash_ops_def)
  with boot show ?thesis by blast
qed

end
