(* ===== verification/Heap.thy ===== *)
theory Heap
  imports Prelude
begin

text \<open>
  The frame buffers of \<open>heap_caps_malloc\<close> and \<open>heap_caps_free\<close>. The heap maps the address of
  every live buffer to its bytes and remembers a bad free (of a buffer that is not live). The
  allocator of ESP-IDF is the argument \<open>A\<close>: whether and where it finds room, and what the new
  buffer happens to hold; its contract is the locale \<open>allocator\<close>. \<open>pool_alloc\<close> is a
  concrete allocator for the witnesses.
\<close>

type_synonym addr = nat

datatype caps = MALLOC_CAP_SPIRAM | MALLOC_CAP_8BIT

record heap =
  mem :: "addr \<Rightarrow> bytes option"
  bad_free :: bool

type_synonym alloc = "caps \<Rightarrow> nat \<Rightarrow> heap \<Rightarrow> (addr \<times> bytes) option"

definition heap_caps_malloc :: "alloc \<Rightarrow> nat \<Rightarrow> caps \<Rightarrow> heap \<Rightarrow> addr option \<times> heap" where
  "heap_caps_malloc A n c h =
     (case A c n h of
        None \<Rightarrow> (None, h)
      | Some (a, bs) \<Rightarrow> (Some a, h\<lparr>mem := (mem h)(a \<mapsto> bs)\<rparr>))"

definition heap_caps_free :: "addr \<Rightarrow> heap \<Rightarrow> heap" where
  "heap_caps_free a h =
     (if mem h a = None then h\<lparr>bad_free := True\<rparr> else h\<lparr>mem := (mem h)(a := None)\<rparr>)"

text \<open>The bytes of a live buffer, and a write of \<open>bs\<close> at offset \<open>off\<close> into it.\<close>

definition heap_read :: "addr \<Rightarrow> heap \<Rightarrow> bytes" where
  "heap_read a h = (case mem h a of None \<Rightarrow> [] | Some bs \<Rightarrow> bs)"

definition heap_write :: "addr \<Rightarrow> nat \<Rightarrow> bytes \<Rightarrow> heap \<Rightarrow> heap" where
  "heap_write a off bs h =
     (case mem h a of
        None \<Rightarrow> h
      | Some old \<Rightarrow> h\<lparr>mem := (mem h)(a \<mapsto> take off old @ bs @ drop (off + length bs) old)\<rparr>)"

definition live :: "heap \<Rightarrow> addr set" where
  "live h = dom (mem h)"

text \<open>Exactly the buffers of the list \<open>as\<close> are live, each once, and nothing was freed twice.\<close>

definition owns :: "heap \<Rightarrow> addr list \<Rightarrow> bool" where
  "owns h as \<longleftrightarrow> live h = set as \<and> distinct as \<and> \<not> bad_free h"

lemma owns_free:
  assumes "owns h (xs @ a # ys)"
  shows "owns (heap_caps_free a h) (xs @ ys)"
  using assms by (auto simp: owns_def live_def heap_caps_free_def)

lemma owns_perm: "owns h xs \<Longrightarrow> set ys = set xs \<Longrightarrow> distinct ys \<Longrightarrow> owns h ys"
  by (simp add: owns_def)

lemma owns_swap: "owns h (xs @ ys) \<longleftrightarrow> owns h (ys @ xs)"
  by (auto simp: owns_def)

lemma heap_write_live [simp]: "live (heap_write a off bs h) = live h"
  by (auto simp: live_def heap_write_def split: option.splits)

lemma heap_write_owns [simp]: "owns (heap_write a off bs h) as = owns h as"
  by (simp add: owns_def) (simp add: heap_write_def split: option.split)

lemma heap_write_read:
  "mem h a = Some old \<Longrightarrow> off + length bs \<le> length old \<Longrightarrow>
     heap_read a (heap_write a off bs h) = take off old @ bs @ drop (off + length bs) old"
  by (simp add: heap_write_def heap_read_def)

section \<open>The contract of the allocator\<close>

locale allocator =
  fixes A :: alloc
  assumes fresh: "A c n h = Some (a, bs) \<Longrightarrow> mem h a = None \<and> length bs = n"
begin

lemma malloc_Some:
  assumes "heap_caps_malloc A n c h = (Some a, h')"
  shows "\<exists>bs. mem h a = None \<and> length bs = n \<and> h' = h\<lparr>mem := (mem h)(a \<mapsto> bs)\<rparr>"
proof -
  obtain bs where "A c n h = Some (a, bs)" "h' = h\<lparr>mem := (mem h)(a \<mapsto> bs)\<rparr>"
    using assms by (auto simp: heap_caps_malloc_def split: option.splits)
  with fresh [OF this(1)] show ?thesis by blast
qed

lemma malloc_None: "heap_caps_malloc A n c h = (None, h') \<Longrightarrow> h' = h"
  by (auto simp: heap_caps_malloc_def split: option.splits)

lemma malloc_owns:
  assumes "heap_caps_malloc A n c h = (Some a, h')" and "owns h as"
  shows "owns h' (a # as)"
proof -
  obtain bs where "mem h a = None" "h' = h\<lparr>mem := (mem h)(a \<mapsto> bs)\<rparr>"
    using malloc_Some [OF assms(1)] by blast
  then have "live h' = insert a (live h)" "a \<notin> live h" "bad_free h' = bad_free h"
    by (auto simp: live_def)
  with assms(2) show ?thesis by (simp add: owns_def)
qed

end

text \<open>An allocator with \<open>k\<close> slots, the first free one for each request.\<close>

definition pool_alloc :: "nat \<Rightarrow> alloc" where
  "pool_alloc k c n h = map_option (\<lambda>a. (a, replicate n 0)) (List.find (\<lambda>a. mem h a = None) [0..<k])"

interpretation pool: allocator "pool_alloc k" for k
  by unfold_locales (auto simp: pool_alloc_def find_Some_iff)

lemma pool_allocator: "allocator (pool_alloc k)"
  by (rule pool.allocator_axioms)

definition heap0 :: heap where
  "heap0 = \<lparr>mem = (\<lambda>_. None), bad_free = False\<rparr>"

lemma heap0_owns [simp]: "owns heap0 []"
  by (simp add: heap0_def owns_def live_def)

end
