(* ===== verification/Sockets.thy ===== *)
theory Sockets
  imports Prelude
begin

text \<open>
  The socket routines the two TCP modules share: the bounded \<open>connect\<close> and the loops that
  send or receive a whole buffer. lwIP is the argument of each: what \<open>connect\<close>, \<open>select\<close> and
  \<open>getsockopt\<close> report (\<open>connect_env\<close>), what one \<open>send\<close> takes (\<open>W\<close>), what one \<open>recv\<close> delivers (\<open>R\<close>).
  The inbound byte stream of a TCP connection is the contract \<open>tcp_stream\<close>.
\<close>

section \<open>Addresses\<close>

text \<open>\<open>sockaddr_in\<close>: the octets of the address and the port.\<close>

record sock_addr =
  sa_host :: bytes
  sa_port :: u16

text \<open>\<open>inet_pton\<close> of the C library (and lwIP's \<open>ipaddr_addr\<close>) on four decimal octets; otherwise the
  address keeps the zeros it was initialised with.\<close>

fun split_at :: "u8 \<Rightarrow> bytes \<Rightarrow> bytes list" where
  "split_at d [] = [[]]"
| "split_at d (b # bs) = (if b = d then [] # split_at d bs else (b # hd (split_at d bs)) # tl (split_at d bs))"

definition octet :: "bytes \<Rightarrow> u8 option" where
  "octet bs = (if bs = [] \<or> 3 < length bs \<or> \<not> list_all is_digit bs \<or> 255 < dec_value bs then None
     else Some (of_nat (dec_value bs)))"

definition inet_pton :: "bytes \<Rightarrow> bytes" where
  "inet_pton text = (case map octet (split_at 46 text) of
      [Some a, Some b, Some c, Some d] \<Rightarrow> [a, b, c, d] | _ \<Rightarrow> [0, 0, 0, 0])"

lemma split_at_free: "d \<notin> set xs \<Longrightarrow> split_at d xs = [xs]"
  by (induction xs) auto

lemma split_at_append: "d \<notin> set xs \<Longrightarrow> split_at d (xs @ d # ys) = xs # split_at d ys"
  by (induction xs) auto

lemma octet_dec: "n < 256 \<Longrightarrow> octet (dec_digits n) = Some (of_nat n)"
  using length_dec_digits_small [of n] dec_digits_are_digits [of _ n] dec_digits_nonempty [of n]
  by (auto simp: octet_def dec_value_digits list_all_iff)

section \<open>Bounded connect\<close>

text \<open>What the calls on the socket report, for the address dialled.\<close>

record connect_env =
  ce_connect :: int           \<comment> \<open>result of \<open>connect\<close>\<close>
  ce_inprogress :: bool       \<comment> \<open>\<open>errno == EINPROGRESS\<close>\<close>
  ce_select :: "int \<Rightarrow> int \<Rightarrow> int" \<comment> \<open>result of \<open>select\<close> with a timeout of (s, us)\<close>
  ce_so_error :: int          \<comment> \<open>\<open>SO_ERROR\<close> afterwards\<close>

text \<open>The result, and the settings of the file flags made on the way (\<open>True\<close>: non-blocking).\<close>

definition connectWithTimeout :: "(sock_addr \<Rightarrow> connect_env) \<Rightarrow> sock_addr \<Rightarrow> int \<Rightarrow> bool \<times> bool list" where
  "connectWithTimeout net dest timeoutMs =
     (let fl1 = [True];
          e = net dest;
          rc = ce_connect e
      in if rc = 0 then (True, fl1 @ [False])
         else if \<not> ce_inprogress e then (False, fl1 @ [False])
         else
           let rc2 = ce_select e (timeoutMs div 1000) ((timeoutMs mod 1000) * 1000);
               fl2 = fl1 @ [False]
           in if rc2 \<le> 0 then (False, fl2) else (ce_so_error e = 0, fl2))"

section \<open>Whole-buffer transfers\<close>

text \<open>One \<open>recv\<close> call for at most \<open>n\<close> bytes; \<open>None\<close> stands for a result \<open>\<le> 0\<close>.\<close>

type_synonym 'c receiver = "nat \<Rightarrow> 'c \<Rightarrow> bytes option \<times> 'c"

function recvAll :: "'c receiver \<Rightarrow> nat \<Rightarrow> 'c \<Rightarrow> bytes option \<times> 'c" where
  "recvAll R len c =
     (if len = 0 then (Some [], c)
      else case R len c of
             (None, c1) \<Rightarrow> (None, c1)
           | (Some bs, c1) \<Rightarrow>
               if bs = [] then (None, c1)
               else case recvAll R (len - length bs) c1 of
                      (None, c2) \<Rightarrow> (None, c2)
                    | (Some rest, c2) \<Rightarrow> (Some (bs @ rest), c2))"
  by pat_completeness auto
termination
  by (relation "measure (\<lambda>(R, len, c). len)") auto

declare recvAll.simps [simp del]

text \<open>One \<open>send\<close> call: how many of the bytes offered were taken; a result \<open>\<le> 0\<close> is an error.\<close>

type_synonym 'c sender = "bytes \<Rightarrow> 'c \<Rightarrow> int \<times> 'c"

text \<open>The bytes handed to the peer are the taken front parts, in order.\<close>

function sendAll :: "'c sender \<Rightarrow> bytes \<Rightarrow> 'c \<Rightarrow> bool \<times> 'c" where
  "sendAll W bs c =
     (if bs = [] then (True, c)
      else case W bs c of
             (n, c1) \<Rightarrow> if n \<le> 0 then (False, c1) else sendAll W (drop (nat n) bs) c1)"
  by pat_completeness auto
termination
  by (relation "measure (\<lambda>(W, bs, c). length bs)") auto

declare sendAll.simps [simp del]

section \<open>The contracts of a TCP connection\<close>

text \<open>\<open>inb\<close> is what the peer has sent and this side has not read yet (for all time).\<close>

locale tcp_stream =
  fixes R :: "'c receiver" and inb :: "'c \<Rightarrow> bytes"
  assumes recv_some: "R n c = (Some bs, c') \<Longrightarrow> length bs \<le> n \<and> inb c = bs @ inb c'"
    and recv_none: "R n c = (None, c') \<Longrightarrow> inb c' = inb c"
begin

lemma recvAll_Some:
  "recvAll R len c = (Some bs, c') \<Longrightarrow> length bs = len \<and> inb c = bs @ inb c'"
proof (induction len arbitrary: c bs rule: less_induct)
  case (less len)
  show ?case
  proof (cases "len = 0")
    case True
    with less.prems show ?thesis by (simp add: recvAll.simps)
  next
    case False
    obtain o1 c1 where r: "R len c = (o1, c1)" by fastforce
    with less.prems False obtain xs rest where xs: "o1 = Some xs" "xs \<noteq> []"
      "recvAll R (len - length xs) c1 = (Some rest, c')" "bs = xs @ rest"
      by (subst (asm) recvAll.simps) (auto split: option.splits if_splits prod.splits)
    moreover have "length xs \<le> len" "inb c = xs @ inb c1"
      using recv_some r xs(1) by blast+
    ultimately show ?thesis
      using less.IH [of "len - length xs" c1 rest] False by simp
  qed
qed

lemma recvAll_None:
  "recvAll R len c = (None, c') \<Longrightarrow> \<exists>k < len. inb c' = drop k (inb c)"
proof (induction len arbitrary: c rule: less_induct)
  case (less len)
  from less.prems have "len \<noteq> 0" by (cases "len = 0") (simp_all add: recvAll.simps [of R 0])
  obtain o1 c1 where r: "R len c = (o1, c1)" by fastforce
  consider "o1 = None" | "o1 = Some []" | b bs where "o1 = Some (b # bs)"
    by (cases o1) (auto simp: neq_Nil_conv intro: list.exhaust)
  then show ?case
  proof cases
    case 1
    with less.prems r \<open>len \<noteq> 0\<close> have "c' = c1" by (simp add: recvAll.simps)
    with 1 r recv_none \<open>len \<noteq> 0\<close> show ?thesis by (intro exI [of _ 0]) auto
  next
    case 2
    with less.prems r \<open>len \<noteq> 0\<close> have "c' = c1" by (simp add: recvAll.simps)
    with 2 r recv_some [of len c "[]" c1] \<open>len \<noteq> 0\<close> show ?thesis by (intro exI [of _ 0]) auto
  next
    case 3
    let ?xs = "b # bs"
    have xs: "length ?xs \<le> len" "inb c = ?xs @ inb c1" using recv_some r 3 by blast+
    have "recvAll R (len - length ?xs) c1 = (None, c')"
      using less.prems r 3 \<open>len \<noteq> 0\<close>
      by (subst (asm) recvAll.simps) (auto split: option.splits prod.splits)
    from less.IH [OF _ this] \<open>len \<noteq> 0\<close> obtain k where "k < len - length ?xs" "inb c' = drop k (inb c1)" by auto
    with xs show ?thesis by (intro exI [of _ "length ?xs + k"]) auto
  qed
qed

end

text \<open>\<open>outb\<close> is what has been handed to the peer so far.\<close>

locale tcp_sink =
  fixes W :: "'c sender" and outb :: "'c \<Rightarrow> bytes"
  assumes send_took: "W bs c = (n, c') \<Longrightarrow> 0 < n \<Longrightarrow> nat n \<le> length bs \<and> outb c' = outb c @ take (nat n) bs"
    and send_err: "W bs c = (n, c') \<Longrightarrow> n \<le> 0 \<Longrightarrow> outb c' = outb c"
begin

lemma sendAll_True: "sendAll W bs c = (True, c') \<Longrightarrow> outb c' = outb c @ bs"
proof (induction "length bs" arbitrary: bs c rule: less_induct)
  case less
  show ?case
  proof (cases "bs = []")
    case True
    with less.prems show ?thesis by (simp add: sendAll.simps)
  next
    case False
    obtain n c1 where w: "W bs c = (n, c1)" by fastforce
    with less.prems False have n: "0 < n" and rest: "sendAll W (drop (nat n) bs) c1 = (True, c')"
      by (subst (asm) sendAll.simps, simp split: if_splits)+
    have "outb c1 = outb c @ take (nat n) bs" using send_took [OF w n] by simp
    moreover have "outb c' = outb c1 @ drop (nat n) bs"
      using n False by (intro less.hyps [OF _ rest]) simp
    ultimately show ?thesis by simp
  qed
qed

text \<open>A failed transfer has handed over a part of the buffer.\<close>

lemma sendAll_False: "sendAll W bs c = (False, c') \<Longrightarrow> \<exists>k < length bs. outb c' = outb c @ take k bs"
proof (induction "length bs" arbitrary: bs c rule: less_induct)
  case less
  from less.prems have ne: "bs \<noteq> []" by (cases "bs = []") (simp_all add: sendAll.simps [of W "[]"])
  obtain n c1 where w: "W bs c = (n, c1)" by fastforce
  show ?case
  proof (cases "n \<le> 0")
    case True
    with less.prems w ne have "c' = c1" by (simp add: sendAll.simps)
    with send_err [OF w True] ne show ?thesis by (intro exI [of _ 0]) simp
  next
    case False
    with less.prems w ne have rest: "sendAll W (drop (nat n) bs) c1 = (False, c')"
      by (subst (asm) sendAll.simps) simp
    have c1: "nat n \<le> length bs" "outb c1 = outb c @ take (nat n) bs"
      using send_took [OF w] False by auto
    obtain k where "k < length (drop (nat n) bs)" "outb c' = outb c1 @ take k (drop (nat n) bs)"
      using less.hyps [OF _ rest] False ne by auto
    with c1 show ?thesis
      by (intro exI [of _ "nat n + k"]) (simp add: take_add)
  qed
qed

end

section \<open>Concrete connections\<close>

text \<open>
  A receiver that delivers the bytes of its segments one segment per call (a longer one in
  parts), an empty segment standing for a timeout, and a sender that takes at most \<open>mss\<close>
  bytes per call while \<open>budget\<close> lasts.
\<close>

type_synonym segments = "bytes list"

fun seg_recv :: "segments receiver" where
  "seg_recv n [] = (None, [])"
| "seg_recv n ([] # ss) = (None, ss)"
| "seg_recv n ((b # bs) # ss) =
     (if n = 0 then (Some [], (b # bs) # ss)
      else (Some (take n (b # bs)), if length (b # bs) \<le> n then ss else drop n (b # bs) # ss))"

interpretation seg: tcp_stream seg_recv concat
proof unfold_locales
  fix n :: nat and c c' :: segments and bs
  show "seg_recv n c = (Some bs, c') \<Longrightarrow> length bs \<le> n \<and> concat c = bs @ concat c'"
    by (cases "(n, c)" rule: seg_recv.cases) (auto split: if_splits)
  show "seg_recv n c = (None, c') \<Longrightarrow> concat c' = concat c"
    by (cases "(n, c)" rule: seg_recv.cases) (auto split: if_splits)
qed

definition mss_send :: "nat \<Rightarrow> (bytes \<times> nat) sender" where
  "mss_send mss bs c = (case c of (out, budget) \<Rightarrow>
     if mss = 0 \<or> budget = 0 \<or> bs = [] then (0, c)
     else (int (min mss (length bs)), (out @ take (min mss (length bs)) bs, budget - 1)))"

interpretation mss: tcp_sink "mss_send k" fst for k
  by unfold_locales (auto simp: mss_send_def split: if_splits)

end
