(* ===== verification/Uplink.thy ===== *)
theory Uplink
  imports Rtos Config Heap Sockets
begin

text \<open>
  main/gateway_uplink.cpp: the Ethernet side of the Gateway. Every file-level variable of
  the source is a field of \<open>uplink\<close>; the two FreeRTOS tasks are modelled by one pass
  (\<open>status_step\<close>, \<open>video_step\<close>) and by any number of passes, the callbacks and the calls from other modules by one
  definition each. A \<open>VideoItem\<close> is kept by value, its buffer by address in the \<open>heap\<close>.
  Sockets, the W5500 driver and the radio clock are arguments. Log output is left out.
\<close>

section \<open>State\<close>

record StatusItem =
  si_node_id :: u8
  si_stream_id :: u8
  si_occupied :: u8
  si_plate :: bytes

record VideoItem =
  vi_origin_node_id :: u8
  vi_stream_id :: u8
  vi_seq :: u16
  vi_data_len :: u32
  vi_data :: addr

record ('sq, 'vq) uplink =
  g_ethHandle :: bool                \<comment> \<open>not \<open>nullptr\<close>\<close>
  g_linkUp :: bool
  g_ethRxFrames :: u32
  g_ethRxArpReq :: u32
  g_ethRxIpv4 :: u32
  g_stuckIntervals :: u32
  g_lastSentTotal :: u32
  g_lastQueuedTotal :: u32
  g_lastRestartMs :: u32
  g_statusQueue :: "'sq option"
  g_stQueued :: u32
  g_stSent :: u32
  g_stDropped :: u32
  g_vidQueued :: u32
  g_vidSent :: u32
  g_vidDropped :: u32
  g_videoQueue :: "'vq option"

definition uplink0 :: "('sq, 'vq) uplink" where
  "uplink0 = \<lparr>g_ethHandle = False, g_linkUp = False, g_ethRxFrames = 0, g_ethRxArpReq = 0, g_ethRxIpv4 = 0,
     g_stuckIntervals = 0, g_lastSentTotal = 0, g_lastQueuedTotal = 0, g_lastRestartMs = 0,
     g_statusQueue = None, g_stQueued = 0, g_stSent = 0, g_stDropped = 0,
     g_vidQueued = 0, g_vidSent = 0, g_vidDropped = 0, g_videoQueue = None\<rparr>"

definition kEthStuckIntervals :: u32 where "kEthStuckIntervals = 6"
definition kEthRestartMinIntervalMs :: u32 where "kEthRestartMinIntervalMs = 5 * 60 * 1000"
definition kStatusConnectTimeoutMs :: int where "kStatusConnectTimeoutMs = 1000"

section \<open>Received frames\<close>

text \<open>Counts the frame and hands it on unchanged.\<close>

definition ethRxHook :: "bytes \<Rightarrow> ('sq, 'vq) uplink \<Rightarrow> ('sq, 'vq) uplink \<times> bytes" where
  "ethRxHook buffer u =
     (let u1 = u\<lparr>g_ethRxFrames := g_ethRxFrames u + 1\<rparr>;
          u2 = (if 22 \<le> length buffer then
                  (let etherType = or (push_bit 8 (ucast (buffer ! 12))) (ucast (buffer ! 13)) :: u16
                   in if etherType = 0x0806 \<and> buffer ! 20 = 0x00 \<and> buffer ! 21 = 0x01
                      then u1\<lparr>g_ethRxArpReq := g_ethRxArpReq u1 + 1\<rparr>
                      else if etherType = 0x0800 then u1\<lparr>g_ethRxIpv4 := g_ethRxIpv4 u1 + 1\<rparr>
                      else u1)
                else u1)
      in (u2, buffer))"

section \<open>Status readings\<close>

definition status_item :: "u8 \<Rightarrow> u8 \<Rightarrow> u8 \<Rightarrow> bytes \<Rightarrow> StatusItem" where
  "status_item nodeId streamId oc pl =
     \<lparr>si_node_id = nodeId, si_stream_id = streamId, si_occupied = oc,
      si_plate = strncpy kMaxPlateLen pl @ [0]\<rparr>"

definition flush ::
  "(StatusItem, 'sq) queue_ops \<Rightarrow> u8 \<Rightarrow> u8 \<Rightarrow> u8 \<Rightarrow> bytes \<Rightarrow> ('sq, 'vq) uplink \<Rightarrow> ('sq, 'vq) uplink" where
  "flush SQ nodeId streamId oc pl u =
     (case g_statusQueue u of
        None \<Rightarrow> u
      | Some q \<Rightarrow>
          (case q_send SQ q (status_item nodeId streamId oc pl) of
             Some q' \<Rightarrow> u\<lparr>g_statusQueue := Some q', g_stQueued := g_stQueued u + 1\<rparr>
           | None \<Rightarrow> u\<lparr>g_stDropped := g_stDropped u + 1\<rparr>))"

text \<open>
  The text of a reading, and the bytes given to \<open>send\<close>: the line buffer has
  \<open>20 + kMaxPlateLen\<close> bytes, the newline is added when it fits (it always does, see UplinkProps).
\<close>

definition status_text :: "StatusItem \<Rightarrow> bytes" where
  "status_text it = dec_u8 (si_node_id it) @ [58] @ dec_u8 (si_stream_id it) @ [58] @
     dec_u8 (si_occupied it) @ [58] @ c_str (si_plate it)"

definition status_line :: "StatusItem \<Rightarrow> bytes" where
  "status_line it =
     (let written = length (status_text it); size = 20 + kMaxPlateLen
      in if written < size then status_text it @ [10] else take (size - 1) (status_text it) @ [0])"

definition status_dest :: sock_addr where
  "status_dest = \<lparr>sa_host = inet_pton kBackendHost, sa_port = kBackendPort\<rparr>"

record sock_env =
  se_socket_ok :: bool
  se_connect :: "sock_addr \<Rightarrow> connect_env"
  se_send :: "bytes \<Rightarrow> int"

definition flushOne ::
  "sock_env \<Rightarrow> StatusItem \<Rightarrow> ('sq, 'vq) uplink \<Rightarrow> ('sq, 'vq) uplink \<times> bytes list" where
  "flushOne e it u =
     (if \<not> se_socket_ok e then (u\<lparr>g_stDropped := g_stDropped u + 1\<rparr>, [])
      else if \<not> fst (connectWithTimeout (se_connect e) status_dest kStatusConnectTimeoutMs)
      then (u\<lparr>g_stDropped := g_stDropped u + 1\<rparr>, [])
      else
        let line = status_line it; sent = se_send e line
        in if sent = int (length line) then (u\<lparr>g_stSent := g_stSent u + 1\<rparr>, [line])
           else (u\<lparr>g_stDropped := g_stDropped u + 1\<rparr>, [line]))"

text \<open>One pass of \<open>statusUplinkTask\<close>; the lines it offers to the backend.\<close>

definition status_step ::
  "(StatusItem, 'sq) queue_ops \<Rightarrow> sock_env \<Rightarrow> ('sq, 'vq) uplink \<Rightarrow> ('sq, 'vq) uplink \<times> bytes list" where
  "status_step SQ e u =
     (case g_statusQueue u of
        None \<Rightarrow> (u, [])
      | Some q \<Rightarrow>
          (case q_receive SQ q of
             None \<Rightarrow> (u, [])
           | Some (it, q') \<Rightarrow>
               (let u1 = u\<lparr>g_statusQueue := Some q'\<rparr>
                in if \<not> g_linkUp u1 then (u1\<lparr>g_stDropped := g_stDropped u1 + 1\<rparr>, [])
                   else flushOne e it u1)))"

text \<open>The task, one environment per pass.\<close>

fun statusUplinkTask ::
  "(StatusItem, 'sq) queue_ops \<Rightarrow> sock_env list \<Rightarrow> ('sq, 'vq) uplink \<Rightarrow> ('sq, 'vq) uplink \<times> bytes list" where
  "statusUplinkTask SQ [] u = (u, [])"
| "statusUplinkTask SQ (e # es) u =
     (case status_step SQ e u of (u1, ls) \<Rightarrow>
        case statusUplinkTask SQ es u1 of (u2, ls') \<Rightarrow> (u2, ls @ ls'))"

section \<open>Video frames\<close>

record VideoChunkHeader =
  ch_origin_node_id :: u8
  ch_stream_id :: u8
  ch_seq :: u16
  ch_chunk_index :: u16
  ch_chunk_count :: u16

definition sizeof_ChunkHeader :: nat where "sizeof_ChunkHeader = 8"

definition enc_chunk_header :: "VideoChunkHeader \<Rightarrow> bytes" where
  "enc_chunk_header c = [ch_origin_node_id c, ch_stream_id c] @ le16 (ch_seq c) @
     le16 (ch_chunk_index c) @ le16 (ch_chunk_count c)"

definition freeVideoItem :: "VideoItem \<Rightarrow> heap \<Rightarrow> heap" where
  "freeVideoItem it h = heap_caps_free (vi_data it) h"

definition flushVideo ::
  "(VideoItem, 'vq) queue_ops \<Rightarrow> u8 \<Rightarrow> u8 \<Rightarrow> u16 \<Rightarrow> addr \<Rightarrow> u32 \<Rightarrow>
     ('sq, 'vq) uplink \<times> heap \<Rightarrow> ('sq, 'vq) uplink \<times> heap" where
  "flushVideo VQ originNodeId streamId sq data dataLen = (\<lambda>(u, h).
     (case g_videoQueue u of
        None \<Rightarrow> (u\<lparr>g_vidDropped := g_vidDropped u + 1\<rparr>, heap_caps_free data h)
      | Some q \<Rightarrow>
          if \<not> g_linkUp u then (u\<lparr>g_vidDropped := g_vidDropped u + 1\<rparr>, heap_caps_free data h)
          else
            let it = \<lparr>vi_origin_node_id = originNodeId, vi_stream_id = streamId, vi_seq = sq,
                      vi_data_len = dataLen, vi_data = data\<rparr>
            in case q_send VQ q it of
                 None \<Rightarrow> (u\<lparr>g_vidDropped := g_vidDropped u + 1\<rparr>, freeVideoItem it h)
               | Some q' \<Rightarrow> (u\<lparr>g_videoQueue := Some q', g_vidQueued := g_vidQueued u + 1\<rparr>, h)))"

definition chunk_count :: "VideoItem \<Rightarrow> u16" where
  "chunk_count it =
     (let n = ucast ((vi_data_len it + of_nat kVideoUdpChunkBytes - 1) div of_nat kVideoUdpChunkBytes)
      in if n = 0 then 1 else n)"

text \<open>The datagram of chunk \<open>i\<close> of a frame whose buffer holds \<open>data\<close>.\<close>

definition chunk :: "VideoItem \<Rightarrow> bytes \<Rightarrow> nat \<Rightarrow> bytes" where
  "chunk it data i =
     (let offset = i * kVideoUdpChunkBytes;
          remaining = unat (vi_data_len it) - offset;
          len = min kVideoUdpChunkBytes remaining
      in enc_chunk_header \<lparr>ch_origin_node_id = vi_origin_node_id it, ch_stream_id = vi_stream_id it,
           ch_seq = vi_seq it, ch_chunk_index = of_nat i, ch_chunk_count = chunk_count it\<rparr> @
         take len (drop offset data))"

text \<open>The send loop over the chunk numbers; a failed \<open>send\<close> gives up the rest of the frame.\<close>

fun send_chunks :: "(bytes \<Rightarrow> int) \<Rightarrow> VideoItem \<Rightarrow> bytes \<Rightarrow> nat list \<Rightarrow> bool \<times> bytes list" where
  "send_chunks tx it data [] = (True, [])"
| "send_chunks tx it data (i # is) =
     (if tx (chunk it data i) < 0 then (False, [])
      else (case send_chunks tx it data is of (ok, ds) \<Rightarrow> (ok, chunk it data i # ds)))"

text \<open>One pass of \<open>videoUplinkTask\<close>; the datagrams sent.\<close>

definition video_step ::
  "(VideoItem, 'vq) queue_ops \<Rightarrow> (bytes \<Rightarrow> int) \<Rightarrow> ('sq, 'vq) uplink \<times> heap \<Rightarrow>
     (('sq, 'vq) uplink \<times> heap) \<times> bytes list" where
  "video_step VQ tx = (\<lambda>(u, h).
     (case g_videoQueue u of
        None \<Rightarrow> ((u, h), [])
      | Some q \<Rightarrow>
          (case q_receive VQ q of
             None \<Rightarrow> ((u, h), [])
           | Some (it, q') \<Rightarrow>
               (let u1 = u\<lparr>g_videoQueue := Some q'\<rparr>
                in if \<not> g_linkUp u1
                   then ((u1\<lparr>g_vidDropped := g_vidDropped u1 + 1\<rparr>, freeVideoItem it h), [])
                   else (case send_chunks tx it (heap_read (vi_data it) h) [0..<unat (chunk_count it)] of
                           (ok, ds) \<Rightarrow>
                             ((if ok then u1\<lparr>g_vidSent := g_vidSent u1 + 1\<rparr>
                               else u1\<lparr>g_vidDropped := g_vidDropped u1 + 1\<rparr>,
                               freeVideoItem it h), ds))))))"

text \<open>
  The task: without a socket, or when it cannot be connected, it ends at once; then its passes,
  with what \<open>send\<close> reports in each.
\<close>

fun video_passes ::
  "(VideoItem, 'vq) queue_ops \<Rightarrow> (bytes \<Rightarrow> int) list \<Rightarrow> ('sq, 'vq) uplink \<times> heap \<Rightarrow>
     (('sq, 'vq) uplink \<times> heap) \<times> bytes list" where
  "video_passes VQ [] s = (s, [])"
| "video_passes VQ (tx # txs) s =
     (case video_step VQ tx s of (s1, ds) \<Rightarrow>
        case video_passes VQ txs s1 of (s2, ds') \<Rightarrow> (s2, ds @ ds'))"

definition video_dest :: sock_addr where
  "video_dest = \<lparr>sa_host = inet_pton kBackendHost, sa_port = kVideoBackendPort\<rparr>"

definition videoUplinkTask ::
  "(VideoItem, 'vq) queue_ops \<Rightarrow> bool \<Rightarrow> (sock_addr \<Rightarrow> bool) \<Rightarrow> (bytes \<Rightarrow> int) list \<Rightarrow> ('sq, 'vq) uplink \<times> heap \<Rightarrow>
     (('sq, 'vq) uplink \<times> heap) \<times> bytes list" where
  "videoUplinkTask VQ socket_ok connect_ok txs s =
     (if \<not> socket_ok then (s, [])
      else if \<not> connect_ok video_dest then (s, [])
      else video_passes VQ txs s)"

section \<open>Link state, bring-up and the watchdog\<close>

datatype eth_event = ETHERNET_EVENT_CONNECTED | ETHERNET_EVENT_DISCONNECTED | OTHER_ETH_EVENT

fun ethEventHandler :: "eth_event \<Rightarrow> ('sq, 'vq) uplink \<Rightarrow> ('sq, 'vq) uplink" where
  "ethEventHandler ETHERNET_EVENT_CONNECTED u = u\<lparr>g_linkUp := True\<rparr>"
| "ethEventHandler ETHERNET_EVENT_DISCONNECTED u = u\<lparr>g_linkUp := False\<rparr>"
| "ethEventHandler OTHER_ETH_EVENT u = u"

text \<open>The results of the bring-up calls, in order (\<open>isr\<close>: no error, or installed already).\<close>

record eth_env =
  isr_ok :: bool
  spi_bus_ok :: bool
  mac_new_ok :: bool
  phy_new_ok :: bool
  driver_install_ok :: bool
  netif_attach_ok :: bool
  eth_start_ok :: bool

datatype cleanup = MacDel | PhyDel

definition uplink_init ::
  "(StatusItem, 'sq) queue_ops \<Rightarrow> (VideoItem, 'vq) queue_ops \<Rightarrow> eth_env \<Rightarrow> ('sq, 'vq) uplink \<Rightarrow>
     bool \<times> ('sq, 'vq) uplink \<times> cleanup list" where
  "uplink_init SQ VQ e u =
     (let u1 = u\<lparr>g_videoQueue := q_create VQ kVideoUplinkQueueDepth,
                 g_statusQueue := q_create SQ kStatusUplinkQueueDepth\<rparr>
      in if \<not> isr_ok e then (False, u1, [])
         else if \<not> spi_bus_ok e then (False, u1, [])
         else if \<not> mac_new_ok e then (False, u1, [])
         else if \<not> phy_new_ok e then (False, u1, [MacDel])
         else if \<not> driver_install_ok e then (False, u1, [MacDel, PhyDel])
         else
           let u2 = u1\<lparr>g_ethHandle := True\<rparr>
           in if \<not> netif_attach_ok e then (False, u2, [])
              else if \<not> eth_start_ok e then (False, u2, [])
              else (True, u2, []))"

text \<open>The addresses \<open>init\<close> gives the Ethernet port on its way: MAC; address, gateway, netmask.\<close>

record eth_settings =
  es_mac :: "bytes option"
  es_ip :: "(bytes \<times> bytes \<times> bytes) option"

definition uplink_settings :: "eth_env \<Rightarrow> eth_settings" where
  "uplink_settings e =
     (if \<not> isr_ok e \<or> \<not> spi_bus_ok e \<or> \<not> mac_new_ok e \<or> \<not> phy_new_ok e \<or> \<not> driver_install_ok e
      then \<lparr>es_mac = None, es_ip = None\<rparr>
      else if \<not> netif_attach_ok e then \<lparr>es_mac = Some kEthMac, es_ip = None\<rparr>
      else \<lparr>es_mac = Some kEthMac, es_ip = Some (inet_pton kEthStaticIp, inet_pton kEthStaticGateway,
              inet_pton kEthStaticNetmask)\<rparr>)"

text \<open>The watchdog of \<open>logStats\<close> at \<open>us\<close> microseconds; whether it restarts the driver.\<close>

definition uplink_logStats :: "int \<Rightarrow> ('sq, 'vq) uplink \<Rightarrow> ('sq, 'vq) uplink \<times> bool" where
  "uplink_logStats us u =
     (if \<not> g_ethHandle u \<or> \<not> g_linkUp u then (u\<lparr>g_stuckIntervals := 0\<rparr>, False)
      else
        let sentTotal = g_stSent u + g_vidSent u;
            queuedTotal = g_stQueued u + g_vidQueued u;
            u1 = (if queuedTotal \<noteq> g_lastQueuedTotal u \<and> sentTotal = g_lastSentTotal u
                  then u\<lparr>g_stuckIntervals := g_stuckIntervals u + 1\<rparr> else u\<lparr>g_stuckIntervals := 0\<rparr>);
            u2 = u1\<lparr>g_lastSentTotal := sentTotal, g_lastQueuedTotal := queuedTotal\<rparr>;
            now = word_of_int (us div 1000)
        in if kEthStuckIntervals \<le> g_stuckIntervals u2 \<and>
              (g_lastRestartMs u2 = 0 \<or> kEthRestartMinIntervalMs \<le> now - g_lastRestartMs u2)
           then (u2\<lparr>g_lastRestartMs := now, g_stuckIntervals := 0\<rparr>, True)
           else (u2, False))"

section \<open>Everything that can happen to the uplink\<close>

datatype uplink_event =
    EvFlush u8 u8 u8 bytes
  | EvVideo u8 u8 u16 addr bytes      \<comment> \<open>a caller's new buffer, handed to \<open>flushVideo\<close>\<close>
  | EvStatusTask sock_env
  | EvVideoTask "bytes \<Rightarrow> int"
  | EvEth eth_event
  | EvRx bytes
  | EvStats int

fun uplink_exec ::
  "(StatusItem, 'sq) queue_ops \<Rightarrow> (VideoItem, 'vq) queue_ops \<Rightarrow> uplink_event \<Rightarrow>
     ('sq, 'vq) uplink \<times> heap \<Rightarrow> ('sq, 'vq) uplink \<times> heap" where
  "uplink_exec SQ VQ (EvFlush nid st oc pl) (u, h) = (flush SQ nid st oc pl u, h)"
| "uplink_exec SQ VQ (EvVideo nid st sq a data) (u, h) =
     (if mem h a = None
      then flushVideo VQ nid st sq a (of_nat (length data)) (u, h\<lparr>mem := (mem h)(a \<mapsto> data)\<rparr>)
      else (u, h))"
| "uplink_exec SQ VQ (EvStatusTask e) (u, h) = (fst (status_step SQ e u), h)"
| "uplink_exec SQ VQ (EvVideoTask tx) (u, h) = fst (video_step VQ tx (u, h))"
| "uplink_exec SQ VQ (EvEth ev) (u, h) = (ethEventHandler ev u, h)"
| "uplink_exec SQ VQ (EvRx f) (u, h) = (fst (ethRxHook f u), h)"
| "uplink_exec SQ VQ (EvStats us) (u, h) = (fst (uplink_logStats us u), h)"

definition uplink_run ::
  "(StatusItem, 'sq) queue_ops \<Rightarrow> (VideoItem, 'vq) queue_ops \<Rightarrow> eth_env \<Rightarrow> uplink_event list \<Rightarrow>
     ('sq, 'vq) uplink \<times> heap" where
  "uplink_run SQ VQ e evs =
     fold (uplink_exec SQ VQ) evs (case uplink_init SQ VQ e uplink0 of (_, u, _) \<Rightarrow> (u, heap0))"

end
