(* ===== verification/UplinkProps.thy ===== *)
theory UplinkProps
  imports Uplink
begin

text \<open>
  The properties of the Ethernet uplink: the status line and the video datagrams can be read
  back, every reading and every frame buffer is accounted for in any sequence of calls, task
  passes and link events, a failed bring-up leaves the module safe to call, and the
  watchdog restarts the driver only when and as often as it should.
\<close>

section \<open>The status line\<close>

text \<open>How the listener takes a line apart: three numbers up to a colon each, the rest up to the
  newline is the plate.\<close>

definition to_colon :: "bytes \<Rightarrow> bytes \<times> bytes" where
  "to_colon bs = (takeWhile (\<lambda>b. b \<noteq> 58) bs, drop 1 (dropWhile (\<lambda>b. b \<noteq> 58) bs))"

definition parse_line :: "bytes \<Rightarrow> nat \<times> nat \<times> nat \<times> bytes" where
  "parse_line bs =
     (let (a, r1) = to_colon bs; (b, r2) = to_colon r1; (c, r3) = to_colon r2
      in (dec_value a, dec_value b, dec_value c, takeWhile (\<lambda>x. x \<noteq> 10) r3))"

lemma to_colon_dec: "to_colon (dec_u8 w @ 58 # rest) = (dec_u8 w, rest)"
proof -
  have "58 \<notin> set (dec_u8 w)"
    using dec_digits_are_digits [of 58] by (auto simp: dec_u8_def is_digit_def)
  then have "takeWhile (\<lambda>b. b \<noteq> 58) (dec_u8 w @ 58 # rest) = dec_u8 w"
    "dropWhile (\<lambda>b. b \<noteq> 58) (dec_u8 w @ 58 # rest) = 58 # rest"
    by (subst takeWhile_append2 dropWhile_append2; auto)+
  then show ?thesis by (simp add: to_colon_def)
qed

lemma dec_value_u8: "dec_value (dec_u8 w) = unat w"
  by (simp add: dec_u8_def dec_value_digits)

lemma status_item_plate: "c_str (si_plate (status_item n s oc pl)) = take kMaxPlateLen (c_str pl)"
  by (simp add: status_item_def c_str_append_nul c_str_strncpy)

lemma status_text_short: "length (status_text (status_item n s oc pl)) \<le> 23"
  using length_dec_u8 [of n] length_dec_u8 [of s] length_dec_u8 [of oc]
  unfolding status_text_def status_item_plate by (simp add: status_item_def kMaxPlateLen_def)

lemma status_line_text: "status_line (status_item n s oc pl) = status_text (status_item n s oc pl) @ [10]"
  using status_text_short [of n s oc pl] by (simp add: status_line_def kMaxPlateLen_def)

lemma line_parses:
  assumes "10 \<notin> set (c_str pl)"
  shows "parse_line (status_line (status_item n s oc pl)) = (unat n, unat s, unat oc, take kMaxPlateLen (c_str pl))"
proof -
  have "10 \<notin> set (take kMaxPlateLen (c_str pl))"
    using assms by (meson in_set_takeD)
  then have "takeWhile (\<lambda>x. x \<noteq> 10) (take kMaxPlateLen (c_str pl) @ [10]) = take kMaxPlateLen (c_str pl)"
    by (subst takeWhile_append2) auto
  moreover have "status_line (status_item n s oc pl) =
      dec_u8 n @ 58 # dec_u8 s @ 58 # dec_u8 oc @ 58 # take kMaxPlateLen (c_str pl) @ [10]"
    unfolding status_line_text status_text_def status_item_plate by (simp add: status_item_def)
  ultimately show ?thesis
    by (simp add: parse_line_def to_colon_dec dec_value_u8)
qed

text \<open>C28: The line sent for a reading always ends in a newline within its 31-byte buffer, and
  the listener reads back from it the node, the lane, the occupancy and the (cut) plate.\<close>

theorem status_line_roundtrip:
  assumes "10 \<notin> set (c_str pl)"
  shows "let line = status_line (status_item n s oc pl) in
    length line \<le> 24 \<and> last line = 10 \<and>
    parse_line line = (unat n, unat s, unat oc, take kMaxPlateLen (c_str pl))"
  using status_text_short [of n s oc pl] line_parses [OF assms] by (simp add: status_line_text)

theorem status_line_roundtrip_witness:
  "parse_line (status_line (status_item 12 2 1 [66, 49, 58, 50, 0, 9])) = (12, 2, 1, [66, 49, 58, 50])"
  using status_line_roundtrip [of "[66, 49, 58, 50, 0, 9]" 12 2 1]
  by (simp add: c_str_def Let_def kMaxPlateLen_def)

section \<open>The video datagrams\<close>

lemma length_chunk_header [simp]: "length (enc_chunk_header c) = 8"
  by (simp add: enc_chunk_header_def)

text \<open>What the listener reads from a datagram: the header and the payload.\<close>

definition dec_chunk_header :: "bytes \<Rightarrow> VideoChunkHeader" where
  "dec_chunk_header bs = \<lparr>ch_origin_node_id = bs ! 0, ch_stream_id = bs ! 1,
     ch_seq = le16_dec (bs ! 2) (bs ! 3), ch_chunk_index = le16_dec (bs ! 4) (bs ! 5),
     ch_chunk_count = le16_dec (bs ! 6) (bs ! 7)\<rparr>"

lemma dec_enc_chunk_header: "dec_chunk_header (enc_chunk_header c @ rest) = c"
  by (simp add: dec_chunk_header_def enc_chunk_header_def le16_def codec)

lemma chunk_header:
  "dec_chunk_header (chunk it data i) = \<lparr>ch_origin_node_id = vi_origin_node_id it,
     ch_stream_id = vi_stream_id it, ch_seq = vi_seq it, ch_chunk_index = of_nat i,
     ch_chunk_count = chunk_count it\<rparr>"
  by (simp add: chunk_def dec_enc_chunk_header Let_def)

lemma chunk_payload:
  "length data = unat (vi_data_len it) \<Longrightarrow> drop 8 (chunk it data i) = take 1400 (drop (i * 1400) data)"
  by (simp add: chunk_def Let_def kVideoUdpChunkBytes_def min_def)

lemma chunk_count_nat:
  assumes "unat (vi_data_len it) \<le> kVideoMaxFrameBytes"
  shows "unat (chunk_count it) = max 1 ((unat (vi_data_len it) + 1399) div 1400)"
proof -
  let ?n = "(unat (vi_data_len it) + 1399) div 1400"
  have b: "unat (vi_data_len it) \<le> 262144" using assms by (simp add: config_defs)
  have "vi_data_len it + of_nat kVideoUdpChunkBytes - 1 = of_nat (unat (vi_data_len it) + 1399)"
    by (simp add: kVideoUdpChunkBytes_def)
  moreover have "unat (of_nat (unat (vi_data_len it) + 1399) :: u32) = unat (vi_data_len it) + 1399"
    using b by (simp only: unat_of_nat) simp
  moreover have "unat (of_nat kVideoUdpChunkBytes :: u32) = 1400"
    by (simp only: kVideoUdpChunkBytes_def unat_of_nat) simp
  ultimately have "unat ((vi_data_len it + of_nat kVideoUdpChunkBytes - 1) div of_nat kVideoUdpChunkBytes) = ?n"
    by (simp only: unat_div)
  moreover have n: "?n < 65536" using b by simp
  ultimately have u: "unat (ucast ((vi_data_len it + of_nat kVideoUdpChunkBytes - 1) div
      of_nat kVideoUdpChunkBytes) :: u16) = ?n"
    by (simp only: unsigned_ucast_eq) (simp add: take_bit_nat_eq_self)
  show ?thesis
  proof (cases "?n = 0")
    case True
    with u show ?thesis by (simp add: chunk_count_def Let_def flip: unat_eq_zero)
  next
    case False
    with u show ?thesis
      by (auto simp: chunk_count_def Let_def simp flip: unat_eq_zero)
  qed
qed

lemma send_chunks_prefix:
  "send_chunks tx it data is = (ok, ds) \<Longrightarrow>
     prefix ds (map (chunk it data) is) \<and> (ok \<longleftrightarrow> ds = map (chunk it data) is) \<and>
     (ok \<longleftrightarrow> (\<forall>i \<in> set is. 0 \<le> tx (chunk it data i)))"
  by (induction tx it data "is" arbitrary: ok ds rule: send_chunks.induct)
    (auto split: if_splits prod.splits)

lemma concat_slices:
  assumes "length data \<le> n * k"
  shows "concat (map (\<lambda>i. take k (drop (i * k) data)) [0..<n]) = data"
  using assms
proof (induction n arbitrary: data)
  case (Suc n)
  have "map (\<lambda>i. take k (drop (i * k) data)) [0..<Suc n] =
      take k data # map (\<lambda>i. take k (drop (i * k) (drop k data))) [0..<n]"
    by (subst map_upt_Suc) (simp add: add.commute)
  moreover have "concat (map (\<lambda>i. take k (drop (i * k) (drop k data))) [0..<n]) = drop k data"
    using Suc.prems by (intro Suc.IH) simp
  ultimately show ?case by simp
qed simp

text \<open>C29: A frame of up to 256 KB goes out as datagrams of at most 1408 bytes with at least one
  per frame; when a send fails, exactly the chunks before the failing one have been sent.\<close>

theorem datagrams_bounded:
  assumes "unat (vi_data_len it) \<le> kVideoMaxFrameBytes"
    and "send_chunks tx it data [0..<unat (chunk_count it)] = (ok, ds)"
  shows "prefix ds (map (chunk it data) [0..<unat (chunk_count it)]) \<and>
    (\<forall>d \<in> set ds. length d \<le> 1408) \<and> 1 \<le> unat (chunk_count it) \<and> unat (chunk_count it) \<le> 188 \<and>
    (if ok then ds = map (chunk it data) [0..<unat (chunk_count it)]
     else length ds < unat (chunk_count it) \<and> tx (chunk it data (length ds)) < 0)"
proof -
  have "unat (chunk_count it) = max 1 ((unat (vi_data_len it) + 1399) div 1400)"
    using assms(1) by (rule chunk_count_nat)
  moreover have "(unat (vi_data_len it) + 1399) div 1400 \<le> (262144 + 1399) div 1400"
    using assms(1) by (intro div_le_mono) (simp add: config_defs)
  ultimately have count: "1 \<le> unat (chunk_count it)" "unat (chunk_count it) \<le> 188" by auto
  have "prefix ds (map (chunk it data) [0..<unat (chunk_count it)])"
    using send_chunks_prefix [OF assms(2)] by simp
  moreover have "length (chunk it data i) \<le> 1408" for i
    by (simp add: chunk_def Let_def kVideoUdpChunkBytes_def)
  then have "\<forall>d \<in> set ds. length d \<le> 1408"
    using set_mono_prefix [OF calculation] by auto
  moreover have "send_chunks tx it data xs = (False, ds) \<Longrightarrow>
      length ds < length xs \<and> tx (chunk it data (xs ! length ds)) < 0" for xs ds
    by (induction tx it data xs arbitrary: ds rule: send_chunks.induct) (auto split: if_splits prod.splits)
  from this [of "[0..<unat (chunk_count it)]" ds]
  have "\<not> ok \<Longrightarrow> length ds < unat (chunk_count it) \<and> tx (chunk it data (length ds)) < 0"
    using assms(2) by auto
  ultimately show ?thesis
    using count send_chunks_prefix [OF assms(2)] by simp
qed

definition frame3000 :: VideoItem where
  "frame3000 = \<lparr>vi_origin_node_id = 3, vi_stream_id = 1, vi_seq = 500, vi_data_len = 3000, vi_data = 0\<rparr>"

theorem datagrams_bounded_witness:
  "list_all (\<lambda>d. length d \<le> 1408)
     (snd (send_chunks (\<lambda>d. if ch_chunk_index (dec_chunk_header d) = 2 then - 1 else 0) frame3000
       (replicate 3000 7) [0..<unat (chunk_count frame3000)]))"
proof -
  let ?tx = "\<lambda>d. if ch_chunk_index (dec_chunk_header d) = 2 then - 1 else 0 :: int"
  obtain ok ds where s: "send_chunks ?tx frame3000 (replicate 3000 7) [0..<unat (chunk_count frame3000)] = (ok, ds)"
    by fastforce
  have "unat (vi_data_len frame3000) \<le> kVideoMaxFrameBytes"
    by (simp add: frame3000_def config_defs)
  from datagrams_bounded [OF this s] s show ?thesis by (simp add: list_all_iff)
qed

text \<open>The listener's reassembly: the payload of the datagram of each chunk number, in turn.\<close>

definition reassemble :: "nat \<Rightarrow> bytes list \<Rightarrow> bytes" where
  "reassemble count ds = concat (map (\<lambda>i.
     case List.find (\<lambda>d. ch_chunk_index (dec_chunk_header d) = of_nat i) ds of
       None \<Rightarrow> [] | Some d \<Rightarrow> drop 8 d) [0..<count])"

text \<open>C16: A frame sent in full can be put together again from its datagrams in whatever order
  they arrive and however often, and every one of them names the frame and the number of
  chunks to wait for.\<close>

theorem frame_reassembled:
  assumes "unat (vi_data_len it) \<le> kVideoMaxFrameBytes" and "length data = unat (vi_data_len it)"
    and "send_chunks tx it data [0..<unat (chunk_count it)] = (True, ds)"
    and "set ds' = set ds"
  shows "reassemble (unat (chunk_count it)) ds' = data \<and>
    (\<forall>d \<in> set ds'. ch_origin_node_id (dec_chunk_header d) = vi_origin_node_id it \<and>
       ch_stream_id (dec_chunk_header d) = vi_stream_id it \<and> ch_seq (dec_chunk_header d) = vi_seq it \<and>
       ch_chunk_count (dec_chunk_header d) = chunk_count it)"
proof -
  let ?n = "unat (chunk_count it)"
  have ds: "set ds' = chunk it data ` {0..<?n}"
    using send_chunks_prefix [OF assms(3)] assms(4) by simp
  have n: "?n = max 1 ((length data + 1399) div 1400)"
    using chunk_count_nat [OF assms(1)] assms(2) by simp
  have lt: "?n < 65536" using unsigned_less [of "chunk_count it", where 'a = nat] by simp
  have find: "List.find (\<lambda>d. ch_chunk_index (dec_chunk_header d) = of_nat i) ds' = Some (chunk it data i)"
    if i: "i < ?n" for i
  proof -
    have same: "d = chunk it data i" if d: "d \<in> set ds'" "ch_chunk_index (dec_chunk_header d) = of_nat i" for d
    proof -
      obtain j where j: "j < ?n" "d = chunk it data j" using d ds by auto
      with d have "(of_nat j :: u16) = of_nat i" by (simp add: chunk_header)
      moreover have "unat (of_nat j :: u16) = j" "unat (of_nat i :: u16) = i"
        using i j lt by (simp_all add: unat_of_nat)
      ultimately show ?thesis using j by metis
    qed
    have "chunk it data i \<in> set ds'" using ds i by auto
    then have "List.find (\<lambda>d. ch_chunk_index (dec_chunk_header d) = of_nat i) ds' \<noteq> None"
      by (auto simp: find_None_iff chunk_header)
    then obtain d where "List.find (\<lambda>d. ch_chunk_index (dec_chunk_header d) = of_nat i) ds' = Some d"
      by auto
    moreover from this have "d = chunk it data i"
      by (intro same) (auto simp: find_Some_iff)
    ultimately show ?thesis by simp
  qed
  have "reassemble ?n ds' = concat (map (\<lambda>i. take 1400 (drop (i * 1400) data)) [0..<?n])"
    unfolding reassemble_def
    by (intro arg_cong [where f = concat] map_cong) (simp_all add: find chunk_payload assms(2))
  also have "\<dots> = data"
  proof (rule concat_slices)
    show "length data \<le> ?n * 1400" unfolding n by (simp add: max_def) linarith
  qed
  finally show ?thesis
    using ds by (auto simp: chunk_header)
qed

theorem frame_reassembled_witness:
  "reassemble (unat (chunk_count frame3000)) (rev (snd (send_chunks (\<lambda>_. 0) frame3000 (replicate 3000 7)
     [0..<unat (chunk_count frame3000)]))) = replicate 3000 7"
proof -
  obtain ok ds where s: "send_chunks (\<lambda>_. 0) frame3000 (replicate 3000 7) [0..<unat (chunk_count frame3000)] = (ok, ds)"
    by fastforce
  then have "ok" using send_chunks_prefix [OF s] by auto
  moreover have "unat (vi_data_len frame3000) \<le> kVideoMaxFrameBytes"
    "length (replicate 3000 7) = unat (vi_data_len frame3000)"
    by (simp_all add: frame3000_def config_defs)
  ultimately show ?thesis using frame_reassembled [of frame3000 _ "\<lambda>_. 0" ds "rev ds"] s by simp
qed

section \<open>Accounting and ownership\<close>

text \<open>The number of readings the chain hands over in a sequence of events.\<close>

definition flushes :: "uplink_event list \<Rightarrow> nat" where
  "flushes evs = length (filter (\<lambda>e. case e of EvFlush _ _ _ _ \<Rightarrow> True | _ \<Rightarrow> False) evs)"

text \<open>The two queues of the module under the contract of the kernel.\<close>

locale uplink_queues =
  sq: rtos_queue SQ sv sc scap + vq: rtos_queue VQ vv vc vcap
  for SQ :: "(StatusItem, 'sq) queue_ops" and sv sc scap
    and VQ :: "(VideoItem, 'vq) queue_ops" and vv vc vcap
begin

definition status_ok :: "nat \<Rightarrow> ('sq, 'vq) uplink \<Rightarrow> bool" where
  "status_ok n u \<longleftrightarrow> (case g_statusQueue u of
      None \<Rightarrow> g_stQueued u = 0 \<and> g_stSent u = 0 \<and> g_stDropped u = 0
    | Some q \<Rightarrow> sq.qinv q \<and> scap q = 32 \<and>
        of_nat n = g_stSent u + g_stDropped u + of_nat (length (sc q)))"

definition video_ok :: "('sq, 'vq) uplink \<times> heap \<Rightarrow> bool" where
  "video_ok = (\<lambda>(u, h). case g_videoQueue u of
      None \<Rightarrow> owns h []
    | Some q \<Rightarrow> vq.qinv q \<and> vcap q = 12 \<and> owns h (map vi_data (vc q)))"

lemma flush_ok: "status_ok n u \<Longrightarrow> status_ok (Suc n) (flush SQ nid st oc pl u)"
proof (cases "g_statusQueue u")
  case (Some q)
  assume ok: "status_ok n u"
  then have q: "sq.qinv q" "sv q" by (auto simp: status_ok_def Some queue_inv_def)
  show ?thesis
  proof (cases "q_send SQ q (status_item nid st oc pl)")
    case None
    with ok Some show ?thesis by (simp add: flush_def status_ok_def)
  next
    case (Some q')
    with ok q sq.send_SomeD [OF q(2) Some] \<open>g_statusQueue u = Some q\<close> show ?thesis
      by (simp add: flush_def status_ok_def)
  qed
qed (simp add: flush_def status_ok_def)

lemma status_step_ok: "status_ok n u \<Longrightarrow> status_ok n (fst (status_step SQ e u))"
proof (cases "g_statusQueue u")
  case (Some q)
  assume ok: "status_ok n u"
  then have q: "sq.qinv q" by (auto simp: status_ok_def Some)
  show ?thesis
  proof (cases "q_receive SQ q")
    case None
    with ok Some show ?thesis by (simp add: status_step_def)
  next
    case (Some r)
    then obtain it q' where r: "q_receive SQ q = Some (it, q')" by (cases r) auto
    from sq.receive_SomeD [OF q r] ok \<open>g_statusQueue u = Some q\<close> r show ?thesis
      by (auto simp: status_step_def flushOne_def status_ok_def Let_def)
  qed
qed (simp add: status_step_def status_ok_def)

lemma status_ok_other:
  "status_ok n (fst (flushVideo VQ nid st sq a len (u, h))) = status_ok n u"
  "status_ok n (fst (fst (video_step VQ tx (u, h)))) = status_ok n u"
  "status_ok n (ethEventHandler ev u) = status_ok n u"
  "status_ok n (fst (ethRxHook f u)) = status_ok n u"
  "status_ok n (fst (uplink_logStats us u)) = status_ok n u"
proof -
  show "status_ok n (ethEventHandler ev u) = status_ok n u"
    by (cases ev) (simp_all add: status_ok_def split: option.split)
qed (auto simp: status_ok_def flushVideo_def video_step_def ethRxHook_def uplink_logStats_def Let_def
    split: option.splits prod.splits)

lemma status_exec:
  "status_ok n (fst s) \<Longrightarrow> status_ok (n + flushes [ev]) (fst (uplink_exec SQ VQ ev s))"
  by (cases s; cases ev) (simp_all add: flushes_def flush_ok status_step_ok status_ok_other)

lemma flushVideo_ok:
  assumes "video_ok (u, h)" and "mem h a = None"
  shows "video_ok (flushVideo VQ nid st sq a len (u, h\<lparr>mem := (mem h)(a \<mapsto> data)\<rparr>))"
proof (cases "g_videoQueue u")
  case None
  with assms show ?thesis
    by (auto simp: video_ok_def flushVideo_def owns_def live_def heap_caps_free_def)
next
  case (Some q)
  then have q: "vq.qinv q" "vv q" "vcap q = 12" "owns h (map vi_data (vc q))"
    using assms(1) by (auto simp: video_ok_def queue_inv_def)
  let ?h = "h\<lparr>mem := (mem h)(a \<mapsto> data)\<rparr>"
  have own: "owns ?h (map vi_data (vc q) @ [a])"
    using q(4) assms(2) by (auto simp: owns_def live_def domIff)
  then have freed: "owns (heap_caps_free a ?h) (map vi_data (vc q))"
    using owns_free [of ?h "map vi_data (vc q)" a "[]"] by simp
  let ?it = "\<lparr>vi_origin_node_id = nid, vi_stream_id = st, vi_seq = sq, vi_data_len = len, vi_data = a\<rparr>"
  show ?thesis
  proof (cases "q_send VQ q ?it")
    case None
    with Some q freed show ?thesis
      by (simp add: video_ok_def flushVideo_def freeVideoItem_def)
  next
    case (Some q')
    with \<open>g_videoQueue u = Some q\<close> q own freed vq.send_SomeD [OF q(2) Some] show ?thesis
      by (simp add: video_ok_def flushVideo_def)
  qed
qed

lemma video_step_ok:
  assumes "video_ok (u, h)"
  shows "video_ok (fst (video_step VQ tx (u, h)))"
proof (cases "g_videoQueue u")
  case (Some q)
  then have q: "vq.qinv q" "vcap q = 12" "owns h (map vi_data (vc q))"
    using assms by (auto simp: video_ok_def)
  show ?thesis
  proof (cases "q_receive VQ q")
    case None
    with assms Some show ?thesis by (simp add: video_step_def)
  next
    case (Some r)
    then obtain it q' where r: "q_receive VQ q = Some (it, q')" by (cases r) auto
    from vq.receive_SomeD [OF q(1) this]
    have q': "vq.qinv q'" "vc q = it # vc q'" "vcap q' = 12" using q(2) by auto
    then have "owns (heap_caps_free (vi_data it) h) (map vi_data (vc q'))"
      using q(3) owns_free [of h "[]" "vi_data it" "map vi_data (vc q')"] by simp
    with q' r \<open>g_videoQueue u = Some q\<close> show ?thesis
      by (auto simp: video_step_def video_ok_def freeVideoItem_def Let_def split: prod.splits)
  qed
qed (use assms in \<open>simp add: video_step_def\<close>)

lemma video_ok_other:
  "video_ok (flush SQ nid st oc pl u, h) = video_ok (u, h)"
  "video_ok (fst (status_step SQ e u), h) = video_ok (u, h)"
  "video_ok (ethEventHandler ev u, h) = video_ok (u, h)"
  "video_ok (fst (ethRxHook f u), h) = video_ok (u, h)"
  "video_ok (fst (uplink_logStats us u), h) = video_ok (u, h)"
proof -
  show "video_ok (ethEventHandler ev u, h) = video_ok (u, h)"
    by (cases ev) (simp_all add: video_ok_def split: option.split)
qed (auto simp: video_ok_def flush_def status_step_def flushOne_def ethRxHook_def uplink_logStats_def Let_def
    split: option.splits prod.splits)

lemma video_exec: "video_ok s \<Longrightarrow> video_ok (uplink_exec SQ VQ ev s)"
  by (cases s; cases ev) (simp_all add: flushVideo_ok video_step_ok video_ok_other)

lemma init_ok:
  "case uplink_init SQ VQ e uplink0 of (_, u, _) \<Rightarrow> status_ok 0 u \<and> video_ok (u, heap0)"
  using sq.create_inv [of 32] vq.create_inv [of 12]
  by (auto simp: uplink_init_def uplink0_def status_ok_def video_ok_def config_defs Let_def split: option.split)

lemma run_ok:
  "status_ok (flushes evs) (fst (uplink_run SQ VQ e evs)) \<and> video_ok (uplink_run SQ VQ e evs)"
proof (induction evs rule: rev_induct)
  case Nil
  show ?case using init_ok [of e] by (auto simp: uplink_run_def flushes_def split: prod.splits)
next
  case (snoc ev evs)
  have "flushes (evs @ [ev]) = flushes evs + flushes [ev]" by (simp add: flushes_def)
  with snoc status_exec video_exec show ?case by (simp add: uplink_run_def)
qed

end

interpretation luq: uplink_queues list_queue "\<lambda>_. True" fst snd list_queue "\<lambda>_. True" fst snd
  by unfold_locales

lemma list_uplink_queues: "uplink_queues list_queue (\<lambda>_. True) fst snd list_queue (\<lambda>_. True) fst snd"
  by (rule luq.uplink_queues_axioms)

section \<open>Properties of the status line\<close>

text \<open>What one pass of the status task makes of its reading, on a link that is up.\<close>

definition reaches :: "sock_env \<Rightarrow> bool" where
  "reaches e \<longleftrightarrow> se_socket_ok e \<and> fst (connectWithTimeout (se_connect e) status_dest kStatusConnectTimeoutMs)"

definition delivered :: "StatusItem \<times> sock_env \<Rightarrow> bool" where
  "delivered = (\<lambda>(it, e). reaches e \<and> se_send e (status_line it) = int (length (status_line it)))"

lemma flushOne_result:
  "flushOne e it u =
     (if delivered (it, e) then u\<lparr>g_stSent := g_stSent u + 1\<rparr> else u\<lparr>g_stDropped := g_stDropped u + 1\<rparr>,
      if reaches e then [status_line it] else [])"
  by (auto simp: flushOne_def delivered_def reaches_def Let_def)

lemma status_task_served:
  assumes Q: "rtos_queue SQ sv sc scap"
  shows "g_statusQueue u = Some q \<Longrightarrow> queue_inv sv sc scap q \<Longrightarrow> g_linkUp u \<Longrightarrow>
    statusUplinkTask SQ es u = (u', lines) \<Longrightarrow>
    lines = map (status_line \<circ> fst) (filter (reaches \<circ> snd) (zip (sc q) es)) \<and>
    map_option sc (g_statusQueue u') = Some (drop (length es) (sc q)) \<and>
    g_stSent u' = g_stSent u + of_nat (length (filter delivered (zip (sc q) es))) \<and>
    g_stDropped u' = g_stDropped u + of_nat (length (filter (Not \<circ> delivered) (zip (sc q) es)))"
proof (induction es arbitrary: u q lines)
  case (Cons e es)
  obtain u1 ls where 1: "status_step SQ e u = (u1, ls)" by fastforce
  obtain ls' where 2: "statusUplinkTask SQ es u1 = (u', ls')" "lines = ls @ ls'"
    using Cons.prems(4) 1 by (auto split: prod.splits)
  show ?case
  proof (cases "sc q")
    case Nil
    then have "q_receive SQ q = None"
      using rtos_queue.receive_None_iff [OF Q, of q] Cons.prems(2) by (simp add: queue_inv_def)
    then have "u1 = u" "ls = []" using 1 Cons.prems(1) by (auto simp: status_step_def)
    with Cons.IH [OF _ Cons.prems(2), of u ls'] Cons.prems 2 Nil show ?thesis by simp
  next
    case (Cons it its)
    obtain q1 where r: "q_receive SQ q = Some (it, q1)" "queue_inv sv sc scap q1" "sc q1 = its"
      using rtos_queue.receive_Some_iff [OF Q Cons.prems(2) Cons] by blast
    have step: "u1 = fst (flushOne e it (u\<lparr>g_statusQueue := Some q1\<rparr>))" "ls = (if reaches e then [status_line it] else [])"
      using 1 Cons.prems(1,3) r(1) by (auto simp: status_step_def flushOne_result Let_def)
    then have u1: "g_statusQueue u1 = Some q1" "g_linkUp u1"
        "g_stSent u1 = g_stSent u + (if delivered (it, e) then 1 else 0)"
        "g_stDropped u1 = g_stDropped u + (if delivered (it, e) then 0 else 1)"
      using Cons.prems(3) by (simp_all add: flushOne_result)
    from Cons.IH [OF u1(1) r(2) u1(2) 2(1)] show ?thesis
      using 2(2) step(2) u1(3,4) r(3) Cons by simp
  qed
qed simp

text \<open>C27: The readings waiting for the uplink leave it in the order they came, one per pass of the
  status task: those whose pass reaches the backend are the lines it is offered, a line taken
  whole counts as sent, every other reading as dropped, and none is tried twice.\<close>

theorem status_lines_in_order:
  assumes "rtos_queue SQ sv sc scap" and "g_statusQueue u = Some q" and "queue_inv sv sc scap q" and "g_linkUp u"
    and "statusUplinkTask SQ es u = (u', lines)"
  shows "lines = map (status_line \<circ> fst) (filter (reaches \<circ> snd) (zip (sc q) es)) \<and>
    map_option sc (g_statusQueue u') = Some (drop (length es) (sc q)) \<and>
    g_stSent u' = g_stSent u + of_nat (length (filter delivered (zip (sc q) es))) \<and>
    g_stDropped u' = g_stDropped u + of_nat (length (filter (Not \<circ> delivered) (zip (sc q) es)))"
  by (rule status_task_served [OF assms])

text \<open>C25: Every reading handed to \<open>flush\<close> after the bring-up is sent, counted as dropped, or still
  in the queue (which holds at most 32), whatever else happens in between: link changes,
  failed connections, partial sends, video traffic, restarts of the driver.\<close>

theorem readings_accounted:
  assumes "uplink_queues SQ sv sc scap VQ vv vc vcap"
    and "g_statusQueue (fst (uplink_run SQ VQ e evs)) = Some q"
  shows "of_nat (flushes evs) = g_stSent (fst (uplink_run SQ VQ e evs)) +
      g_stDropped (fst (uplink_run SQ VQ e evs)) + of_nat (length (sc q)) \<and> length (sc q) \<le> 32"
  using uplink_queues.run_ok [OF assms(1), of evs e] assms(2)
  by (simp add: uplink_queues.status_ok_def [OF assms(1)] queue_inv_def)

definition up_env :: eth_env where
  "up_env = \<lparr>isr_ok = True, spi_bus_ok = True, mac_new_ok = True, phy_new_ok = True,
     driver_install_ok = True, netif_attach_ok = True, eth_start_ok = True\<rparr>"

definition up_sock :: sock_env where
  "up_sock = \<lparr>se_socket_ok = True, se_connect = (\<lambda>_. \<lparr>ce_connect = - 1, ce_inprogress = True,
     ce_select = (\<lambda>_ _. 1), ce_so_error = 0\<rparr>), se_send = (\<lambda>l. int (length l))\<rparr>"

abbreviation up_run ::
  "uplink_event list \<Rightarrow> (StatusItem list_q, VideoItem list_q) uplink \<times> heap" where
  "up_run evs \<equiv> uplink_run list_queue list_queue up_env evs"

definition day :: "uplink_event list" where
  "day = [EvFlush 1 0 1 [66], EvStatusTask up_sock, EvEth ETHERNET_EVENT_CONNECTED, EvFlush 2 0 0 [],
     EvVideo 2 1 7 40 [1, 2, 3], EvVideo 2 2 8 41 [4, 5], EvVideoTask (\<lambda>_. 0), EvFlush 3 1 1 [65], EvStatusTask up_sock]"

theorem readings_accounted_witness:
  "\<exists>q. g_statusQueue (fst (up_run day)) = Some q \<and>
     of_nat (flushes day) = g_stSent (fst (up_run day)) + g_stDropped (fst (up_run day)) + of_nat (length (fst q))"
proof -
  have "g_statusQueue (fst (up_run day)) \<noteq> None" by code_simp
  then obtain q where "g_statusQueue (fst (up_run day)) = Some q" by auto
  with readings_accounted [OF list_uplink_queues this] show ?thesis by auto
qed

text \<open>C26: The module never frees a buffer twice and never leaks one: at any time the live
  buffers it was handed are exactly those of the frames in its queue, at most twelve.\<close>

theorem video_buffers_owned:
  assumes "uplink_queues SQ sv sc scap VQ vv vc vcap"
  shows "\<not> bad_free (snd (uplink_run SQ VQ e evs)) \<and>
    live (snd (uplink_run SQ VQ e evs)) =
      (case g_videoQueue (fst (uplink_run SQ VQ e evs)) of None \<Rightarrow> {} | Some q \<Rightarrow> vi_data ` set (vc q)) \<and>
    card (live (snd (uplink_run SQ VQ e evs))) \<le> 12"
proof (cases "g_videoQueue (fst (uplink_run SQ VQ e evs))")
  case None
  then show ?thesis
    using uplink_queues.run_ok [OF assms, of evs e]
    by (simp add: uplink_queues.video_ok_def [OF assms] owns_def split: prod.splits)
next
  case (Some q)
  then have "owns (snd (uplink_run SQ VQ e evs)) (map vi_data (vc q))" "length (vc q) \<le> 12"
    using uplink_queues.run_ok [OF assms, of evs e]
    by (auto simp: uplink_queues.video_ok_def [OF assms] queue_inv_def split: prod.splits)
  moreover have "card (vi_data ` set (vc q)) \<le> length (vc q)"
    using card_length [of "map vi_data (vc q)"] by simp
  ultimately show ?thesis
    using Some by (simp add: owns_def)
qed

theorem video_buffers_owned_witness:
  "live (snd (up_run day)) = {41} \<and> \<not> bad_free (snd (up_run day))"
proof -
  have "map_option (\<lambda>q. map vi_data (fst q)) (g_videoQueue (fst (up_run day))) = Some [41]"
    by code_simp
  then obtain q where q: "g_videoQueue (fst (up_run day)) = Some q" "map vi_data (fst q) = [41]" by auto
  from q(2) have "vi_data ` set (fst q) = {41}" by (metis list.set(1,2) set_map)
  with video_buffers_owned [OF list_uplink_queues, of up_env day] q(1) show ?thesis by simp
qed

text \<open>C30: However far the bring-up gets, both queues have been created before anything can
  fail and the link is down until an event says otherwise; so a frame handed over then is
  counted and freed. A driver that was not installed has its MAC and PHY deleted.\<close>

theorem failed_init_is_safe:
  "case uplink_init SQ VQ e uplink0 of (ok, u, cl) \<Rightarrow>
     g_videoQueue u = q_create VQ 12 \<and> g_statusQueue u = q_create SQ 32 \<and> \<not> g_linkUp u \<and>
     flushVideo VQ nid st sq a len (u, h) = (u\<lparr>g_vidDropped := 1\<rparr>, heap_caps_free a h) \<and>
     (ok \<longleftrightarrow> e = up_env) \<and>
     (g_ethHandle u \<longleftrightarrow> isr_ok e \<and> spi_bus_ok e \<and> mac_new_ok e \<and> phy_new_ok e \<and> driver_install_ok e) \<and>
     (mac_new_ok e \<and> isr_ok e \<and> spi_bus_ok e \<and> \<not> g_ethHandle u \<longleftrightarrow> MacDel \<in> set cl)"
  by (cases e) (auto simp: uplink_init_def uplink0_def flushVideo_def up_env_def config_defs Let_def
      split: option.split)

theorem failed_init_is_safe_witness:
  "flushVideo list_queue 0 0 0 5 9
     (fst (snd (uplink_init list_queue list_queue (up_env\<lparr>phy_new_ok := False\<rparr>) uplink0)),
      heap0\<lparr>mem := [5 \<mapsto> replicate 9 0]\<rparr>) =
   ((fst (snd (uplink_init list_queue list_queue (up_env\<lparr>phy_new_ok := False\<rparr>) uplink0)))
      \<lparr>g_vidDropped := 1\<rparr>, heap_caps_free 5 (heap0\<lparr>mem := [5 \<mapsto> replicate 9 0]\<rparr>))"
  using failed_init_is_safe [where VQ = list_queue and SQ = list_queue and e = "up_env\<lparr>phy_new_ok := False\<rparr>"
      and nid = 0 and st = 0 and sq = 0 and a = 5 and len = 9 and h = "heap0\<lparr>mem := [5 \<mapsto> replicate 9 0]\<rparr>"]
  by (simp split: prod.splits)

text \<open>Three readings; the second pass finds no socket.\<close>

theorem status_lines_in_order_witness:
  "let its = [status_item 1 0 1 [66], status_item 2 0 0 [], status_item 1 1 1 [67]];
      r = statusUplinkTask list_queue [up_sock, up_sock\<lparr>se_socket_ok := False\<rparr>, up_sock, up_sock]
        ((uplink0 :: (StatusItem list_q, nat) uplink)\<lparr>g_linkUp := True, g_statusQueue := Some (its, 32)\<rparr>)
   in snd r = [status_line (its ! 0), status_line (its ! 2)] \<and> g_stSent (fst r) = 2 \<and> g_stDropped (fst r) = 1"
proof -
  let ?its = "[status_item 1 0 1 [66], status_item 2 0 0 [], status_item 1 1 1 [67]]"
  let ?u = "(uplink0 :: (StatusItem list_q, nat) uplink)\<lparr>g_linkUp := True, g_statusQueue := Some (?its, 32)\<rparr>"
  let ?es = "[up_sock, up_sock\<lparr>se_socket_ok := False\<rparr>, up_sock, up_sock]"
  obtain u' lines where run: "statusUplinkTask list_queue ?es ?u = (u', lines)" by fastforce
  have up: "reaches up_sock" "\<not> reaches (up_sock\<lparr>se_socket_ok := False\<rparr>)" "delivered (it, up_sock)"
      "\<not> delivered (it, up_sock\<lparr>se_socket_ok := False\<rparr>)" for it
    by (simp_all add: delivered_def reaches_def up_sock_def connectWithTimeout_def Let_def)
  have u: "g_statusQueue ?u = Some (?its, 32)" "queue_inv (\<lambda>_. True) fst snd (?its, 32 :: nat)" "g_linkUp ?u"
      "g_stSent ?u = 0" "g_stDropped ?u = 0"
    by (simp_all add: queue_inv_def uplink0_def)
  note served = status_lines_in_order [OF lq.rtos_queue_axioms u(1) _ u(3) run]
  have "lines = [status_line (?its ! 0), status_line (?its ! 2)]" "g_stSent u' = 2" "g_stDropped u' = 1"
    using served u(2) by (simp_all add: up u(4,5))
  with run show ?thesis unfolding Let_def by simp
qed

section \<open>The backend on the cable\<close>

text \<open>
  After a bring-up without errors the port has a unicast, locally administered MAC, and the
  address that both uplinks dial is the gateway's: another address of the port's own
  subnet, so it is reached without a router.
\<close>

lemma backend_on_link:
  assumes "fst (uplink_init SQ VQ e u)"
  shows "uplink_settings e = \<lparr>es_mac = Some kEthMac,
      es_ip = Some ([192, 168, 50, 2], sa_host status_dest, [255, 255, 255, 0])\<rparr> \<and>
    sa_host video_dest = sa_host status_dest \<and> sa_port video_dest \<noteq> sa_port status_dest \<and>
    sa_host status_dest = [192, 168, 50, 1] \<and> and (hd kEthMac) 3 = 2 \<and> length kEthMac = 6"
proof -
  have "inet_pton kEthStaticIp = [192, 168, 50, 2]" "inet_pton kEthStaticGateway = [192, 168, 50, 1]"
      "inet_pton kEthStaticNetmask = [255, 255, 255, 0]"
    by code_simp+
  moreover have "isr_ok e \<and> spi_bus_ok e \<and> mac_new_ok e \<and> phy_new_ok e \<and> driver_install_ok e \<and> netif_attach_ok e"
    using assms by (auto simp: uplink_init_def Let_def split: if_splits)
  ultimately show ?thesis
    by (simp add: uplink_settings_def status_dest_def video_dest_def kBackendHost_def kBackendPort_def
        kVideoBackendPort_def kEthMac_def)
qed

section \<open>The watchdog\<close>

definition stuck_pass :: "('sq, 'vq) uplink \<Rightarrow> bool" where
  "stuck_pass u \<longleftrightarrow> g_ethHandle u \<and> g_linkUp u \<and>
     g_stQueued u + g_vidQueued u \<noteq> g_lastQueuedTotal u \<and> g_stSent u + g_vidSent u = g_lastSentTotal u"

text \<open>One pass of the watchdog, on every branch: it counts a pass as stuck when the link is
  up, something was queued and nothing was sent since the last pass; it restarts the
  driver exactly at the sixth stuck pass in a row or later, if it has not restarted it in
  the last five minutes; and any other pass sets the count back to zero.\<close>

lemma watchdog_pass:
  "case uplink_logStats us u of (u', restart) \<Rightarrow>
    let now = word_of_int (us div 1000); k = (if stuck_pass u then g_stuckIntervals u + 1 else 0)
    in (restart \<longleftrightarrow> g_ethHandle u \<and> g_linkUp u \<and> 6 \<le> k \<and>
          (g_lastRestartMs u = 0 \<or> 300000 \<le> now - g_lastRestartMs u)) \<and>
       g_stuckIntervals u' = (if restart then 0 else k) \<and>
       g_lastRestartMs u' = (if restart then now else g_lastRestartMs u) \<and>
       (g_ethHandle u \<and> g_linkUp u \<longrightarrow> g_lastSentTotal u' = g_stSent u + g_vidSent u \<and>
          g_lastQueuedTotal u' = g_stQueued u + g_vidQueued u)"
  by (auto simp: uplink_logStats_def stuck_pass_def kEthStuckIntervals_def kEthRestartMinIntervalMs_def Let_def)

lemma watchdog_pass_stuck:
  "snd (uplink_logStats 60000000 ((uplink0 :: (nat, nat) uplink)\<lparr>g_ethHandle := True, g_linkUp := True,
     g_stuckIntervals := 5, g_stQueued := 3\<rparr>))"
  using watchdog_pass [of 60000000 "(uplink0 :: (nat, nat) uplink)\<lparr>g_ethHandle := True, g_linkUp := True,
     g_stuckIntervals := 5, g_stQueued := 3\<rparr>"]
  by (simp add: stuck_pass_def uplink0_def Let_def split: prod.splits)

text \<open>The moments (in ms) of the watchdog passes in a sequence of events, and of the restarts of the
  driver when it runs from a state.\<close>

fun pass_times :: "uplink_event list \<Rightarrow> int list" where
  "pass_times [] = []"
| "pass_times (ev # evs) = (case ev of EvStats us \<Rightarrow> [us div 1000] | _ \<Rightarrow> []) @ pass_times evs"

fun restart_times ::
  "(StatusItem, 'sq) queue_ops \<Rightarrow> (VideoItem, 'vq) queue_ops \<Rightarrow> uplink_event list \<Rightarrow>
     ('sq, 'vq) uplink \<times> heap \<Rightarrow> int list" where
  "restart_times SQ VQ [] s = []"
| "restart_times SQ VQ (ev # evs) s =
     (case ev of EvStats us \<Rightarrow> if snd (uplink_logStats us (fst s)) then [us div 1000] else [] | _ \<Rightarrow> []) @
     restart_times SQ VQ evs (uplink_exec SQ VQ ev s)"

lemma other_events_watch:
  "\<not> (\<exists>us. ev = EvStats us) \<Longrightarrow> g_stuckIntervals (fst (uplink_exec SQ VQ ev s)) = g_stuckIntervals (fst s) \<and>
     g_lastRestartMs (fst (uplink_exec SQ VQ ev s)) = g_lastRestartMs (fst s)"
proof (cases s; cases ev)
  fix u h e assume "s = (u, h)" "ev = EvEth e"
  then show ?thesis by (cases e) simp_all
qed (auto simp: flush_def flushVideo_def status_step_def flushOne_def video_step_def ethRxHook_def Let_def
    split: option.splits prod.splits)

lemma stats_pass_stuck:
  "case uplink_logStats us u of (u', restart) \<Rightarrow>
     (if restart then 6 else 0) + unat (g_stuckIntervals u') \<le> Suc (unat (g_stuckIntervals u))"
proof -
  have "unat (g_stuckIntervals u + 1) \<le> Suc (unat (g_stuckIntervals u))"
    by (simp add: unat_word_ariths mod_less_eq_dividend [of "Suc _", simplified])
  then show ?thesis
    by (auto simp: uplink_logStats_def kEthStuckIntervals_def word_le_nat_alt Let_def)
qed

text \<open>Six passes per restart.\<close>

lemma restarts_per_pass:
  "6 * length (restart_times SQ VQ evs s) \<le> length (pass_times evs) + unat (g_stuckIntervals (fst s))"
proof (induction evs arbitrary: s)
  case (Cons ev evs)
  show ?case
  proof (cases "\<exists>us. ev = EvStats us")
    case True
    then obtain us u h where ev: "ev = EvStats us" and s: "s = (u, h)" by (cases s) auto
    from Cons.IH [of "uplink_exec SQ VQ ev s"] stats_pass_stuck [of u us] show ?thesis
      by (auto simp: ev s split: prod.splits if_splits)
  next
    case False
    with Cons.IH [of "uplink_exec SQ VQ ev s"] show ?thesis
      using other_events_watch [of ev SQ VQ s] by (cases ev) auto
  qed
qed simp

text \<open>Five minutes between restarts, while the 32-bit clock does not wrap.\<close>

definition last_restart_ok :: "int list \<Rightarrow> u32 \<Rightarrow> bool" where
  "last_restart_ok ts l \<longleftrightarrow> (\<forall>t \<in> set ts. uint l \<le> t \<and> 0 < t \<and> t < 2 ^ 32)"

lemma restart_pass:
  assumes "last_restart_ok (us div 1000 # ts) (g_lastRestartMs u)" and "sorted (us div 1000 # ts)"
  shows "last_restart_ok ts (g_lastRestartMs (fst (uplink_logStats us u)))"
    and "snd (uplink_logStats us u) \<Longrightarrow>
      (g_lastRestartMs u = 0 \<or> uint (g_lastRestartMs u) + 300000 \<le> us div 1000) \<and>
      uint (g_lastRestartMs (fst (uplink_logStats us u))) = us div 1000"
    and "\<not> snd (uplink_logStats us u) \<Longrightarrow> g_lastRestartMs (fst (uplink_logStats us u)) = g_lastRestartMs u"
proof -
  let ?now = "word_of_int (us div 1000) :: u32" and ?l = "g_lastRestartMs u"
  have now: "uint ?now = us div 1000" and le: "uint ?l \<le> uint ?now"
    using assms(1) by (simp_all add: last_restart_ok_def uint_word_of_int)
  have sub: "uint (?now - ?l) = uint ?now - uint ?l" using le by (simp add: uint_sub_lem [THEN iffD1])
  obtain u' r where ur: "uplink_logStats us u = (u', r)" by (cases "uplink_logStats us u")
  note pass = watchdog_pass [of us u, unfolded ur, simplified, unfolded Let_def]
  show "last_restart_ok ts (g_lastRestartMs (fst (uplink_logStats us u)))"
    using assms pass now unfolding ur by (auto simp: last_restart_ok_def)
  show "snd (uplink_logStats us u) \<Longrightarrow> (?l = 0 \<or> uint ?l + 300000 \<le> us div 1000) \<and>
      uint (g_lastRestartMs (fst (uplink_logStats us u))) = us div 1000"
    using pass now sub unfolding ur by (auto simp: word_le_def)
  show "\<not> snd (uplink_logStats us u) \<Longrightarrow> g_lastRestartMs (fst (uplink_logStats us u)) = ?l"
    using pass unfolding ur by auto
qed

lemma restarts_apart:
  assumes "last_restart_ok (pass_times evs) (g_lastRestartMs (fst s))" and "sorted (pass_times evs)"
  shows "sorted_wrt (\<lambda>a b. a + 300000 \<le> b) (restart_times SQ VQ evs s) \<and>
    (\<forall>b \<in> set (restart_times SQ VQ evs s). g_lastRestartMs (fst s) = 0 \<or> uint (g_lastRestartMs (fst s)) + 300000 \<le> b)"
  using assms
proof (induction evs arbitrary: s)
  case (Cons ev evs)
  show ?case
  proof (cases "\<exists>us. ev = EvStats us")
    case True
    then obtain us u h where ev: "ev = EvStats us" and s: "s = (u, h)" by (cases s) auto
    have pre: "last_restart_ok (us div 1000 # pass_times evs) (g_lastRestartMs u)" "sorted (us div 1000 # pass_times evs)"
      using Cons.prems by (simp_all add: ev s)
    note pass = restart_pass [OF pre]
    have IH: "sorted_wrt (\<lambda>a b. a + 300000 \<le> b) (restart_times SQ VQ evs (uplink_exec SQ VQ ev s))"
      "\<forall>b \<in> set (restart_times SQ VQ evs (uplink_exec SQ VQ ev s)).
        g_lastRestartMs (fst (uplink_logStats us u)) = 0 \<or> uint (g_lastRestartMs (fst (uplink_logStats us u))) + 300000 \<le> b"
      using Cons.IH [of "uplink_exec SQ VQ ev s"] pass(1) pre(2) by (simp_all add: ev s)
    have pos: "0 < us div 1000" using pre(1) by (simp add: last_restart_ok_def)
    show ?thesis
    proof (cases "snd (uplink_logStats us u)")
      case True
      with pass(2) pos have "g_lastRestartMs (fst (uplink_logStats us u)) \<noteq> 0" by auto
      with IH pass(2) [OF True] True show ?thesis by (auto simp: ev s)
    next
      case False
      with IH pass(3) [OF False] show ?thesis by (simp add: ev s)
    qed
  next
    case False
    with Cons.IH [of "uplink_exec SQ VQ ev s"] Cons.prems show ?thesis
      using other_events_watch [of ev SQ VQ s] by (cases ev) auto
  qed
qed simp

text \<open>C32: From bring-up on and in any sequence of events, the watchdog restarts the driver at
  most once per six of its passes, and two restarts are at least five minutes apart. (The
  passes come in the order of their times, from the first millisecond to the wrap of the 32-bit
  clock.)\<close>

theorem watchdog_rate:
  assumes "sorted (pass_times evs)" and "\<And>t. t \<in> set (pass_times evs) \<Longrightarrow> 0 < t \<and> t < 2 ^ 32"
  shows "let rs = restart_times SQ VQ evs (fst (snd (uplink_init SQ VQ e uplink0)), h)
    in 6 * length rs \<le> length (pass_times evs) \<and> sorted_wrt (\<lambda>a b. a + 300000 \<le> b) rs"
proof -
  let ?s = "(fst (snd (uplink_init SQ VQ e uplink0)), h)"
  have boot: "g_stuckIntervals (fst ?s) = 0" "g_lastRestartMs (fst ?s) = 0"
    by (auto simp: uplink_init_def uplink0_def Let_def split: option.split)
  have "last_restart_ok (pass_times evs) (g_lastRestartMs (fst ?s))"
    using assms(2) unfolding boot by (fastforce simp: last_restart_ok_def)
  from restarts_apart [OF this assms(1)] restarts_per_pass [of SQ VQ evs ?s] boot show ?thesis
    by (simp add: Let_def)
qed

text \<open>A peer with no listener: the link is up, a reading is queued every thirty seconds, none is sent.\<close>

definition deaf_peer :: "uplink_event list" where
  "deaf_peer = EvEth ETHERNET_EVENT_CONNECTED #
     concat (map (\<lambda>k. [EvFlush 1 0 1 [65], EvStats (30000000 * int k)]) [1..<17])"

theorem watchdog_rate_witness:
  "let rs = restart_times list_queue list_queue deaf_peer
      (fst (snd (uplink_init list_queue list_queue up_env (uplink0 :: (StatusItem list_q, VideoItem list_q) uplink))), heap0)
   in rs = [180000, 480000] \<and> 6 * length rs \<le> 16 \<and> sorted_wrt (\<lambda>a b. a + 300000 \<le> b) rs"
proof -
  have times: "pass_times deaf_peer = map (\<lambda>k. 30000 * k) [1..16]" by code_simp
  have "sorted (map (\<lambda>k. 30000 * k) [1..16::int])" "list_all (\<lambda>t. 0 < t \<and> t < 2 ^ 32) (map (\<lambda>k. 30000 * k) [1..16::int])"
      "length (map (\<lambda>k. 30000 * k) [1..16::int]) = 16"
    by code_simp+
  then have ok: "sorted (pass_times deaf_peer)" "list_all (\<lambda>t. 0 < t \<and> t < 2 ^ 32) (pass_times deaf_peer)"
      "length (pass_times deaf_peer) = 16"
    unfolding times by blast+
  have "restart_times list_queue list_queue deaf_peer
      (fst (snd (uplink_init list_queue list_queue up_env (uplink0 :: (StatusItem list_q, VideoItem list_q) uplink))), heap0) =
      [180000, 480000]"
    by code_simp
  with watchdog_rate [of deaf_peer list_queue list_queue up_env heap0] ok show ?thesis
    by (simp add: list_all_iff Let_def)
qed

end
