(* ===== verification/VideoRelay.thy ===== *)
theory VideoRelay
  imports Uplink
begin

text \<open>
  main/video_relay.cpp: the hop-by-hop video relay over TCP. Its file-level variables are the
  fields of \<open>relay\<close>; an operation works on the relay, the uplink (of the Gateway) and the
  heap together (\<open>world\<close>). A \<open>Frame\<close> is kept by value, its buffer by address. The server
  and client tasks are given by one pass of each of their loops, by a connection of any number
  of passes and by a whole round; the sockets are the receiver \<open>R\<close>
  and the sender \<open>W\<close> of the theory Sockets, with their connection state.
\<close>

section \<open>Frames\<close>

record FrameHeader =
  fh_origin_node_id :: u8
  fh_stream_id :: u8
  fh_seq :: u16
  fh_data_len :: u32

definition sizeof_FrameHeader :: nat where "sizeof_FrameHeader = 8"

definition enc_frame_header :: "FrameHeader \<Rightarrow> bytes" where
  "enc_frame_header f = [fh_origin_node_id f, fh_stream_id f] @ le16 (fh_seq f) @ le32 (fh_data_len f)"

definition dec_frame_header :: "bytes \<Rightarrow> FrameHeader" where
  "dec_frame_header bs = \<lparr>fh_origin_node_id = bs ! 0, fh_stream_id = bs ! 1,
     fh_seq = le16_dec (bs ! 2) (bs ! 3), fh_data_len = le32_dec (bs ! 4) (bs ! 5) (bs ! 6) (bs ! 7)\<rparr>"

lemma length_frame_header [simp]: "length (enc_frame_header f) = 8"
  by (simp add: enc_frame_header_def)

lemma dec_enc_frame_header [simp]: "dec_frame_header (enc_frame_header f) = f"
  by (simp add: dec_frame_header_def enc_frame_header_def le16_def le32_def codec)

record Frame =
  fr_header :: FrameHeader
  fr_data :: "addr option"            \<comment> \<open>\<open>None\<close> is \<open>nullptr\<close>\<close>

definition freeFrame :: "Frame \<Rightarrow> heap \<Rightarrow> heap" where
  "freeFrame f h = (case fr_data f of None \<Rightarrow> h | Some a \<Rightarrow> heap_caps_free a h)"

definition allocFrameBuffer :: "alloc \<Rightarrow> nat \<Rightarrow> heap \<Rightarrow> addr option \<times> heap" where
  "allocFrameBuffer A sz h =
     (case heap_caps_malloc A sz MALLOC_CAP_SPIRAM h of
        (Some a, h1) \<Rightarrow> (Some a, h1)
      | (None, h1) \<Rightarrow> heap_caps_malloc A sz MALLOC_CAP_8BIT h1)"

section \<open>State\<close>

record 'fq relay =
  v_nodeId :: u8
  v_chainSize :: u8
  v_nextId :: u8
  v_isGateway :: bool
  v_nextIp :: bytes
  g_vLocal :: u32
  g_vIn :: u32
  g_vOut :: u32
  g_vOutBytes :: u32
  g_vDrop :: u32
  g_vSunk :: u32
  g_vBad :: u32
  g_vReconnects :: u32
  g_vPrevDrops :: u32
  g_serverUp :: bool
  g_clientUp :: bool
  v_outQueue :: "'fq option"

definition relay0 :: "'fq relay" where
  "relay0 = \<lparr>v_nodeId = 0, v_chainSize = 0, v_nextId = 0, v_isGateway = False, v_nextIp = replicate 16 0,
     g_vLocal = 0, g_vIn = 0, g_vOut = 0, g_vOutBytes = 0, g_vDrop = 0, g_vSunk = 0, g_vBad = 0,
     g_vReconnects = 0, g_vPrevDrops = 0, g_serverUp = False, g_clientUp = False, v_outQueue = None\<rparr>"

type_synonym ('fq, 'sq, 'vq) world = "'fq relay \<times> ('sq, 'vq) uplink \<times> heap"

section \<open>Self-test payload\<close>

definition selfTestByte :: "u8 \<Rightarrow> u8 \<Rightarrow> u16 \<Rightarrow> nat \<Rightarrow> u8" where
  "selfTestByte origin stream sq i = ucast sq + stream * 17 + origin * 3 + of_nat i * 7"

definition selfTestFrameOk :: "Frame \<Rightarrow> heap \<Rightarrow> bool" where
  "selfTestFrameOk f h =
     (let hdr = fr_header f; n = unat (fh_data_len hdr);
          data = (case fr_data f of None \<Rightarrow> [] | Some a \<Rightarrow> heap_read a h)
      in n = kSelfTestFrameBytes \<and>
         list_all (\<lambda>i. data ! i = selfTestByte (fh_origin_node_id hdr) (fh_stream_id hdr) (fh_seq hdr) i)
           [0, 1, n div 2, n - 1])"

section \<open>Handing frames on\<close>

definition sinkFrame ::
  "(VideoItem, 'vq) queue_ops \<Rightarrow> Frame \<Rightarrow> ('fq, 'sq, 'vq) world \<Rightarrow> ('fq, 'sq, 'vq) world" where
  "sinkFrame VQ f = (\<lambda>(v, u, h).
     let v1 = v\<lparr>g_vSunk := g_vSunk v + 1\<rparr>;
         v2 = (if kChainSelfTest \<and> \<not> selfTestFrameOk f h then v1\<lparr>g_vBad := g_vBad v1 + 1\<rparr> else v1)
     in case fr_data f of
          None \<Rightarrow> (v2, u, h)
        | Some a \<Rightarrow>
            (case flushVideo VQ (fh_origin_node_id (fr_header f)) (fh_stream_id (fr_header f))
                    (fh_seq (fr_header f)) a (fh_data_len (fr_header f)) (u, h) of
               (u1, h1) \<Rightarrow> (v2, u1, freeFrame (f\<lparr>fr_data := None\<rparr>) h1)))"

text \<open>
  The send may wait 50 ms for room; the client making room in that time is the same as its
  pass coming first. On a null handle FreeRTOS asserts, and the model stays where it is.
\<close>

definition enqueueOrDrop ::
  "(Frame, 'fq) queue_ops \<Rightarrow> (VideoItem, 'vq) queue_ops \<Rightarrow> Frame \<Rightarrow>
     ('fq, 'sq, 'vq) world \<Rightarrow> ('fq, 'sq, 'vq) world" where
  "enqueueOrDrop FQ VQ f = (\<lambda>(v, u, h).
     if v_isGateway v then sinkFrame VQ f (v, u, h)
     else
       (case v_outQueue v of
          None \<Rightarrow> (v, u, h)
        | Some q \<Rightarrow>
            (case q_send FQ q f of
               Some q' \<Rightarrow> (v\<lparr>v_outQueue := Some q'\<rparr>, u, h)
             | None \<Rightarrow> (v\<lparr>g_vDrop := g_vDrop v + 1\<rparr>, u, freeFrame f h))))"

section \<open>Server side\<close>

text \<open>The drain of a payload that found no buffer, in pieces of 256 bytes.\<close>

function drain_payload :: "'c receiver \<Rightarrow> nat \<Rightarrow> 'c \<Rightarrow> 'c" where
  "drain_payload R remaining c =
     (if remaining = 0 then c
      else
        let n = (if remaining < 256 then remaining else 256)
        in case recvAll R n c of
             (None, c1) \<Rightarrow> c1
           | (Some _, c1) \<Rightarrow> drain_payload R (remaining - n) c1)"
  by pat_completeness auto
termination
  by (relation "measure (\<lambda>(R, n, c). n)") auto

declare drain_payload.simps [simp del]

text \<open>One pass of the inner loop of \<open>serverTask\<close>; \<open>False\<close> leaves the loop (\<open>break\<close>).\<close>

definition server_iter ::
  "'c receiver \<Rightarrow> alloc \<Rightarrow> (Frame, 'fq) queue_ops \<Rightarrow> (VideoItem, 'vq) queue_ops \<Rightarrow>
     ('fq, 'sq, 'vq) world \<times> 'c \<Rightarrow> bool \<times> ('fq, 'sq, 'vq) world \<times> 'c" where
  "server_iter R A FQ VQ = (\<lambda>((v, u, h), c).
     (case recvAll R sizeof_FrameHeader c of
        (None, c1) \<Rightarrow> (False, (v, u, h), c1)
      | (Some hb, c1) \<Rightarrow>
          (let hdr = dec_frame_header hb
           in if fh_stream_id hdr = kVideoHeartbeatStream \<and> fh_data_len hdr = 0 then (True, (v, u, h), c1)
              else if fh_data_len hdr = 0 \<or> kVideoMaxFrameBytes < unat (fh_data_len hdr)
              then (False, (v, u, h), c1)
              else
                (case allocFrameBuffer A (unat (fh_data_len hdr)) h of
                   (None, h1) \<Rightarrow>
                     (True, (v\<lparr>g_vDrop := g_vDrop v + 1\<rparr>, u, h1), drain_payload R (unat (fh_data_len hdr)) c1)
                 | (Some a, h1) \<Rightarrow>
                     (case recvAll R (unat (fh_data_len hdr)) c1 of
                        (None, c2) \<Rightarrow> (False, (v, u, heap_caps_free a h1), c2)
                      | (Some bs, c2) \<Rightarrow>
                          (True,
                           enqueueOrDrop FQ VQ \<lparr>fr_header = hdr, fr_data = Some a\<rparr>
                             (v\<lparr>g_vIn := g_vIn v + 1\<rparr>, u, heap_write a 0 bs h1), c2))))))"

text \<open>Up to \<open>n\<close> passes, and a connection from \<open>accept\<close> to \<open>close\<close> (if it closes within \<open>n\<close>).\<close>

fun server_conn ::
  "nat \<Rightarrow> 'c receiver \<Rightarrow> alloc \<Rightarrow> (Frame, 'fq) queue_ops \<Rightarrow> (VideoItem, 'vq) queue_ops \<Rightarrow>
     ('fq, 'sq, 'vq) world \<times> 'c \<Rightarrow> bool \<times> ('fq, 'sq, 'vq) world \<times> 'c" where
  "server_conn 0 R A FQ VQ s = (True, s)"
| "server_conn (Suc n) R A FQ VQ s =
     (case server_iter R A FQ VQ s of
        (True, s') \<Rightarrow> server_conn n R A FQ VQ s'
      | (False, s') \<Rightarrow> (False, s'))"

definition server_session ::
  "nat \<Rightarrow> 'c receiver \<Rightarrow> alloc \<Rightarrow> (Frame, 'fq) queue_ops \<Rightarrow> (VideoItem, 'vq) queue_ops \<Rightarrow>
     ('fq, 'sq, 'vq) world \<times> 'c \<Rightarrow> bool \<times> ('fq, 'sq, 'vq) world" where
  "server_session n R A FQ VQ = (\<lambda>((v, u, h), c).
     (case server_conn n R A FQ VQ ((v\<lparr>g_serverUp := True\<rparr>, u, h), c) of
        (True, w, _) \<Rightarrow> (True, w)
      | (False, (v1, u1, h1), _) \<Rightarrow>
          (False, (v1\<lparr>g_serverUp := False, g_vPrevDrops := g_vPrevDrops v1 + 1\<rparr>, u1, h1))))"

text \<open>
  The task. Every element of the list is one result of \<open>accept\<close>: an error, or a connection and
  the passes it is watched for. The next \<open>accept\<close> comes when a connection has been closed.
\<close>

record listen_env =
  ls_socket_ok :: bool
  ls_bind_ok :: "sock_addr \<Rightarrow> bool"
  ls_listen_ok :: bool

fun server_accepts ::
  "'c receiver \<Rightarrow> alloc \<Rightarrow> (Frame, 'fq) queue_ops \<Rightarrow> (VideoItem, 'vq) queue_ops \<Rightarrow>
     (nat \<times> 'c) option list \<Rightarrow> ('fq, 'sq, 'vq) world \<Rightarrow> ('fq, 'sq, 'vq) world" where
  "server_accepts R A FQ VQ [] w = w"
| "server_accepts R A FQ VQ (None # cs) w = server_accepts R A FQ VQ cs w"
| "server_accepts R A FQ VQ (Some (n, c) # cs) w =
     (case server_session n R A FQ VQ (w, c) of
        (True, w1) \<Rightarrow> w1
      | (False, w1) \<Rightarrow> server_accepts R A FQ VQ cs w1)"

definition server_addr :: sock_addr where
  "server_addr = \<lparr>sa_host = [0, 0, 0, 0], sa_port = kVideoPort\<rparr>"

definition serverTask ::
  "listen_env \<Rightarrow> 'c receiver \<Rightarrow> alloc \<Rightarrow> (Frame, 'fq) queue_ops \<Rightarrow> (VideoItem, 'vq) queue_ops \<Rightarrow>
     (nat \<times> 'c) option list \<Rightarrow> ('fq, 'sq, 'vq) world \<Rightarrow> ('fq, 'sq, 'vq) world" where
  "serverTask e R A FQ VQ cs w =
     (if \<not> ls_socket_ok e then w
      else if \<not> ls_bind_ok e server_addr \<or> \<not> ls_listen_ok e then w
      else server_accepts R A FQ VQ cs w)"

section \<open>Client side\<close>

definition heartbeat_header :: FrameHeader where
  "heartbeat_header = \<lparr>fh_origin_node_id = 0, fh_stream_id = kVideoHeartbeatStream, fh_seq = 0, fh_data_len = 0\<rparr>"

definition client_connected :: "'fq relay \<Rightarrow> 'fq relay" where
  "client_connected v = v\<lparr>g_clientUp := True, g_vReconnects := g_vReconnects v + 1\<rparr>"

definition client_lost :: "'fq relay \<Rightarrow> 'fq relay" where
  "client_lost v = v\<lparr>g_clientUp := False\<rparr>"

text \<open>One pass of the inner loop of \<open>clientTask\<close>; the result is \<open>linkOk\<close>.\<close>

definition client_iter ::
  "'c sender \<Rightarrow> (Frame, 'fq) queue_ops \<Rightarrow> ('fq relay \<times> heap) \<times> 'c \<Rightarrow> bool \<times> ('fq relay \<times> heap) \<times> 'c" where
  "client_iter W FQ = (\<lambda>((v, h), c).
     (case v_outQueue v of
        None \<Rightarrow> (False, (v, h), c)
      | Some q \<Rightarrow>
          (case q_receive FQ q of
             None \<Rightarrow>
               (case sendAll W (enc_frame_header heartbeat_header) c of (ok, c1) \<Rightarrow> (ok, (v, h), c1))
           | Some (f, q') \<Rightarrow>
               (let v1 = v\<lparr>v_outQueue := Some q'\<rparr>;
                    data = (case fr_data f of None \<Rightarrow> [] | Some a \<Rightarrow> heap_read a h);
                    (ok, c2) = (case sendAll W (enc_frame_header (fr_header f)) c of
                                  (False, c1) \<Rightarrow> (False, c1)
                                | (True, c1) \<Rightarrow> sendAll W (take (unat (fh_data_len (fr_header f))) data) c1)
                in (ok,
                    ((if ok then v1\<lparr>g_vOut := g_vOut v1 + 1, g_vOutBytes := g_vOutBytes v1 + fh_data_len (fr_header f)\<rparr>
                      else v1\<lparr>g_vDrop := g_vDrop v1 + 1\<rparr>),
                     freeFrame f h), c2)))))"

text \<open>Up to \<open>n\<close> passes: a connection, open after them or given up.\<close>

fun client_conn ::
  "nat \<Rightarrow> 'c sender \<Rightarrow> (Frame, 'fq) queue_ops \<Rightarrow> ('fq relay \<times> heap) \<times> 'c \<Rightarrow> bool \<times> ('fq relay \<times> heap) \<times> 'c" where
  "client_conn 0 W FQ s = (True, s)"
| "client_conn (Suc n) W FQ s =
     (case client_iter W FQ s of
        (True, s') \<Rightarrow> client_conn n W FQ s'
      | (False, s') \<Rightarrow> (False, s'))"

text \<open>The copy of \<open>connectWithTimeout\<close> in this file, and the address the client dials.\<close>

definition relay_connectWithTimeout ::
  "(sock_addr \<Rightarrow> connect_env) \<Rightarrow> sock_addr \<Rightarrow> int \<Rightarrow> bool \<times> bool list" where
  "relay_connectWithTimeout net dest timeoutMs =
     (let flags = [True];
          rc = ce_connect (net dest)
      in if rc = 0 then (True, flags @ [False])
         else if \<not> ce_inprogress (net dest) then (False, flags @ [False])
         else
           let rc = ce_select (net dest) (timeoutMs div 1000) ((timeoutMs mod 1000) * 1000);
               flags = flags @ [False]
           in if rc \<le> 0 then (False, flags)
              else let sockErr = ce_so_error (net dest) in (sockErr = 0, flags))"

lemma relay_connect_same: "relay_connectWithTimeout = connectWithTimeout"
  by (intro ext) (simp add: relay_connectWithTimeout_def connectWithTimeout_def Let_def)

definition client_dest :: "'fq relay \<Rightarrow> sock_addr" where
  "client_dest v = \<lparr>sa_host = inet_pton (c_str (v_nextIp v)), sa_port = kVideoPort\<rparr>"

text \<open>
  One round of the outer loop, with what \<open>socket\<close> and \<open>connect\<close> report; the first result is
  the delay in milliseconds before the next round, \<open>None\<close> when the connection still stands.
\<close>

record client_env =
  cl_socket_ok :: bool
  cl_connect :: "sock_addr \<Rightarrow> connect_env"

definition client_round ::
  "nat \<Rightarrow> 'c sender \<Rightarrow> (Frame, 'fq) queue_ops \<Rightarrow> client_env \<Rightarrow> ('fq relay \<times> heap) \<times> 'c \<Rightarrow>
     nat option \<times> ('fq relay \<times> heap) \<times> 'c" where
  "client_round n W FQ e = (\<lambda>((v, h), c).
     if \<not> cl_socket_ok e then (Some 1000, (v, h), c)
     else if \<not> fst (relay_connectWithTimeout (cl_connect e) (client_dest v) 2000) then (Some 1000, (v, h), c)
     else (case client_conn n W FQ ((client_connected v, h), c) of
             (True, s) \<Rightarrow> (None, s)
           | (False, (v1, h1), c1) \<Rightarrow> (Some 500, (client_lost v1, h1), c1)))"

section \<open>Local sources\<close>

definition onLuckfoxFrame ::
  "(Frame, 'fq) queue_ops \<Rightarrow> (VideoItem, 'vq) queue_ops \<Rightarrow> u8 \<Rightarrow> u16 \<Rightarrow> addr \<Rightarrow> u32 \<Rightarrow>
     ('fq, 'sq, 'vq) world \<Rightarrow> ('fq, 'sq, 'vq) world" where
  "onLuckfoxFrame FQ VQ sid sq a len = (\<lambda>(v, u, h).
     enqueueOrDrop FQ VQ
       \<lparr>fr_header = \<lparr>fh_origin_node_id = v_nodeId v, fh_stream_id = sid, fh_seq = sq, fh_data_len = len\<rparr>,
        fr_data = Some a\<rparr>
       (v\<lparr>g_vLocal := g_vLocal v + 1\<rparr>, u, h))"

text \<open>One pass of \<open>selfTestProducerTask\<close>; its state is the next sequence number of each lane
  and the lane.\<close>

definition selfTestProducer ::
  "alloc \<Rightarrow> (Frame, 'fq) queue_ops \<Rightarrow> (VideoItem, 'vq) queue_ops \<Rightarrow>
     (u16 list \<times> u8) \<times> ('fq, 'sq, 'vq) world \<Rightarrow> (u16 list \<times> u8) \<times> ('fq, 'sq, 'vq) world" where
  "selfTestProducer A FQ VQ = (\<lambda>((seqs, stream), (v, u, h)).
     (case allocFrameBuffer A kSelfTestFrameBytes h of
        (None, h1) \<Rightarrow> ((seqs, stream), (v\<lparr>g_vDrop := g_vDrop v + 1\<rparr>, u, h1))
      | (Some a, h1) \<Rightarrow>
          (let s = seqs ! unat stream;
               data = map (selfTestByte (v_nodeId v) stream s) [0..<kSelfTestFrameBytes]
           in ((seqs[unat stream := s + 1],
                of_nat ((unat stream + 1) mod unat kVideoStreamsPerNode)),
               onLuckfoxFrame FQ VQ stream s a (of_nat kSelfTestFrameBytes)
                 (v, u, heap_write a 0 data h1)))))"

section \<open>WiFi and bring-up\<close>

datatype wifi_event = WIFI_EVENT_STA_DISCONNECTED | WIFI_EVENT_STA_CONNECTED | WIFI_EVENT_AP_STACONNECTED
  | OTHER_WIFI_EVENT

text \<open>Whether the handler calls \<open>esp_wifi_connect\<close>.\<close>

definition wifiEventHandler :: "wifi_event \<Rightarrow> 'fq relay \<Rightarrow> bool" where
  "wifiEventHandler ev v \<longleftrightarrow> ev = WIFI_EVENT_STA_DISCONNECTED \<and> \<not> v_isGateway v"

definition kApSubnetBase :: nat where "kApSubnetBase = 10"

text \<open>\<open>snprintf(dst, 16, "192.168.%u.1", n)\<close> and \<open>snprintf(dst, 16, "RAP-%u", id)\<close>.\<close>

definition ip_text :: "nat \<Rightarrow> bytes" where
  "ip_text n = [49, 57, 50, 46, 49, 54, 56, 46] @ dec_digits n @ [46, 49]"

definition ssid_text :: "u8 \<Rightarrow> bytes" where
  "ssid_text nid = [82, 65, 80, 45] @ dec_u8 nid"

definition snprintf16 :: "bytes \<Rightarrow> bytes" where
  "snprintf16 text = take 15 text @ replicate (16 - length (take 15 text)) 0"

text \<open>
  The access point (address and netmask, if its interface is found; security) and the network
  to join: name, password and channel.
\<close>

datatype wifi_auth = WIFI_AUTH_OPEN | WIFI_AUTH_WPA2_PSK

record wifi_plan =
  ap_ip :: "(bytes \<times> bytes) option"
  ap_ssid :: bytes
  ap_password :: bytes
  ap_authmode :: wifi_auth
  ap_channel :: u8
  ap_max_connection :: u8
  sta_network :: "(bytes \<times> bytes \<times> u8) option"

definition relay_init ::
  "(Frame, 'fq) queue_ops \<Rightarrow> bool \<Rightarrow> u8 \<Rightarrow> u8 \<Rightarrow> bool \<Rightarrow> 'fq relay \<Rightarrow> 'fq relay \<times> wifi_plan" where
  "relay_init FQ ap_netif_found nodeId chainSize isGateway v =
     (let v1 = v\<lparr>v_nodeId := nodeId, v_chainSize := chainSize, v_isGateway := isGateway,
                 v_nextId := of_nat ((unat nodeId + 1) mod unat chainSize)\<rparr>;
          v2 = v1\<lparr>v_nextIp := snprintf16 (ip_text (kApSubnetBase + unat (v_nextId v1)))\<rparr>;
          v3 = (if \<not> isGateway then v2\<lparr>v_outQueue := q_create FQ kVideoQueueDepth\<rparr> else v2)
      in (v3, \<lparr>ap_ip = (if ap_netif_found
                 then Some ([192, 168, of_nat (kApSubnetBase + unat nodeId), 1], [255, 255, 255, 0]) else None),
               ap_ssid = c_str (snprintf16 (ssid_text nodeId)),
               ap_password = c_str (strncpy 64 kVideoApPassword),
               ap_authmode = WIFI_AUTH_WPA2_PSK, ap_channel = kEspNowChannel,
               ap_max_connection = 1,
               sta_network = (if \<not> isGateway
                 then Some (c_str (strncpy 32 (snprintf16 (ssid_text (v_nextId v2)))),
                            c_str (strncpy 64 kVideoApPassword), kEspNowChannel)
                 else None)\<rparr>))"

section \<open>Everything that can happen to the video relay\<close>

datatype 'c relay_event =
    EvServer 'c                          \<comment> \<open>a pass of the server on a connection\<close>
  | EvAccept | EvClose                   \<comment> \<open>a connection from prev begins, ends\<close>
  | EvConnect | EvLost                   \<comment> \<open>the connection to next begins, ends\<close>
  | EvClient "bytes \<Rightarrow> nat \<Rightarrow> int \<times> nat" nat \<comment> \<open>a pass of the client on a connection\<close>
  | EvLuckfox u8 u16 bytes               \<comment> \<open>a frame of the SPI link, if a buffer is found\<close>
  | EvSelfTest "u16 list" u8
  | EvUplink uplink_event                \<comment> \<open>anything of the uplink but a new frame\<close>

fun relay_exec ::
  "'c receiver \<Rightarrow> alloc \<Rightarrow> (Frame, 'fq) queue_ops \<Rightarrow> (StatusItem, 'sq) queue_ops \<Rightarrow>
     (VideoItem, 'vq) queue_ops \<Rightarrow> 'c relay_event \<Rightarrow> ('fq, 'sq, 'vq) world \<Rightarrow> ('fq, 'sq, 'vq) world" where
  "relay_exec R A FQ SQ VQ (EvServer c) w = fst (snd (server_iter R A FQ VQ (w, c)))"
| "relay_exec R A FQ SQ VQ EvAccept (v, u, h) = (v\<lparr>g_serverUp := True\<rparr>, u, h)"
| "relay_exec R A FQ SQ VQ EvClose (v, u, h) =
     (v\<lparr>g_serverUp := False, g_vPrevDrops := g_vPrevDrops v + 1\<rparr>, u, h)"
| "relay_exec R A FQ SQ VQ EvConnect (v, u, h) = (client_connected v, u, h)"
| "relay_exec R A FQ SQ VQ EvLost (v, u, h) = (client_lost v, u, h)"
| "relay_exec R A FQ SQ VQ (EvClient W c) (v, u, h) =
     (case client_iter W FQ ((v, h), c) of (_, (v1, h1), _) \<Rightarrow> (v1, u, h1))"
| "relay_exec R A FQ SQ VQ (EvLuckfox sid sq data) (v, u, h) =
     (if data = [] \<or> kVideoMaxFrameBytes < length data then (v, u, h)
      else case allocFrameBuffer A (length data) h of
             (None, h1) \<Rightarrow> (v, u, h1)
           | (Some a, h1) \<Rightarrow>
               onLuckfoxFrame FQ VQ sid sq a (of_nat (length data)) (v, u, heap_write a 0 data h1))"
| "relay_exec R A FQ SQ VQ (EvSelfTest seqs stream) w = snd (selfTestProducer A FQ VQ ((seqs, stream), w))"
| "relay_exec R A FQ SQ VQ (EvUplink ev) (v, u, h) =
     (case ev of EvVideo _ _ _ _ _ \<Rightarrow> (v, u, h)
      | _ \<Rightarrow> (case uplink_exec SQ VQ ev (u, h) of (u1, h1) \<Rightarrow> (v, u1, h1)))"

end
