(* ===== verification/VideoInv.thy ===== *)
theory VideoInv
  imports VideoRelay UplinkProps "HOL-Library.Multiset"
begin

text \<open>
  The invariant of the video path of one board: the live buffers are exactly those of the
  frames in its two queues, and every one of them has the length its header announces, which
  is between one byte and 256 KB. \<open>holds\<close> is the heap side of it; the locale
  \<open>video_board\<close> joins the contracts of the queues and of the allocator.
\<close>

section \<open>Buffers of announced length\<close>

definition in_bounds :: "u32 \<Rightarrow> bool" where
  "in_bounds len \<longleftrightarrow> 1 \<le> unat len \<and> unat len \<le> kVideoMaxFrameBytes"

definition sized :: "heap \<Rightarrow> addr \<times> u32 \<Rightarrow> bool" where
  "sized h = (\<lambda>(a, len). in_bounds len \<and> (\<exists>bs. mem h a = Some bs \<and> length bs = unat len))"

definition holds :: "heap \<Rightarrow> (addr \<times> u32) list \<Rightarrow> bool" where
  "holds h xs \<longleftrightarrow> owns h (map fst xs) \<and> (\<forall>x \<in> set xs. sized h x)"

lemma holds_perm: "holds h xs \<Longrightarrow> mset ys = mset xs \<Longrightarrow> holds h ys"
proof -
  assume h: "holds h xs" and eq: "mset ys = mset xs"
  then have "set ys = set xs" by (metis set_mset_mset)
  moreover have "mset (map fst ys) = mset (map fst xs)" using eq by (metis mset_map)
  then have "distinct (map fst ys) = distinct (map fst xs)" "set (map fst ys) = set (map fst xs)"
    by (metis mset_eq_imp_distinct_iff, metis set_mset_mset)
  ultimately show ?thesis using h by (simp add: holds_def owns_def)
qed

lemma holds_free: "holds h ((a, len) # xs) \<Longrightarrow> holds (heap_caps_free a h) xs"
proof -
  assume h: "holds h ((a, len) # xs)"
  then have "owns (heap_caps_free a h) (map fst xs)"
    using owns_free [of h "[]" a "map fst xs"] by (simp add: holds_def)
  moreover have "sized (heap_caps_free a h) x" if "x \<in> set xs" for x
  proof -
    have "fst x \<noteq> a" using h that by (auto simp: holds_def owns_def)
    then show ?thesis
      using h that by (auto simp: holds_def sized_def heap_caps_free_def)
  qed
  ultimately show ?thesis by (simp add: holds_def)
qed

lemma holds_fresh:
  assumes "holds h xs" and "mem h a = None" and "length bs = unat len" and "in_bounds len"
  shows "holds (h\<lparr>mem := (mem h)(a \<mapsto> bs)\<rparr>) ((a, len) # xs)"
proof -
  let ?h = "h\<lparr>mem := (mem h)(a \<mapsto> bs)\<rparr>"
  have new: "a \<notin> live h" "live ?h = insert a (live h)" using assms(2) by (auto simp: live_def)
  have "sized ?h x" if "x \<in> set xs" for x
  proof -
    have "fst x \<noteq> a" using assms(1) new(1) that by (force simp: holds_def owns_def)
    then show ?thesis using assms(1) that by (auto simp: holds_def sized_def)
  qed
  then show ?thesis
    using assms new by (auto simp: holds_def owns_def sized_def)
qed

lemma bounds_of_nat:
  "1 \<le> n \<Longrightarrow> n \<le> kVideoMaxFrameBytes \<Longrightarrow> unat (of_nat n :: u32) = n \<and> in_bounds (of_nat n)"
proof -
  assume n: "1 \<le> n" "n \<le> kVideoMaxFrameBytes"
  then have "n < 2 ^ 32" by (simp add: config_defs)
  then have "unat (of_nat n :: u32) = n" by (simp add: unat_of_nat)
  with n show ?thesis by (simp add: in_bounds_def)
qed

context allocator
begin

lemma alloc_Some:
  assumes "allocFrameBuffer A n h = (Some a, h1)"
  shows "\<exists>bs. mem h a = None \<and> length bs = n \<and> h1 = h\<lparr>mem := (mem h)(a \<mapsto> bs)\<rparr>"
proof -
  obtain r x where m: "heap_caps_malloc A n MALLOC_CAP_SPIRAM h = (r, x)" by fastforce
  show ?thesis
  proof (cases r)
    case None
    with m malloc_None have "x = h" by blast
    with m None assms have "heap_caps_malloc A n MALLOC_CAP_8BIT h = (Some a, h1)"
      by (simp add: allocFrameBuffer_def)
    then show ?thesis by (rule malloc_Some)
  next
    case (Some b)
    with m assms have "heap_caps_malloc A n MALLOC_CAP_SPIRAM h = (Some a, h1)"
      by (simp add: allocFrameBuffer_def)
    then show ?thesis by (rule malloc_Some)
  qed
qed

lemma alloc_None:
  assumes "allocFrameBuffer A n h = (None, h1)"
  shows "h1 = h"
proof -
  obtain r x where m: "heap_caps_malloc A n MALLOC_CAP_SPIRAM h = (r, x)" by fastforce
  with assms have r: "r = None" "heap_caps_malloc A n MALLOC_CAP_8BIT x = (None, h1)"
    by (auto simp: allocFrameBuffer_def split: option.splits)
  then show ?thesis using m malloc_None by blast
qed

text \<open>A new buffer filled from its start.\<close>

lemma alloc_filled:
  assumes "allocFrameBuffer A n h = (Some a, h1)" and "length bs = n"
  shows "mem h a = None \<and> heap_write a 0 bs h1 = h\<lparr>mem := (mem h)(a \<mapsto> bs)\<rparr>"
proof -
  obtain old where "mem h a = None" "length old = n" "h1 = h\<lparr>mem := (mem h)(a \<mapsto> old)\<rparr>"
    using alloc_Some [OF assms(1)] by blast
  with assms(2) show ?thesis by (simp add: heap_write_def)
qed

end

section \<open>The board\<close>

definition frame_buf :: "Frame \<Rightarrow> addr \<times> u32" where
  "frame_buf f = (the (fr_data f), fh_data_len (fr_header f))"

definition item_buf :: "VideoItem \<Rightarrow> addr \<times> u32" where
  "item_buf it = (vi_data it, vi_data_len it)"

text \<open>The video queue exists after the bring-up, however far that got.\<close>

lemma uplink_init_videoQueue:
  "g_videoQueue (fst (snd (uplink_init SQ VQ e u))) = q_create VQ kVideoUplinkQueueDepth"
  by (simp add: uplink_init_def Let_def)

text \<open>All events but the two of the video queue leave that queue and the heap alone.\<close>

lemma uplink_event_same:
  assumes "uplink_exec SQ VQ ev (u, h) = (u', h')"
    and "\<And>tx. ev \<noteq> EvVideoTask tx" and "\<And>nid st sq a data. ev \<noteq> EvVideo nid st sq a data"
  shows "g_videoQueue u' = g_videoQueue u \<and> h' = h"
proof (cases ev)
  case (EvEth e)
  with assms(1) show ?thesis by (cases e) auto
qed (use assms in \<open>auto simp: flush_def status_step_def flushOne_def ethRxHook_def
    uplink_logStats_def Let_def split: option.splits prod.splits if_splits\<close>)

locale video_board =
  fq: rtos_queue FQ fv fc fcap + vq: rtos_queue VQ vv vc vcap + allocator A
  for FQ :: "(Frame, 'fq) queue_ops" and fv fc fcap
    and VQ :: "(VideoItem, 'vq) queue_ops" and vv vc vcap
    and A :: alloc
begin

definition relay_bufs :: "'fq relay \<Rightarrow> (addr \<times> u32) list" where
  "relay_bufs v = (case v_outQueue v of None \<Rightarrow> [] | Some q \<Rightarrow> map frame_buf (fc q))"

definition uplink_bufs :: "('sq, 'vq) uplink \<Rightarrow> (addr \<times> u32) list" where
  "uplink_bufs u = (case g_videoQueue u of None \<Rightarrow> [] | Some q \<Rightarrow> map item_buf (vc q))"

definition relay_ok :: "'fq relay \<Rightarrow> bool" where
  "relay_ok v \<longleftrightarrow> (v_isGateway v \<or> v_outQueue v \<noteq> None) \<and>
     (case v_outQueue v of None \<Rightarrow> True
      | Some q \<Rightarrow> fq.qinv q \<and> fcap q = kVideoQueueDepth \<and> (\<forall>f \<in> set (fc q). fr_data f \<noteq> None))"

definition uplink_ok :: "('sq, 'vq) uplink \<Rightarrow> bool" where
  "uplink_ok u \<longleftrightarrow> (case g_videoQueue u of None \<Rightarrow> True
     | Some q \<Rightarrow> vq.qinv q \<and> vcap q = kVideoUplinkQueueDepth)"

definition board_ok :: "('fq, 'sq, 'vq) world \<Rightarrow> bool" where
  "board_ok = (\<lambda>(v, u, h). relay_ok v \<and> uplink_ok u \<and> holds h (relay_bufs v @ uplink_bufs u))"

lemma uplink_same:
  "g_videoQueue u' = g_videoQueue u \<Longrightarrow> uplink_ok u' = uplink_ok u \<and> uplink_bufs u' = uplink_bufs u"
  by (simp add: uplink_ok_def uplink_bufs_def)

lemma relay_same:
  "v_outQueue v' = v_outQueue v \<Longrightarrow> v_isGateway v' = v_isGateway v \<Longrightarrow>
     relay_ok v' = relay_ok v \<and> relay_bufs v' = relay_bufs v"
  by (simp add: relay_ok_def relay_bufs_def)

text \<open>A buffer handed to the uplink is in its queue afterwards, or freed.\<close>

lemma flushVideo_holds:
  assumes "uplink_ok u" and "holds h ((a, len) # xs @ uplink_bufs u)"
    and "flushVideo VQ nid st sq a len (u, h) = (u', h')"
  shows "uplink_ok u' \<and> holds h' (xs @ uplink_bufs u')"
proof -
  have freed: "holds (heap_caps_free a h) (xs @ uplink_bufs u)"
    using assms(2) by (rule holds_free)
  let ?it = "\<lparr>vi_origin_node_id = nid, vi_stream_id = st, vi_seq = sq, vi_data_len = len, vi_data = a\<rparr>"
  show ?thesis
  proof (cases "g_videoQueue u")
    case None
    then show ?thesis
      using assms freed uplink_same [of "u\<lparr>g_vidDropped := g_vidDropped u + 1\<rparr>" u]
      by (auto simp: flushVideo_def)
  next
    case (Some q)
    then have q: "vq.qinv q" "vv q" "vcap q = kVideoUplinkQueueDepth"
      using assms(1) by (auto simp: uplink_ok_def queue_inv_def)
    show ?thesis
    proof (cases "g_linkUp u \<and> q_send VQ q ?it \<noteq> None")
      case True
      then obtain q' where s: "q_send VQ q ?it = Some q'" by auto
      from vq.send_SomeD [OF q(2) s] q(3)
      have q': "vq.qinv q'" "vc q' = vc q @ [?it]" "vcap q' = kVideoUplinkQueueDepth" by auto
      have u': "u' = u\<lparr>g_videoQueue := Some q', g_vidQueued := g_vidQueued u + 1\<rparr>" "h' = h"
        using assms(3) Some True s by (simp_all add: flushVideo_def)
      have "holds h (xs @ uplink_bufs u')"
        by (rule holds_perm [OF assms(2)]) (simp add: u' uplink_bufs_def Some q' item_buf_def)
      then show ?thesis using q' by (simp add: u' uplink_ok_def)
    next
      case False
      then have "u' = u\<lparr>g_vidDropped := g_vidDropped u + 1\<rparr>" "h' = heap_caps_free a h"
        using assms(3) Some by (auto simp: flushVideo_def freeVideoItem_def split: option.splits if_splits)
      with freed assms(1) uplink_same [of u' u] show ?thesis by simp
    qed
  qed
qed

lemma enqueue_holds:
  assumes "board_ok (v, u, h0)" and "v_isGateway v' = v_isGateway v" "v_outQueue v' = v_outQueue v"
    and "fr_data f = Some a" "fh_data_len (fr_header f) = len"
    and "holds h ((a, len) # relay_bufs v @ uplink_bufs u)"
  shows "board_ok (enqueueOrDrop FQ VQ f (v', u, h))"
proof -
  have v': "relay_ok v'" "relay_bufs v' = relay_bufs v" and u: "uplink_ok u"
    using assms(1-3) relay_same [of v' v] by (auto simp: board_ok_def)
  show ?thesis
  proof (cases "v_isGateway v'")
    case True
    obtain u' h' where fl: "flushVideo VQ (fh_origin_node_id (fr_header f)) (fh_stream_id (fr_header f))
        (fh_seq (fr_header f)) a len (u, h) = (u', h')" by fastforce
    from flushVideo_holds [OF u assms(6) fl] have "uplink_ok u' \<and> holds h' (relay_bufs v @ uplink_bufs u')" .
    moreover have "enqueueOrDrop FQ VQ f (v', u, h) = (v'\<lparr>g_vSunk := g_vSunk v' + 1\<rparr>, u', h')"
      using True assms(4,5) fl by (simp add: enqueueOrDrop_def sinkFrame_def kChainSelfTest_def freeFrame_def)
    ultimately show ?thesis
      using v' relay_same [of "v'\<lparr>g_vSunk := g_vSunk v' + 1\<rparr>" v'] by (simp add: board_ok_def)
  next
    case False
    then obtain q where q: "v_outQueue v' = Some q" "fq.qinv q" "fv q" "\<forall>f \<in> set (fc q). fr_data f \<noteq> None"
        "fcap q = kVideoQueueDepth"
      using v'(1) by (auto simp: relay_ok_def queue_inv_def)
    show ?thesis
    proof (cases "q_send FQ q f")
      case None
      then have "enqueueOrDrop FQ VQ f (v', u, h) = (v'\<lparr>g_vDrop := g_vDrop v' + 1\<rparr>, u, heap_caps_free a h)"
        using False q(1) assms(4) by (simp add: enqueueOrDrop_def freeFrame_def)
      moreover have "holds (heap_caps_free a h) (relay_bufs v @ uplink_bufs u)"
        using assms(6) by (rule holds_free)
      ultimately show ?thesis
        using v' u relay_same [of "v'\<lparr>g_vDrop := g_vDrop v' + 1\<rparr>" v'] by (simp add: board_ok_def)
    next
      case (Some q')
      from fq.send_SomeD [OF q(3) Some] q(5)
      have q': "fq.qinv q'" "fc q' = fc q @ [f]" "fcap q' = kVideoQueueDepth" by auto
      let ?v = "v'\<lparr>v_outQueue := Some q'\<rparr>"
      have "enqueueOrDrop FQ VQ f (v', u, h) = (?v, u, h)"
        using False q(1) Some by (simp add: enqueueOrDrop_def)
      moreover have "holds h (relay_bufs ?v @ uplink_bufs u)"
        by (rule holds_perm [OF assms(6)])
          (use v'(2) q(1) assms(4,5) in \<open>simp add: relay_bufs_def q' frame_buf_def\<close>)
      moreover have "relay_ok ?v" using q q' assms(4) by (simp add: relay_ok_def)
      ultimately show ?thesis using u by (simp add: board_ok_def)
    qed
  qed
qed

lemma board_fresh:
  assumes "board_ok (v, u, h)" and "allocFrameBuffer A n h = (Some a, h1)"
    and "length bs = n" and "unat len = n" and "in_bounds len"
  shows "holds (heap_write a 0 bs h1) ((a, len) # relay_bufs v @ uplink_bufs u)"
proof -
  have "mem h a = None" "heap_write a 0 bs h1 = h\<lparr>mem := (mem h)(a \<mapsto> bs)\<rparr>"
    using alloc_filled [OF assms(2,3)] by auto
  moreover have "holds h (relay_bufs v @ uplink_bufs u)" using assms(1) by (simp add: board_ok_def)
  ultimately show ?thesis using assms(3-5) by (auto intro: holds_fresh)
qed

text \<open>A buffer allocated and given back at once leaves the others as they were.\<close>

lemma board_undo:
  assumes "board_ok (v, u, h)" and "allocFrameBuffer A n h = (Some a, h1)"
  shows "board_ok (v, u, heap_caps_free a h1)"
proof -
  obtain bs where "mem h a = None" "h1 = h\<lparr>mem := (mem h)(a \<mapsto> bs)\<rparr>"
    using alloc_Some [OF assms(2)] by blast
  then have "heap_caps_free a h1 = h" by (simp add: heap_caps_free_def fun_upd_idem)
  with assms(1) show ?thesis by simp
qed

lemma board_counters:
  assumes "board_ok (v, u, h)" and "v_isGateway v' = v_isGateway v" and "v_outQueue v' = v_outQueue v"
  shows "board_ok (v', u, h)"
  using assms relay_same [of v' v] by (simp add: board_ok_def)

lemma server_iter_ok:
  assumes "tcp_stream R inb" and "board_ok (v, u, h)"
  shows "board_ok (fst (snd (server_iter R A FQ VQ ((v, u, h), c))))"
proof (cases "recvAll R sizeof_FrameHeader c")
  case (Pair o1 c1)
  show ?thesis
  proof (cases o1)
    case None
    with Pair assms(2) show ?thesis by (simp add: server_iter_def)
  next
    case (Some hb)
    let ?hdr = "dec_frame_header hb"
    let ?n = "unat (fh_data_len ?hdr)"
    show ?thesis
    proof (cases "fh_data_len ?hdr = 0 \<or> kVideoMaxFrameBytes < ?n")
      case True
      with Pair Some assms(2) show ?thesis by (simp add: server_iter_def Let_def)
    next
      case False
      then have b: "in_bounds (fh_data_len ?hdr)"
        by (auto simp: in_bounds_def unat_gt_0 Suc_le_eq)
      obtain p h1 where al: "allocFrameBuffer A ?n h = (p, h1)" by fastforce
      show ?thesis
      proof (cases p)
        case None
        with al alloc_None have "h1 = h" by blast
        with False None Pair Some al assms(2) show ?thesis
          by (simp add: server_iter_def Let_def board_counters)
      next
        case a: (Some a)
        obtain o2 c2 where r2: "recvAll R ?n c1 = (o2, c2)" by fastforce
        show ?thesis
        proof (cases o2)
          case None
          with False a Pair Some al r2 board_undo [OF assms(2)] show ?thesis
            by (simp add: server_iter_def Let_def)
        next
          case bs: (Some bs)
          have "length bs = ?n"
            using tcp_stream.recvAll_Some [OF assms(1)] r2 bs by blast
          from board_fresh [OF assms(2) al [unfolded a] this refl b] False a bs Pair Some al r2 assms(2)
          show ?thesis
            by (auto simp: server_iter_def Let_def intro!: enqueue_holds)
        qed
      qed
    qed
  qed
qed

lemma server_conn_ok:
  assumes "tcp_stream R inb"
  shows "board_ok w \<Longrightarrow> board_ok (fst (snd (server_conn n R A FQ VQ (w, c))))"
proof (induction n arbitrary: w c)
  case (Suc n)
  obtain v u h where w: "w = (v, u, h)" by (cases w)
  obtain ok w1 c1 where "server_iter R A FQ VQ (w, c) = (ok, w1, c1)" by (metis prod_cases3)
  with Suc server_iter_ok [OF assms, of v u h c] show ?case by (cases ok) (auto simp: w)
qed simp

lemma server_session_ok:
  assumes "tcp_stream R inb" and "board_ok w"
  shows "board_ok (snd (server_session n R A FQ VQ (w, c)))"
proof -
  obtain v u h where w: "w = (v, u, h)" by (cases w)
  let ?w = "(v\<lparr>g_serverUp := True\<rparr>, u, h)"
  have "board_ok ?w" using assms(2) board_counters [of v u h] by (simp add: w)
  from server_conn_ok [OF assms(1) this, of n c]
  have ok: "board_ok (fst (snd (server_conn n R A FQ VQ (?w, c))))" .
  obtain b v1 u1 h1 c1 where "server_conn n R A FQ VQ (?w, c) = (b, (v1, u1, h1), c1)" by (metis prod.exhaust)
  with ok board_counters [of v1 u1 h1] show ?thesis
    by (cases b) (simp_all add: w server_session_def)
qed

text \<open>The whole server task, whatever connections come.\<close>

lemma server_task_ok:
  assumes "tcp_stream R inb" and "board_ok w"
  shows "board_ok (serverTask e R A FQ VQ cs w)"
proof -
  have "board_ok (server_accepts R A FQ VQ cs w)"
    using assms(2)
  proof (induction cs arbitrary: w)
    case (Cons a cs)
    show ?case
    proof (cases a)
      case (Some nc)
      obtain b w1 where s: "server_session (fst nc) R A FQ VQ (w, snd nc) = (b, w1)"
        by (metis surj_pair)
      with server_session_ok [OF assms(1) Cons.prems, of "fst nc" "snd nc"] have "board_ok w1" by simp
      with Cons.IH [of w1] s Some show ?thesis by (cases nc; cases b) auto
    qed (use Cons in simp)
  qed simp
  then show ?thesis using assms(2) by (simp add: serverTask_def)
qed

lemma client_iter_ok:
  assumes "board_ok (v, u, h)" and "client_iter W FQ ((v, h), c) = (ok, (v', h'), c')"
  shows "board_ok (v', u, h')"
proof (cases "v_outQueue v")
  case None
  with assms show ?thesis by (simp add: client_iter_def)
next
  case (Some q)
  then have q: "fq.qinv q" "\<forall>f \<in> set (fc q). fr_data f \<noteq> None" "fcap q = kVideoQueueDepth"
    using assms(1) by (auto simp: board_ok_def relay_ok_def)
  show ?thesis
  proof (cases "q_receive FQ q")
    case None
    with Some assms show ?thesis by (auto simp: client_iter_def split: prod.splits)
  next
    case r: (Some r)
    then obtain f q' where fr: "q_receive FQ q = Some (f, q')" by (cases r) auto
    from fq.receive_SomeD [OF q(1) this] q(3)
    have q': "fq.qinv q'" "fc q = f # fc q'" "fcap q' = kVideoQueueDepth" by auto
    then obtain a where a: "fr_data f = Some a" using q(2) by auto
    have v': "v_outQueue v' = Some q'" "v_isGateway v' = v_isGateway v" "h' = heap_caps_free a h"
      using assms(2) Some fr a
      by (auto simp: client_iter_def freeFrame_def Let_def split: prod.splits if_splits)
    have "holds h ((a, fh_data_len (fr_header f)) # map frame_buf (fc q') @ uplink_bufs u)"
      using assms(1) Some q' a by (simp add: board_ok_def relay_bufs_def frame_buf_def)
    then have "holds h' (map frame_buf (fc q') @ uplink_bufs u)"
      unfolding v' by (rule holds_free)
    then show ?thesis
      using assms(1) v' q q' by (simp add: board_ok_def relay_ok_def relay_bufs_def)
  qed
qed

lemma luckfox_ok:
  assumes "board_ok (v, u, h0)" and "v_isGateway v' = v_isGateway v" "v_outQueue v' = v_outQueue v"
    and "holds h ((a, len) # relay_bufs v @ uplink_bufs u)"
  shows "board_ok (onLuckfoxFrame FQ VQ sid sq a len (v', u, h))"
  unfolding onLuckfoxFrame_def using assms by (auto intro: enqueue_holds [OF assms(1)])

lemma selfTest_ok:
  assumes "board_ok (v, u, h)"
  shows "board_ok (snd (selfTestProducer A FQ VQ (s, (v, u, h))))"
proof -
  obtain seqs stream where s: "s = (seqs, stream)" by (cases s)
  obtain p h1 where al: "allocFrameBuffer A kSelfTestFrameBytes h = (p, h1)" by fastforce
  show ?thesis
  proof (cases p)
    case None
    with al alloc_None have "h1 = h" by blast
    with None al assms s show ?thesis by (simp add: selfTestProducer_def board_counters)
  next
    case (Some a)
    have n: "unat (of_nat kSelfTestFrameBytes :: u32) = kSelfTestFrameBytes"
      "in_bounds (of_nat kSelfTestFrameBytes)"
      using bounds_of_nat [of kSelfTestFrameBytes] by (simp_all add: config_defs)
    from board_fresh [OF assms al [unfolded Some] _ n,
        of "map (selfTestByte (v_nodeId v) stream (seqs ! unat stream)) [0..<kSelfTestFrameBytes]"]
      Some al s assms show ?thesis
      by (auto simp: selfTestProducer_def Let_def intro: luckfox_ok [OF assms])
  qed
qed

text \<open>The uplink's own steps, with the relay's frames beside its own.\<close>

lemma video_step_holds:
  assumes "board_ok (v, u, h)" and "fst (video_step VQ tx (u, h)) = (u', h')"
  shows "board_ok (v, u', h')"
proof (cases "g_videoQueue u")
  case None
  with assms show ?thesis by (simp add: video_step_def)
next
  case (Some q)
  then have q: "vq.qinv q" "vcap q = kVideoUplinkQueueDepth" using assms(1) by (auto simp: board_ok_def uplink_ok_def)
  show ?thesis
  proof (cases "q_receive VQ q")
    case None
    with Some assms show ?thesis by (simp add: video_step_def)
  next
    case (Some r)
    then obtain it q' where r: "q_receive VQ q = Some (it, q')" by (cases r) auto
    from vq.receive_SomeD [OF q(1) this] q(2)
    have q': "vq.qinv q'" "vc q = it # vc q'" "vcap q' = kVideoUplinkQueueDepth" by auto
    have u': "g_videoQueue u' = Some q'" "h' = heap_caps_free (vi_data it) h"
      using assms(2) \<open>g_videoQueue u = Some q\<close> r
      by (auto simp: video_step_def freeVideoItem_def Let_def split: prod.splits if_splits)
    have "mset ((vi_data it, vi_data_len it) # relay_bufs v @ map item_buf (vc q')) =
        mset (relay_bufs v @ uplink_bufs u)"
      using \<open>g_videoQueue u = Some q\<close> q' by (simp add: uplink_bufs_def item_buf_def)
    moreover have "holds h (relay_bufs v @ uplink_bufs u)" using assms(1) by (simp add: board_ok_def)
    ultimately have "holds h ((vi_data it, vi_data_len it) # relay_bufs v @ map item_buf (vc q'))"
      by (metis holds_perm)
    then have "holds h' (relay_bufs v @ map item_buf (vc q'))"
      unfolding u' by (rule holds_free)
    then show ?thesis
      using assms(1) u' q' by (simp add: board_ok_def uplink_ok_def uplink_bufs_def)
  qed
qed

lemma uplink_event_ok:
  assumes "board_ok (v, u, h)" and "uplink_exec SQ VQ ev (u, h) = (u', h')"
    and "\<And>nid st sq a data. ev \<noteq> EvVideo nid st sq a data"
  shows "board_ok (v, u', h')"
proof (cases "\<exists>tx. ev = EvVideoTask tx")
  case True
  with assms(1,2) show ?thesis by (auto intro: video_step_holds)
next
  case False
  then show ?thesis
    using assms uplink_event_same [OF assms(2)] uplink_same [of u' u] by (simp add: board_ok_def)
qed

lemma relay_exec_ok:
  assumes "tcp_stream R inb" and "board_ok w"
  shows "board_ok (relay_exec R A FQ SQ VQ ev w)"
proof -
  obtain v u h where w: "w = (v, u, h)" by (cases w)
  note ok = assms(2) [unfolded w]
  show ?thesis
  proof (cases ev)
    case (EvServer c)
    with server_iter_ok [OF assms(1) ok] show ?thesis by (simp add: w)
  next
    case (EvClient W c)
    obtain b v' h' c' where "client_iter W FQ ((v, h), c) = (b, (v', h'), c')" by (metis prod_cases3 surj_pair)
    with client_iter_ok [OF ok] EvClient show ?thesis by (simp add: w)
  next
    case (EvLuckfox sid sq data)
    show ?thesis
    proof (cases "data = [] \<or> kVideoMaxFrameBytes < length data")
      case True
      with EvLuckfox ok show ?thesis by (simp add: w)
    next
      case False
      then have n: "unat (of_nat (length data) :: u32) = length data" "in_bounds (of_nat (length data))"
        using bounds_of_nat [of "length data"] by (auto simp: Suc_le_eq)
      obtain p h1 where al: "allocFrameBuffer A (length data) h = (p, h1)" by fastforce
      show ?thesis
      proof (cases p)
        case None
        with al alloc_None have "h1 = h" by blast
        with None al ok False EvLuckfox show ?thesis by (simp add: w)
      next
        case (Some a)
        from board_fresh [OF ok al [unfolded Some] refl n] Some al False EvLuckfox show ?thesis
          by (simp add: w luckfox_ok [OF ok])
      qed
    qed
  next
    case (EvSelfTest seqs stream)
    with selfTest_ok [OF ok] show ?thesis by (simp add: w)
  next
    case (EvUplink e)
    obtain u' h' where "uplink_exec SQ VQ e (u, h) = (u', h')" by fastforce
    with uplink_event_ok [OF ok this] ok EvUplink show ?thesis
      by (cases "\<exists>nid st sq a data. e = EvVideo nid st sq a data") (auto simp: w split: uplink_event.splits)
  qed (use ok in \<open>simp_all add: w board_counters client_connected_def client_lost_def\<close>)
qed

end

interpretation lvb: video_board list_queue "\<lambda>_. True" fst snd list_queue "\<lambda>_. True" fst snd "pool_alloc k" for k
  by unfold_locales

end
