(* ===== verification/VideoLink.thy ===== *)
theory VideoLink
  imports VideoInv "HOL-Library.Sublist"
begin

text \<open>
  One TCP connection of the video relay from both of its ends: what the client writes in any
  number of passes, as a sequence of frames and heartbeats (\<open>item\<close>), and what the server makes
  of such a sequence (\<open>take_item\<close>, one item at a time).
\<close>

section \<open>A connection that delivers\<close>

text \<open>In a \<open>good\<close> state a \<open>recv\<close> returns some of the bytes that are there (no timeout).\<close>

locale tcp_live = tcp_stream R inb for R :: "'c receiver" and inb :: "'c \<Rightarrow> bytes" +
  fixes good :: "'c \<Rightarrow> bool"
  assumes delivers: "good c \<Longrightarrow> inb c \<noteq> [] \<Longrightarrow> 0 < n \<Longrightarrow>
    \<exists>bs c'. R n c = (Some bs, c') \<and> bs \<noteq> [] \<and> good c'"
begin

lemma recvAll_live:
  "good c \<Longrightarrow> len \<le> length (inb c) \<Longrightarrow>
     \<exists>c'. recvAll R len c = (Some (take len (inb c)), c') \<and> inb c' = drop len (inb c) \<and> good c'"
proof (induction len arbitrary: c rule: less_induct)
  case (less len)
  show ?case
  proof (cases "len = 0")
    case True
    with less.prems show ?thesis by (simp add: recvAll.simps)
  next
    case False
    then obtain bs c1 where r: "R len c = (Some bs, c1)" "bs \<noteq> []" "good c1"
      using delivers [of c len] less.prems by fastforce
    have s: "length bs \<le> len" "inb c = bs @ inb c1" using recv_some [OF r(1)] by auto
    have "len - length bs < len" "len - length bs \<le> length (inb c1)"
      using r s less.prems False by auto
    from less.IH [OF this(1) r(3) this(2)]
    obtain c' where "recvAll R (len - length bs) c1 = (Some (take (len - length bs) (inb c1)), c')"
        "inb c' = drop (len - length bs) (inb c1)" "good c'"
      by blast
    then show ?thesis
      using r s False by (subst recvAll.simps) simp
  qed
qed

lemma drain_live:
  "good c \<Longrightarrow> n \<le> length (inb c) \<Longrightarrow> inb (drain_payload R n c) = drop n (inb c) \<and> good (drain_payload R n c)"
proof (induction n arbitrary: c rule: less_induct)
  case (less n)
  show ?case
  proof (cases "n = 0")
    case True
    with less.prems show ?thesis by (simp add: drain_payload.simps)
  next
    case False
    let ?k = "if n < 256 then n else 256"
    have k: "0 < ?k" "?k \<le> n" using False by auto
    obtain c1 where c1: "recvAll R ?k c = (Some (take ?k (inb c)), c1)" "inb c1 = drop ?k (inb c)" "good c1"
      using recvAll_live [of c ?k] less.prems k by fastforce
    have "inb (drain_payload R (n - ?k) c1) = drop (n - ?k) (inb c1) \<and> good (drain_payload R (n - ?k) c1)"
      using k c1 less.prems by (intro less.IH) auto
    moreover have "drain_payload R n c = drain_payload R (n - ?k) c1"
      using False c1(1) by (subst drain_payload.simps) (simp add: Let_def)
    ultimately show ?thesis using c1(2) k by simp
  qed
qed

end

text \<open>The segments of Sockets, none of them empty: a connection without timeouts.\<close>

interpretation segl: tcp_live seg_recv concat "\<lambda>ss. [] \<notin> set ss"
proof unfold_locales
  fix c :: segments and n :: nat
  assume "[] \<notin> set c" "concat c \<noteq> []" "0 < n"
  then obtain b bs ss where "c = (b # bs) # ss" by (cases c; cases "hd c") auto
  with \<open>[] \<notin> set c\<close> \<open>0 < n\<close> show "\<exists>bs c'. seg_recv n c = (Some bs, c') \<and> bs \<noteq> [] \<and> [] \<notin> set c'"
    by (auto simp: drop_eq_Nil)
qed

section \<open>Queued frames\<close>

definition out_frames :: "('q \<Rightarrow> Frame list) \<Rightarrow> 'q relay \<Rightarrow> Frame list" where
  "out_frames fc v = (case v_outQueue v of None \<Rightarrow> [] | Some q \<Rightarrow> fc q)"

definition up_items :: "('q \<Rightarrow> VideoItem list) \<Rightarrow> ('s, 'q) uplink \<Rightarrow> VideoItem list" where
  "up_items vc u = (case g_videoQueue u of None \<Rightarrow> [] | Some q \<Rightarrow> vc q)"

section \<open>The server and the byte stream\<close>

datatype item = Beat | Fr FrameHeader bytes

fun wire :: "item \<Rightarrow> bytes" where
  "wire Beat = enc_frame_header heartbeat_header"
| "wire (Fr hdr payload) = enc_frame_header hdr @ payload"

fun item_ok :: "item \<Rightarrow> bool" where
  "item_ok Beat \<longleftrightarrow> True"
| "item_ok (Fr hdr payload) \<longleftrightarrow> in_bounds (fh_data_len hdr) \<and> length payload = unat (fh_data_len hdr)"

text \<open>What the server makes of one item.\<close>

definition take_item ::
  "alloc \<Rightarrow> (Frame, 'fq) queue_ops \<Rightarrow> (VideoItem, 'vq) queue_ops \<Rightarrow> item \<Rightarrow>
     ('fq, 'sq, 'vq) world \<Rightarrow> ('fq, 'sq, 'vq) world" where
  "take_item A FQ VQ it = (\<lambda>(v, u, h).
     (case it of
        Beat \<Rightarrow> (v, u, h)
      | Fr hdr payload \<Rightarrow>
          (case allocFrameBuffer A (length payload) h of
             (None, h1) \<Rightarrow> (v\<lparr>g_vDrop := g_vDrop v + 1\<rparr>, u, h1)
           | (Some a, h1) \<Rightarrow>
               enqueueOrDrop FQ VQ \<lparr>fr_header = hdr, fr_data = Some a\<rparr>
                 (v\<lparr>g_vIn := g_vIn v + 1\<rparr>, u, heap_write a 0 payload h1))))"

lemma server_iter_item:
  assumes "tcp_live R inb good" and "item_ok it" and "good c" and "inb c = wire it @ rest"
  shows "\<exists>c'. server_iter R A FQ VQ (w, c) = (True, take_item A FQ VQ it w, c') \<and> inb c' = rest \<and> good c'"
proof -
  obtain v u h where w: "w = (v, u, h)" by (cases w)
  show ?thesis
  proof (cases it)
    case Beat
    then obtain c1 where c1: "recvAll R 8 c = (Some (enc_frame_header heartbeat_header), c1)" "inb c1 = rest" "good c1"
      using tcp_live.recvAll_live [OF assms(1,3), of 8] assms(4) by auto
    have hb: "fh_stream_id heartbeat_header = kVideoHeartbeatStream \<and> fh_data_len heartbeat_header = 0"
      by (simp add: heartbeat_header_def)
    show ?thesis
      unfolding w server_iter_def take_item_def using c1 hb Beat by (simp add: sizeof_FrameHeader_def Let_def)
  next
    case (Fr hdr payload)
    let ?n = "unat (fh_data_len hdr)"
    have n: "in_bounds (fh_data_len hdr)" "length payload = ?n" using assms(2) Fr by auto
    then have len: "fh_data_len hdr \<noteq> 0" "\<not> kVideoMaxFrameBytes < ?n" by (auto simp: in_bounds_def)
    obtain c1 where c1: "recvAll R 8 c = (Some (enc_frame_header hdr), c1)" "inb c1 = payload @ rest" "good c1"
      using tcp_live.recvAll_live [OF assms(1,3), of 8] assms(4) Fr by auto
    obtain p h1 where al: "allocFrameBuffer A ?n h = (p, h1)" by fastforce
    show ?thesis
    proof (cases p)
      case None
      have "inb (drain_payload R ?n c1) = rest \<and> good (drain_payload R ?n c1)"
        using tcp_live.drain_live [OF assms(1) c1(3), of ?n] c1(2) n(2) by simp
      then show ?thesis
        unfolding w server_iter_def take_item_def using c1(1) len al None Fr n(2)
          by (simp add: sizeof_FrameHeader_def Let_def)
    next
      case (Some a)
      obtain c2 where c2: "recvAll R ?n c1 = (Some payload, c2)" "inb c2 = rest" "good c2"
        using tcp_live.recvAll_live [OF assms(1) c1(3), of ?n] c1(2) n(2) by auto
      then show ?thesis
        unfolding w server_iter_def take_item_def using c1(1) len al Some Fr n(2)
        by (simp add: sizeof_FrameHeader_def Let_def del: split_paired_Ex)
    qed
  qed
qed

lemma server_conn_items:
  assumes "tcp_live R inb good"
  shows "list_all item_ok items \<Longrightarrow> good c \<Longrightarrow> inb c = concat (map wire items) @ rest \<Longrightarrow>
    \<exists>c'. server_conn (length items) R A FQ VQ (w, c) = (True, fold (take_item A FQ VQ) items w, c') \<and>
      inb c' = rest \<and> good c'"
proof (induction items arbitrary: w c)
  case (Cons it items)
  obtain c1 where 1: "server_iter R A FQ VQ (w, c) = (True, take_item A FQ VQ it w, c1)"
      "inb c1 = concat (map wire items) @ rest" "good c1"
    using server_iter_item [OF assms, of it c _ A FQ VQ w] Cons.prems by auto
  with Cons.IH [of c1 "take_item A FQ VQ it w"] Cons.prems show ?case by simp
qed simp

section \<open>The client and the byte stream\<close>

text \<open>Queued frames whose buffers are theirs, and the items of the next \<open>n\<close> passes.\<close>

definition sendable :: "heap \<Rightarrow> Frame list \<Rightarrow> bool" where
  "sendable h fs \<longleftrightarrow> distinct (map (the \<circ> fr_data) fs) \<and>
     (\<forall>f \<in> set fs. fr_data f \<noteq> None \<and> sized h (frame_buf f))"

definition frame_item :: "heap \<Rightarrow> Frame \<Rightarrow> item" where
  "frame_item h f = Fr (fr_header f) (heap_read (the (fr_data f)) h)"

definition next_items :: "nat \<Rightarrow> heap \<Rightarrow> Frame list \<Rightarrow> item list" where
  "next_items n h fs = take n (map (frame_item h) fs) @ replicate (n - length fs) Beat"

lemma length_next_items [simp]: "length (next_items n h fs) = n"
  by (simp add: next_items_def)

lemma sendable_Cons:
  assumes "sendable h (f # fs)"
  shows "\<exists>a data. fr_data f = Some a \<and> heap_read a h = data \<and> length data = unat (fh_data_len (fr_header f)) \<and>
      in_bounds (fh_data_len (fr_header f))"
    and "sendable (freeFrame f h) fs" and "map (frame_item (freeFrame f h)) fs = map (frame_item h) fs"
proof -
  obtain a where a: "fr_data f = Some a" "sized h (a, fh_data_len (fr_header f))"
    using assms by (auto simp: sendable_def frame_buf_def)
  then show "\<exists>a data. fr_data f = Some a \<and> heap_read a h = data \<and> length data = unat (fh_data_len (fr_header f)) \<and>
      in_bounds (fh_data_len (fr_header f))"
    by (auto simp: sized_def heap_read_def)
  have other: "the (fr_data g) \<noteq> a" if "g \<in> set fs" for g
    using assms a(1) that by (force simp: sendable_def)
  then show "sendable (freeFrame f h) fs"
    using assms a(1) by (auto simp: sendable_def freeFrame_def heap_caps_free_def sized_def frame_buf_def)
  from other show "map (frame_item (freeFrame f h)) fs = map (frame_item h) fs"
    using a(1) by (auto simp: frame_item_def heap_read_def freeFrame_def heap_caps_free_def)
qed

lemma next_items_simps:
  "next_items 0 h fs = []"
  "next_items (Suc n) h [] = Beat # next_items n h []"
  "sendable h (f # fs) \<Longrightarrow> next_items (Suc n) h (f # fs) = frame_item h f # next_items n (freeFrame f h) fs"
  by (simp_all add: next_items_def sendable_Cons(3))

lemma next_items_ok: "sendable h fs \<Longrightarrow> list_all item_ok (next_items n h fs)"
proof -
  assume "sendable h fs"
  then have "\<forall>f \<in> set fs. item_ok (frame_item h f)"
    by (auto simp: sendable_def frame_item_def sized_def frame_buf_def heap_read_def)
  then show ?thesis
    by (auto simp: next_items_def list_all_iff dest!: in_set_takeD)
qed

context tcp_sink
begin

lemma sendAll_cases:
  "sendAll W bs c = (ok, c') \<Longrightarrow> \<exists>tail. outb c' = outb c @ tail \<and> (if ok then tail = bs else strict_prefix tail bs)"
proof (cases ok)
  case False
  moreover assume "sendAll W bs c = (ok, c')"
  ultimately obtain k where "k < length bs" "outb c' = outb c @ take k bs"
    using sendAll_False [of bs c c'] by auto
  then show ?thesis
    using False by (intro exI [of _ "take k bs"]) (auto simp: strict_prefix_def take_is_prefix)
qed (use sendAll_True [of bs c c'] in auto)

end

text \<open>One pass writes the next item, or a proper part of it.\<close>

lemma client_pass:
  assumes Q: "rtos_queue FQ fv fc fcap" and S: "tcp_sink W outb"
    and q: "v_outQueue v = Some q" "queue_inv fv fc fcap q" and own: "sendable h (fc q)"
    and pass: "client_iter W FQ ((v, h), c) = (ok, (v', h'), c')"
  shows "\<exists>tail q'. outb c' = outb c @ tail \<and>
    (let it = hd (next_items 1 h (fc q)) in if ok then tail = wire it else strict_prefix tail (wire it)) \<and>
    v_outQueue v' = Some q' \<and> queue_inv fv fc fcap q' \<and> fc q' = drop 1 (fc q) \<and>
    h' = fold freeFrame (take 1 (fc q)) h \<and>
    g_vOut v' = g_vOut v + (if ok \<and> fc q \<noteq> [] then 1 else 0) \<and>
    g_vDrop v' = g_vDrop v + (if \<not> ok \<and> fc q \<noteq> [] then 1 else 0)"
proof (cases "fc q")
  case Nil
  then have none: "q_receive FQ q = None"
    using rtos_queue.receive_None_iff [OF Q, of q] q(2) by (simp add: queue_inv_def)
  then have "sendAll W (enc_frame_header heartbeat_header) c = (ok, c')" "v' = v" "h' = h"
    using pass q(1) by (auto simp: client_iter_def split: prod.splits)
  with tcp_sink.sendAll_cases [OF S this(1)] Nil q show ?thesis
    by (auto simp: next_items_def)
next
  case (Cons f fs)
  obtain q' where rcv: "q_receive FQ q = Some (f, q')" "queue_inv fv fc fcap q'" "fc q' = fs"
    using rtos_queue.receive_Some_iff [OF Q q(2) Cons] by blast
  obtain a data where f: "fr_data f = Some a" "heap_read a h = data" "length data = unat (fh_data_len (fr_header f))"
    using sendable_Cons(1) own Cons by fastforce
  let ?hb = "enc_frame_header (fr_header f)"
  obtain ok1 c1 where s1: "sendAll W ?hb c = (ok1, c1)" by fastforce
  obtain ok2 c2 where s2: "sendAll W data c1 = (ok2, c2)" by fastforce
  have res: "h' = freeFrame f h" "v_outQueue v' = Some q'" "ok = (ok1 \<and> ok2)"
      "c' = (if ok1 then c2 else c1)"
      "g_vOut v' = g_vOut v + (if ok then 1 else 0) \<and> g_vDrop v' = g_vDrop v + (if ok then 0 else 1)"
    using pass q(1) rcv(1) f s1 s2
    by (cases ok1; cases ok2; auto simp: client_iter_def Let_def)+
  obtain t1 where t1: "outb c1 = outb c @ t1" "if ok1 then t1 = ?hb else strict_prefix t1 ?hb"
    using tcp_sink.sendAll_cases [OF S s1] by blast
  obtain t2 where t2: "outb c2 = outb c1 @ t2" "if ok2 then t2 = data else strict_prefix t2 data"
    using tcp_sink.sendAll_cases [OF S s2] by blast
  have "outb c' = outb c @ (if ok1 then t1 @ t2 else t1)"
    using res(4) t1(1) t2(1) by simp
  moreover have "if ok then (if ok1 then t1 @ t2 else t1) = ?hb @ data
      else strict_prefix (if ok1 then t1 @ t2 else t1) (?hb @ data)"
    using res(3) t1(2) t2(2) by (cases ok1; cases ok2) (auto simp: strict_prefix_def)
  moreover have "wire (hd (next_items 1 h (fc q))) = ?hb @ data"
    using Cons f by (simp add: next_items_def frame_item_def)
  ultimately show ?thesis
    using res rcv Cons by auto
qed

text \<open>A connection of up to \<open>n\<close> passes.\<close>

lemma client_conn_writes:
  assumes "rtos_queue FQ fv fc fcap" and "tcp_sink W outb"
  shows "v_outQueue v = Some q \<Longrightarrow> queue_inv fv fc fcap q \<Longrightarrow> sendable h (fc q) \<Longrightarrow>
    client_conn n W FQ ((v, h), c) = (ok, (v', h'), c') \<Longrightarrow>
    \<exists>k tail. outb c' = outb c @ concat (map wire (take k (next_items n h (fc q)))) @ tail \<and>
      (if ok then k = n \<and> tail = [] else k < n \<and> strict_prefix tail (wire (next_items n h (fc q) ! k))) \<and>
      out_frames fc v' = drop (if ok then n else Suc k) (fc q) \<and>
      h' = fold freeFrame (take (if ok then n else Suc k) (fc q)) h \<and>
      g_vOut v' = g_vOut v + of_nat (min k (length (fc q))) \<and>
      g_vDrop v' = g_vDrop v + (if \<not> ok \<and> k < length (fc q) then 1 else 0)"
proof (induction n arbitrary: v q h c)
  case 0
  then show ?case by (intro exI [of _ 0] exI [of _ "[]"]) (auto simp: next_items_def out_frames_def)
next
  case (Suc n)
  let ?fs = "fc q"
  obtain ok1 v1 h1 c1 where pass: "client_iter W FQ ((v, h), c) = (ok1, (v1, h1), c1)"
    by (metis prod.exhaust)
  obtain t1 q1 where p: "outb c1 = outb c @ t1"
      "let it = hd (next_items 1 h ?fs) in if ok1 then t1 = wire it else strict_prefix t1 (wire it)"
      "v_outQueue v1 = Some q1" "queue_inv fv fc fcap q1" "fc q1 = drop 1 ?fs" "h1 = fold freeFrame (take 1 ?fs) h"
      "g_vOut v1 = g_vOut v + (if ok1 \<and> ?fs \<noteq> [] then 1 else 0)"
      "g_vDrop v1 = g_vDrop v + (if \<not> ok1 \<and> ?fs \<noteq> [] then 1 else 0)"
    using client_pass [OF assms Suc.prems(1-3) pass] by blast
  let ?it = "hd (next_items 1 h ?fs)"
  have items: "next_items (Suc n) h ?fs = ?it # next_items n h1 (fc q1)"
    using Suc.prems(3) p(5,6) by (cases ?fs) (simp_all add: next_items_simps One_nat_def)
  show ?case
  proof (cases ok1)
    case False
    then have "ok = False" "v' = v1" "h' = h1" "c' = c1" using Suc.prems(4) pass by simp_all
    with False p items show ?thesis
      by (intro exI [of _ 0] exI [of _ t1]) (auto simp: out_frames_def Let_def)
  next
    case True
    then have conn: "client_conn n W FQ ((v1, h1), c1) = (ok, (v', h'), c')" using Suc.prems(4) pass by simp
    have own: "sendable h1 (fc q1)"
      using Suc.prems(3) p(5,6) sendable_Cons(2) by (cases ?fs) (auto simp: sendable_def)
    obtain k tail where IH: "outb c' = outb c1 @ concat (map wire (take k (next_items n h1 (fc q1)))) @ tail"
        "if ok then k = n \<and> tail = [] else k < n \<and> strict_prefix tail (wire (next_items n h1 (fc q1) ! k))"
        "out_frames fc v' = drop (if ok then n else Suc k) (fc q1)"
        "h' = fold freeFrame (take (if ok then n else Suc k) (fc q1)) h1"
        "g_vOut v' = g_vOut v1 + of_nat (min k (length (fc q1)))"
        "g_vDrop v' = g_vDrop v1 + (if \<not> ok \<and> k < length (fc q1) then 1 else 0)"
      using Suc.IH [OF p(3,4) own conn] by blast
    have "h' = fold freeFrame (take (if ok then Suc n else Suc (Suc k)) ?fs) h"
      using IH(4) p(5,6) by (cases ?fs) auto
    moreover have "out_frames fc v' = drop (if ok then Suc n else Suc (Suc k)) ?fs"
      using IH(3) p(5) by (cases ?fs) auto
    moreover have "g_vOut v' = g_vOut v + of_nat (min (Suc k) (length ?fs))"
        "g_vDrop v' = g_vDrop v + (if \<not> ok \<and> Suc k < length ?fs then 1 else 0)"
      using IH(5,6) p(5,7,8) True by (cases ?fs; auto)+
    moreover have "outb c' = outb c @ concat (map wire (take (Suc k) (next_items (Suc n) h ?fs))) @ tail"
      using IH(1) p(1,2) True items by (simp add: Let_def)
    ultimately show ?thesis
      using IH(2) items by (intro exI [of _ "Suc k"] exI [of _ tail]) (auto split: if_splits)
  qed
qed

text \<open>A pass keeps what belongs to the connection as a whole.\<close>

lemma client_conn_up:
  "client_conn n W FQ ((v, h), c) = (ok, (v', h'), c') \<Longrightarrow> g_clientUp v' = g_clientUp v"
proof (induction n arbitrary: v h c)
  case (Suc n)
  obtain ok1 v1 h1 c1 where pass: "client_iter W FQ ((v, h), c) = (ok1, (v1, h1), c1)"
    by (metis prod.exhaust)
  then have "g_clientUp v1 = g_clientUp v"
    by (auto simp: client_iter_def Let_def split: option.splits prod.splits if_splits)
  with Suc pass show ?case by (cases ok1) auto
qed simp

end
