(* ===== verification/VideoProps.thy ===== *)
theory VideoProps
  imports VideoLink
begin

text \<open>
  The properties of the video relay: a frame crosses a hop unchanged, and so does a whole
  connection's worth of them; the client counts and frees what it takes; the server stays in
  step with the byte stream whatever it has to drop, except when the drain of a dropped frame
  fails; the chain of access points is unambiguous; the self-test. Memory safety is in the
  root theory, for the whole board.
\<close>

section \<open>One hop\<close>

text \<open>C12: A frame a relay has sent in full to \<open>next\<close> is taken there, when a buffer and room in the
  queue are found, as the same header with the same bytes, and the stream is left right
  after it.\<close>

theorem frame_crosses_hop:
  assumes "rtos_queue FQ fv fc fcap" and "allocator A" and "tcp_sink W outb" and "tcp_live R inb good"
    \<comment> \<open>the sender, with the frame first in its queue\<close>
    and "v_outQueue v = Some q" and "queue_inv fv fc fcap q" and "fc q = f # fs"
    and "fr_data f = Some a" and "mem h a = Some data" and "length data = unat (fh_data_len (fr_header f))"
    and "in_bounds (fh_data_len (fr_header f))"
    and "client_iter W FQ ((v, h), c) = (True, (v', h'), c')"
    \<comment> \<open>the receiver, with what the sender has added to the stream first in it\<close>
    and "good d" and "inb d = drop (length (outb c)) (outb c') @ rest"
    and "\<not> v_isGateway w" and "v_outQueue w = Some r" and "queue_inv fv fc fcap r"
    and "length (fc r) < fcap r" and "allocFrameBuffer A (length data) g = (Some b, g1)"
  shows "\<exists>d' r' g'. server_iter R A FQ VQ ((w, u, g), d) =
      (True, (w\<lparr>g_vIn := g_vIn w + 1, v_outQueue := Some r'\<rparr>, u, g'), d') \<and>
    inb d' = rest \<and> heap_read b g' = data \<and>
    fc r' = fc r @ [\<lparr>fr_header = fr_header f, fr_data = Some b\<rparr>]"
proof -
  let ?hdr = "fr_header f"
  let ?n = "unat (fh_data_len ?hdr)"
  obtain q' where rcv: "q_receive FQ q = Some (f, q')"
    using rtos_queue.receive_Some_iff [OF assms(1,6,7)] by blast
  obtain ok1 c1 where s1: "sendAll W (enc_frame_header ?hdr) c = (ok1, c1)" by fastforce
  obtain ok2 c2 where s2: "sendAll W data c1 = (ok2, c2)" by fastforce
  have ok: "ok1" "ok2" "c' = c2"
    using assms(5,8,9,10,12) rcv s1 s2
    by (cases ok1; auto simp: client_iter_def heap_read_def Let_def split: prod.splits)+
  have "outb c' = outb c @ enc_frame_header ?hdr @ data"
    using tcp_sink.sendAll_True [OF assms(3), of "enc_frame_header ?hdr" c c1]
      tcp_sink.sendAll_True [OF assms(3), of data c1 c2] s1 s2 ok by simp
  then have d: "inb d = enc_frame_header ?hdr @ data @ rest" using assms(14) by simp
  obtain d1 where d1: "recvAll R 8 d = (Some (enc_frame_header ?hdr), d1)" "inb d1 = data @ rest" "good d1"
    using tcp_live.recvAll_live [OF assms(4,13), of 8] d by auto
  obtain d2 where d2: "recvAll R ?n d1 = (Some data, d2)" "inb d2 = rest"
    using tcp_live.recvAll_live [OF assms(4) d1(3), of ?n] d1(2) assms(10) by auto
  have alloc: "allocFrameBuffer A ?n g = (Some b, g1)" using assms(10,19) by simp
  from allocator.alloc_filled [OF assms(2) this assms(10)]
  have fill: "heap_write b 0 data g1 = g\<lparr>mem := (mem g)(b \<mapsto> data)\<rparr>" by simp
  have valid: "fv r" using assms(17) by (simp add: queue_inv_def)
  obtain r' where snd: "q_send FQ r \<lparr>fr_header = ?hdr, fr_data = Some b\<rparr> = Some r'"
    using assms(18) rtos_queue.send_None_iff [OF assms(1,17)] by fastforce
  from rtos_queue.send_SomeD [OF assms(1) valid this]
  have r': "fc r' = fc r @ [\<lparr>fr_header = ?hdr, fr_data = Some b\<rparr>]" by simp
  have "0 < ?n" "?n \<le> kVideoMaxFrameBytes" using assms(11) by (auto simp: in_bounds_def)
  then have len: "fh_data_len ?hdr \<noteq> 0" "\<not> kVideoMaxFrameBytes < ?n" by auto
  have "server_iter R A FQ VQ ((w, u, g), d) =
      (True, (w\<lparr>g_vIn := g_vIn w + 1, v_outQueue := Some r'\<rparr>, u, heap_write b 0 data g1), d2)"
    using d1(1) d2(1) alloc len assms(15,16) snd
    by (simp add: server_iter_def sizeof_FrameHeader_def enqueueOrDrop_def Let_def)
  then show ?thesis
    using d2(2) r' by (auto simp: fill heap_read_def)
qed

text \<open>A sending board with one frame of station 5, and an empty receiving one.\<close>

definition hdr5 :: FrameHeader where
  "hdr5 = \<lparr>fh_origin_node_id = 5, fh_stream_id = 2, fh_seq = 3, fh_data_len = 3\<rparr>"

definition sender5 :: "Frame list_q relay" where
  "sender5 = relay0\<lparr>v_outQueue := Some ([\<lparr>fr_header = hdr5, fr_data = Some 0\<rparr>], 12)\<rparr>"

definition receiver5 :: "Frame list_q relay" where
  "receiver5 = relay0\<lparr>v_outQueue := Some ([], 12)\<rparr>"

theorem frame_crosses_hop_witness:
  "\<exists>d' r' g'. server_iter seg_recv (pool_alloc 4) list_queue (list_queue :: (VideoItem, VideoItem list_q) queue_ops)
      ((receiver5, (uplink0 :: (nat, VideoItem list_q) uplink), heap0), [[5], [2, 3, 0, 3, 0, 0, 0, 7, 8], [9]]) =
      (True, (receiver5\<lparr>g_vIn := 1, v_outQueue := Some r'\<rparr>, uplink0, g'), d') \<and>
    concat d' = [] \<and> heap_read 0 g' = [7, 8, 9] \<and> fst r' = [\<lparr>fr_header = hdr5, fr_data = Some 0\<rparr>]"
proof -
  let ?W = "mss_send 4"
  let ?h = "heap0\<lparr>mem := [0 \<mapsto> [7, 8, 9]]\<rparr>"
  let ?out = "[5, 2, 3, 0, 3, 0, 0, 0, 7, 8, 9] :: bytes"
  have "client_iter ?W list_queue ((sender5, ?h), ([], 9)) =
      (True, (sender5\<lparr>v_outQueue := Some ([], 12), g_vOut := 1, g_vOutBytes := 3\<rparr>, heap_caps_free 0 ?h), (?out, 6))"
    by (simp add: client_iter_def sender5_def hdr5_def relay0_def list_queue_def enc_frame_header_def le16_def le32_def
        heap_read_def heap0_def freeFrame_def sendAll.simps mss_send_def Let_def)
  note step = this
  have "\<exists>g1. allocFrameBuffer (pool_alloc 4) 3 heap0 = (Some 0, g1)"
    by (simp add: allocFrameBuffer_def heap_caps_malloc_def pool_alloc_def heap0_def upt_rec)
  then obtain g1 where al: "allocFrameBuffer (pool_alloc 4) (length [7 :: u8, 8, 9]) heap0 = (Some 0, g1)"
    by (auto simp: numeral_3_eq_3)
  show ?thesis
    using frame_crosses_hop [OF list_queue_contract pool_allocator mss.tcp_sink_axioms segl.tcp_live_axioms,
        of sender5 "([\<lparr>fr_header = hdr5, fr_data = Some 0\<rparr>], 12)" "\<lparr>fr_header = hdr5, fr_data = Some 0\<rparr>" "[]" 0
          ?h "[7, 8, 9]" 4 "([], 9)" _ _ _ "[[5], [2, 3, 0, 3, 0, 0, 0, 7, 8], [9]]" "[]" receiver5 "([], 12)" 4 heap0 0 g1]
      step al
    by (fastforce simp: sender5_def receiver5_def hdr5_def relay0_def queue_inv_def heap0_def in_bounds_def config_defs)
qed

section \<open>The client and its connection\<close>

text \<open>C23: A round of the client task: without a connection it changes nothing and waits a
  second. Otherwise it writes the queued frames in order and then heartbeats, each whole,
  until a send fails: then the item it was at was cut short, a frame being counted as lost,
  and the next round starts after half a second. Every frame it took from the queue has been
  counted once, as sent or as lost, and its buffer freed.\<close>

theorem client_round_writes:
  assumes "rtos_queue FQ fv fc fcap" and "tcp_sink W outb"
    and "v_outQueue v = Some q" and "queue_inv fv fc fcap q" and "sendable h (fc q)"
    and "client_round n W FQ e ((v, h), c) = (delay, (v', h'), c')"
  shows "if \<not> cl_socket_ok e \<or> \<not> fst (relay_connectWithTimeout (cl_connect e) (client_dest v) 2000)
    then delay = Some 1000 \<and> v' = v \<and> h' = h \<and> c' = c
    else \<exists>k tail. let items = next_items n h (fc q); m = (if delay = None then n else Suc k) in
      outb c' = outb c @ concat (map wire (take k items)) @ tail \<and>
      (if delay = None then k = n \<and> tail = []
       else delay = Some 500 \<and> k < n \<and> strict_prefix tail (wire (items ! k))) \<and>
      out_frames fc v' = drop m (fc q) \<and> h' = fold freeFrame (take m (fc q)) h \<and>
      g_vOut v' = g_vOut v + of_nat (min k (length (fc q))) \<and>
      g_vDrop v' = g_vDrop v + (if delay \<noteq> None \<and> k < length (fc q) then 1 else 0) \<and>
      g_clientUp v' = (delay = None)"
proof (cases "\<not> cl_socket_ok e \<or> \<not> fst (relay_connectWithTimeout (cl_connect e) (client_dest v) 2000)")
  case True
  then have "client_round n W FQ e ((v, h), c) = (Some 1000, (v, h), c)"
    by (cases "cl_socket_ok e") (simp_all add: client_round_def)
  with True assms(6) show ?thesis by simp
next
  case False
  obtain ok v1 h1 c1 where conn: "client_conn n W FQ ((client_connected v, h), c) = (ok, (v1, h1), c1)"
    by (metis prod.exhaust)
  have res: "delay = (if ok then None else Some 500)" "v' = (if ok then v1 else client_lost v1)" "h' = h1" "c' = c1"
    using False conn assms(6) by (cases ok; auto simp: client_round_def)+
  have same: "v_outQueue (client_connected v) = Some q" "g_vOut (client_connected v) = g_vOut v"
      "g_vDrop (client_connected v) = g_vDrop v"
    using assms(3) by (simp_all add: client_connected_def)
  have "g_clientUp v' = ok"
    using res(2) client_conn_up [OF conn] by (simp add: client_connected_def client_lost_def)
  moreover obtain k tail where w: "outb c1 = outb c @ concat (map wire (take k (next_items n h (fc q)))) @ tail"
      "if ok then k = n \<and> tail = [] else k < n \<and> strict_prefix tail (wire (next_items n h (fc q) ! k))"
      "out_frames fc v1 = drop (if ok then n else Suc k) (fc q)"
      "h1 = fold freeFrame (take (if ok then n else Suc k) (fc q)) h"
      "g_vOut v1 = g_vOut v + of_nat (min k (length (fc q)))"
      "g_vDrop v1 = g_vDrop v + (if \<not> ok \<and> k < length (fc q) then 1 else 0)"
    using client_conn_writes [OF assms(1,2) same(1) assms(4,5) conn] unfolding same by blast
  moreover have "out_frames fc v' = out_frames fc v1" "g_vOut v' = g_vOut v1" "g_vDrop v' = g_vDrop v1"
    unfolding res by (simp_all add: client_lost_def out_frames_def)
  ultimately show ?thesis
    using False unfolding res(1,3,4)
    by (subst if_not_P [OF False], intro exI [of _ k] exI [of _ tail]) (cases ok; simp add: Let_def)
qed

text \<open>A send that fails after five bytes of the second frame.\<close>

definition two_frames :: "Frame list" where
  "two_frames = [\<lparr>fr_header = hdr5, fr_data = Some 0\<rparr>, \<lparr>fr_header = hdr5\<lparr>fh_seq := 4\<rparr>, fr_data = Some 1\<rparr>]"

definition two_heap :: heap where
  "two_heap = heap0\<lparr>mem := [0 \<mapsto> [7, 8, 9], 1 \<mapsto> [4, 5, 6]]\<rparr>"

lemma two_sendable: "sendable two_heap two_frames"
  by (auto simp: sendable_def two_frames_def two_heap_def heap0_def sized_def frame_buf_def hdr5_def in_bounds_def
      config_defs)

definition connects :: client_env where
  "connects = \<lparr>cl_socket_ok = True,
     cl_connect = (\<lambda>_. \<lparr>ce_connect = - 1, ce_inprogress = True, ce_select = (\<lambda>_ _. 1), ce_so_error = 0\<rparr>)\<rparr>"

lemma connects_ok:
  "relay_connectWithTimeout (cl_connect connects) dest 2000 = (True, [True, False])" "cl_socket_ok connects"
  by (simp_all add: connects_def relay_connectWithTimeout_def)

theorem client_round_writes_witness:
  "case client_round 3 (mss_send 5) list_queue connects
      ((relay0\<lparr>v_outQueue := Some (two_frames, 12)\<rparr>, two_heap), ([], 4)) of (delay, (v', h'), c') \<Rightarrow>
    delay = Some 500 \<and> fst c' = [5, 2, 3, 0, 3, 0, 0, 0, 7, 8, 9, 5, 2, 4, 0, 3] \<and>
    out_frames fst v' = [] \<and> g_vDrop v' = 1 \<and> mem h' 1 = None"
proof -
  let ?s = "((relay0\<lparr>v_outQueue := Some (two_frames, 12)\<rparr>, two_heap), ([], 4))"
  obtain delay v' h' c' where run: "client_round 3 (mss_send 5) list_queue connects ?s = (delay, (v', h'), c')"
    by (metis prod.exhaust)
  have "fst (client_round 3 (mss_send 5) list_queue connects ?s) = Some 500"
    "fst (snd (snd (client_round 3 (mss_send 5) list_queue connects ?s))) =
      [5, 2, 3, 0, 3, 0, 0, 0, 7, 8, 9, 5, 2, 4, 0, 3]"
    by code_simp+
  then have out: "delay = Some 500" "fst c' = [5, 2, 3, 0, 3, 0, 0, 0, 7, 8, 9, 5, 2, 4, 0, 3]"
    using run by simp_all
  note connects_ok
  with client_round_writes [OF list_queue_contract mss.tcp_sink_axioms _ _ _ run, of "(two_frames, 12)"] two_sendable
  obtain k tail where "fst c' = concat (map wire (take k (next_items 3 two_heap two_frames))) @ tail"
      "out_frames fst v' = drop (Suc k) two_frames" "h' = fold freeFrame (take (Suc k) two_frames) two_heap"
      "g_vDrop v' = (if k < 2 then 1 else 0)" "k < 3"
      "strict_prefix tail (wire (next_items 3 two_heap two_frames ! k))"
    by (auto simp: out queue_inv_def two_frames_def relay0_def Let_def)
  note sent = this
  have items: "next_items 3 two_heap two_frames = [Fr hdr5 [7, 8, 9], Fr (hdr5\<lparr>fh_seq := 4\<rparr>) [4, 5, 6], Beat]"
    by (simp add: next_items_def two_frames_def two_heap_def heap0_def frame_item_def heap_read_def numeral_3_eq_3)
  have "length (concat (map wire (take k (next_items 3 two_heap two_frames)))) + length tail = 16"
    using arg_cong [OF sent(1), of length] out(2) by simp
  moreover have "length tail < length (wire (next_items 3 two_heap two_frames ! k))"
    using sent(6) by (rule prefix_length_less)
  moreover have "k = 0 \<or> k = 1 \<or> k = 2" using sent(5) by auto
  ultimately have "k = 1" by (auto simp: items)
  with sent have "out_frames fst v' = []" "h' = fold freeFrame two_frames two_heap" "g_vDrop v' = 1"
    by (simp_all add: two_frames_def)
  then show ?thesis
    using run out by (simp add: two_frames_def freeFrame_def heap_caps_free_def)
qed

section \<open>The server and the byte stream\<close>

text \<open>C13: On a connection that delivers, the server takes any mix of heartbeats and frames off the
  stream one by one and is in step after each, whether it queues a frame, has to drop it
  for lack of a buffer or of room, or hands it to the uplink; the board afterwards is the
  one \<open>take_item\<close> makes of these items in order.\<close>

theorem server_stays_framed:
  assumes "tcp_live R inb good" and "list_all item_ok items" and "good c"
    and "inb c = concat (map wire items) @ rest"
  shows "\<exists>c'. server_conn (length items) R A FQ VQ (w, c) = (True, fold (take_item A FQ VQ) items w, c') \<and>
    inb c' = rest \<and> good c'"
  by (rule server_conn_items [OF assms])

theorem server_stays_framed_witness:
  "\<exists>c'. server_conn (length [Beat, Fr hdr5 [7, 8, 9], Beat]) seg_recv (\<lambda>_ _ _. None) list_queue list_queue
      ((receiver5, (uplink0 :: (nat, VideoItem list_q) uplink), heap0),
       [wire Beat @ [5], [2, 3, 0, 3, 0, 0, 0, 7, 8, 9] @ wire Beat, [42]]) =
      (True, (receiver5\<lparr>g_vDrop := 1\<rparr>, uplink0, heap0), c') \<and>
    concat c' = [42] \<and> [] \<notin> set c'"
proof -
  let ?items = "[Beat, Fr hdr5 [7, 8, 9], Beat]"
  let ?w = "(receiver5, (uplink0 :: (nat, VideoItem list_q) uplink), heap0)"
  have ok: "list_all item_ok ?items"
    by (simp add: hdr5_def in_bounds_def config_defs)
  have stream: "concat [wire Beat @ [5], [2, 3, 0, 3, 0, 0, 0, 7, 8, 9] @ wire Beat, [42]] =
      concat (map wire ?items) @ [42]"
    by (simp add: hdr5_def enc_frame_header_def le16_def le32_def)
  have "fold (take_item (\<lambda>_ _ _. None) list_queue list_queue) ?items ?w = (receiver5\<lparr>g_vDrop := 1\<rparr>, uplink0, heap0)"
    by (simp add: take_item_def allocFrameBuffer_def heap_caps_malloc_def receiver5_def relay0_def)
  with server_stays_framed [OF segl.tcp_live_axioms ok _ stream, of "\<lambda>_ _ _. None" list_queue list_queue ?w]
  show ?thesis by simp
qed

text \<open>C24: A connection between two relays, from end to end: the frames the client took from its
  queue arrive at the server whole, in order and none twice, but for at most the last,
  which a failed send cut short; the server has then dealt with each of them and stands
  before the cut one.\<close>

theorem connection_crosses_hop:
  assumes "rtos_queue FQ fv fc fcap" and "tcp_sink W outb" and "tcp_live R inb good"
    \<comment> \<open>the client's connection\<close>
    and "v_outQueue v = Some q" and "queue_inv fv fc fcap q" and "sendable h (fc q)"
    and "client_conn n W FQ ((v, h), c) = (ok, (v', h'), c')"
    \<comment> \<open>the server, with what the client wrote as its stream\<close>
    and "good d" and "inb d = drop (length (outb c)) (outb c')"
  shows "\<exists>k d'. server_conn k R A SFQ VQ (w, d) =
      (True, fold (take_item A SFQ VQ) (take k (next_items n h (fc q))) w, d') \<and>
    (if ok then k = n \<and> inb d' = [] \<and> out_frames fc v' = drop n (fc q)
     else k < n \<and> strict_prefix (inb d') (wire (next_items n h (fc q) ! k)) \<and>
       out_frames fc v' = drop (Suc k) (fc q))"
proof -
  obtain k tail where w: "outb c' = outb c @ concat (map wire (take k (next_items n h (fc q)))) @ tail"
      "if ok then k = n \<and> tail = [] else k < n \<and> strict_prefix tail (wire (next_items n h (fc q) ! k))"
      "out_frames fc v' = drop (if ok then n else Suc k) (fc q)"
    using client_conn_writes [OF assms(1,2,4-7)] by blast
  let ?items = "take k (next_items n h (fc q))"
  have ok: "list_all item_ok ?items"
    using next_items_ok [OF assms(6)] by (auto simp: list_all_iff dest: in_set_takeD)
  have "inb d = concat (map wire ?items) @ tail" using assms(9) w(1) by simp
  from server_conn_items [OF assms(3) ok assms(8) this, of A SFQ VQ w]
  obtain d' where "server_conn (length ?items) R A SFQ VQ (w, d) = (True, fold (take_item A SFQ VQ) ?items w, d')"
      "inb d' = tail" by blast
  moreover have "length ?items = k" using w(2) by (auto split: if_splits)
  ultimately show ?thesis using w(2,3) by (intro exI [of _ k] exI [of _ d']) auto
qed

text \<open>Both frames sent, in pieces of four bytes, and received in pieces of seven and more.\<close>

theorem connection_crosses_hop_witness:
  "\<exists>d'. server_conn 2 seg_recv (\<lambda>_ _ _. None) list_queue list_queue
      ((receiver5, (uplink0 :: (nat, VideoItem list_q) uplink), heap0),
       [[5, 2, 3, 0, 3, 0, 0], [0, 7, 8, 9, 5, 2, 4, 0, 3], [0, 0, 0, 4, 5, 6]]) =
      (True, (receiver5\<lparr>g_vDrop := 2\<rparr>, uplink0, heap0), d') \<and> concat d' = []"
proof -
  let ?s = "((relay0\<lparr>v_outQueue := Some (two_frames, 12)\<rparr>, two_heap), ([], 9))"
  let ?w = "(receiver5, (uplink0 :: (nat, VideoItem list_q) uplink), heap0)"
  let ?d = "[[5, 2, 3, 0, 3, 0, 0], [0, 7, 8, 9, 5, 2, 4, 0, 3], [0, 0, 0, 4, 5, 6]] :: segments"
  obtain ok v' h' c' where run: "client_conn 2 (mss_send 4) list_queue ?s = (ok, (v', h'), c')"
    by (metis prod.exhaust)
  have "fst (client_conn 2 (mss_send 4) list_queue ?s) = True"
    "fst (snd (snd (client_conn 2 (mss_send 4) list_queue ?s))) = concat ?d"
    by code_simp+
  then have out: "ok" "concat ?d = drop (length (fst ([] :: bytes, 9 :: nat))) (fst c')"
    using run by simp_all
  have q: "v_outQueue (relay0\<lparr>v_outQueue := Some (two_frames, 12)\<rparr>) = Some (two_frames, 12)"
      "queue_inv (\<lambda>_. True) fst snd (two_frames, 12)" "[] \<notin> set ?d"
    by (simp_all add: queue_inv_def two_frames_def)
  have "fold (take_item (\<lambda>_ _ _. None) list_queue list_queue) (next_items 2 two_heap two_frames) ?w =
      (receiver5\<lparr>g_vDrop := 2\<rparr>, uplink0, heap0)"
    by (simp add: next_items_def two_frames_def frame_item_def take_item_def allocFrameBuffer_def
        heap_caps_malloc_def receiver5_def relay0_def)
  moreover note connection_crosses_hop [where R = seg_recv and A = "\<lambda>_ _ _. None" and SFQ = list_queue and VQ = list_queue
      and w = ?w, OF list_queue_contract mss.tcp_sink_axioms segl.tcp_live_axioms q(1,2) _ run q(3) out(2)]
  ultimately show ?thesis using out(1) two_sendable by auto
qed


text \<open>A header that announces nothing (and is no heartbeat) or more than 256 KB ends the
  connection at once, before any memory is asked for: the board is as it was.\<close>

lemma bad_header_refused:
  assumes "tcp_live R inb good" and "good c" and "inb c = enc_frame_header hdr @ rest"
    and "kVideoMaxFrameBytes < unat (fh_data_len hdr) \<or>
      (fh_data_len hdr = 0 \<and> fh_stream_id hdr \<noteq> kVideoHeartbeatStream)"
  shows "\<exists>c'. server_iter R A FQ VQ ((v, u, h), c) = (False, (v, u, h), c') \<and> inb c' = rest"
proof -
  obtain c1 where "recvAll R 8 c = (Some (enc_frame_header hdr), c1)" "inb c1 = rest"
    using tcp_live.recvAll_live [OF assms(1,2), of 8] assms(3) by auto
  then show ?thesis
    using assms(4) by (auto simp: server_iter_def sizeof_FrameHeader_def Let_def)
qed

definition hdr20 :: FrameHeader where
  "hdr20 = \<lparr>fh_origin_node_id = 1, fh_stream_id = 0, fh_seq = 7, fh_data_len = 20\<rparr>"

definition payload20 :: bytes where
  "payload20 = [5, 5, 5, 5] @ [9, 1, 0, 0, 2, 0, 0, 0, 6, 6] @ replicate 6 0"

text \<open>An allocator that finds no more than ten bytes; one frame sent, with a pause inside.\<close>

definition tight_alloc :: alloc where
  "tight_alloc c n h = (if 10 < n then None else pool_alloc 4 c n h)"

definition paused :: segments where
  "paused = [enc_frame_header hdr20, take 4 payload20, [], drop 4 payload20]"

text \<open>The drain gives up some way into the payload, or takes it whole.\<close>

lemma drain_takes:
  assumes "tcp_stream R inb"
  shows "\<exists>k \<le> n. inb (drain_payload R n c) = drop k (inb c)"
proof (induction n arbitrary: c rule: less_induct)
  case (less n)
  show ?case
  proof (cases "n = 0")
    case True
    then show ?thesis by (simp add: drain_payload.simps)
  next
    case False
    define m where "m = (if n < 256 then n else 256)"
    have m: "0 < m" "m \<le> n" using False by (auto simp: m_def)
    have step: "drain_payload R n c = (case recvAll R m c of (None, c1) \<Rightarrow> c1 | (Some _, c1) \<Rightarrow> drain_payload R (n - m) c1)"
      using False unfolding m_def by (subst drain_payload.simps) (simp add: Let_def)
    obtain r c1 where r: "recvAll R m c = (r, c1)" by fastforce
    show ?thesis
    proof (cases r)
      case None
      with tcp_stream.recvAll_None [OF assms, of m c c1] r m show ?thesis
        unfolding step by (auto intro: less_imp_le order_trans)
    next
      case (Some bs)
      from tcp_stream.recvAll_Some [OF assms r [unfolded Some]] have "length bs = m" "inb c = bs @ inb c1" by simp_all
      moreover obtain k where "k \<le> n - m" "inb (drain_payload R (n - m) c1) = drop k (inb c1)"
        using less.IH [of "n - m" c1] m by auto
      ultimately show ?thesis
        unfolding step using r Some m by (intro exI [of _ "m + k"]) simp
    qed
  qed
qed

text \<open>C39: But when the drain of a frame that found no buffer ends early (a receive timeout),
  only the drain loop is left, not the connection: the server counts one drop and goes on, and
  reads its next header out of the middle of that payload. If those eight bytes happen to
  name a length it accepts and finds room for, it takes the bytes after them as a frame
  nobody sent.\<close>

theorem drain_failure_misframes:
  assumes "tcp_stream R inb"
    \<comment> \<open>a header of a frame that fits but finds no buffer\<close>
    and "recvAll R sizeof_FrameHeader c = (Some hb, c1)"
    and "len = unat (fh_data_len (dec_frame_header hb))" and "0 < len" and "len \<le> kVideoMaxFrameBytes"
    and "allocFrameBuffer A len h = (None, h1)"
    \<comment> \<open>its payload on the connection, and a drain that did not get through it\<close>
    and "inb c1 = payload @ rest" and "length payload = len"
    and "length rest < length (inb (drain_payload R len c1))"
    \<comment> \<open>the next bytes arrive, as many as a header has\<close>
    and "recvAll R sizeof_FrameHeader (drain_payload R len c1) = (Some hb2, c2)"
  shows "\<exists>k < len. hb2 = take sizeof_FrameHeader (drop k payload @ rest) \<and>
    server_iter R A FQ VQ ((v, u, h), c) = (True, (v\<lparr>g_vDrop := g_vDrop v + 1\<rparr>, u, h1), drain_payload R len c1) \<and>
    (let hdr2 = dec_frame_header hb2; n = unat (fh_data_len hdr2) in
      0 < n \<and> n \<le> kVideoMaxFrameBytes \<longrightarrow>
      (\<forall>a h2 bs c3. allocFrameBuffer A n h1 = (Some a, h2) \<longrightarrow> recvAll R n c2 = (Some bs, c3) \<longrightarrow>
        bs = take n (drop (k + sizeof_FrameHeader) payload @ drop (k + sizeof_FrameHeader - len) rest) \<and>
        server_conn 2 R A FQ VQ ((v, u, h), c) =
          (True, enqueueOrDrop FQ VQ \<lparr>fr_header = hdr2, fr_data = Some a\<rparr>
             (v\<lparr>g_vDrop := g_vDrop v + 1, g_vIn := g_vIn v + 1\<rparr>, u, heap_write a 0 bs h2), c3)))"
proof -
  let ?d = "drain_payload R len c1"
  obtain k where k: "k \<le> len" "inb ?d = drop k (payload @ rest)"
    using drain_takes [OF assms(1), of len c1] assms(7) by auto
  then have klen: "k < len" using assms(8,9) by (cases "k = len") auto
  have d: "inb ?d = drop k payload @ rest" using k(2) klen assms(8) by simp
  have r2: "length hb2 = sizeof_FrameHeader" "inb ?d = hb2 @ inb c2"
    using tcp_stream.recvAll_Some [OF assms(1,10)] by simp_all
  then have hb2: "hb2 = take sizeof_FrameHeader (drop k payload @ rest)" using d by (metis append_eq_conv_conj)
  have it1: "server_iter R A FQ VQ ((v, u, h), c) = (True, (v\<lparr>g_vDrop := g_vDrop v + 1\<rparr>, u, h1), ?d)"
    using assms(2-6) by (auto simp: server_iter_def Let_def unat_eq_0)
  have body: "bs = take n (drop (k + sizeof_FrameHeader) payload @ drop (k + sizeof_FrameHeader - len) rest) \<and>
      server_conn 2 R A FQ VQ ((v, u, h), c) =
        (True, enqueueOrDrop FQ VQ \<lparr>fr_header = dec_frame_header hb2, fr_data = Some a\<rparr>
           (v\<lparr>g_vDrop := g_vDrop v + 1, g_vIn := g_vIn v + 1\<rparr>, u, heap_write a 0 bs h2), c3)"
    if n: "n = unat (fh_data_len (dec_frame_header hb2))" "0 < n" "n \<le> kVideoMaxFrameBytes"
      and al: "allocFrameBuffer A n h1 = (Some a, h2)" and rd: "recvAll R n c2 = (Some bs, c3)" for n a h2 bs c3
  proof
    have "length bs = n" "inb c2 = bs @ inb c3" using tcp_stream.recvAll_Some [OF assms(1) rd] by simp_all
    moreover have "inb c2 = drop sizeof_FrameHeader (drop k payload @ rest)" using r2 d by (metis append_eq_conv_conj)
    moreover have "drop sizeof_FrameHeader (drop k payload @ rest) =
        drop (k + sizeof_FrameHeader) payload @ drop (k + sizeof_FrameHeader - len) rest"
      using klen assms(8) by (simp add: add.commute)
    ultimately show "bs = take n (drop (k + sizeof_FrameHeader) payload @ drop (k + sizeof_FrameHeader - len) rest)"
      by (metis append_eq_conv_conj)
    have "server_iter R A FQ VQ ((v\<lparr>g_vDrop := g_vDrop v + 1\<rparr>, u, h1), ?d) =
        (True, enqueueOrDrop FQ VQ \<lparr>fr_header = dec_frame_header hb2, fr_data = Some a\<rparr>
           (v\<lparr>g_vDrop := g_vDrop v + 1, g_vIn := g_vIn v + 1\<rparr>, u, heap_write a 0 bs h2), c3)"
      using assms(10) n al rd by (auto simp: server_iter_def Let_def unat_eq_0)
    with it1 show "server_conn 2 R A FQ VQ ((v, u, h), c) =
        (True, enqueueOrDrop FQ VQ \<lparr>fr_header = dec_frame_header hb2, fr_data = Some a\<rparr>
           (v\<lparr>g_vDrop := g_vDrop v + 1, g_vIn := g_vIn v + 1\<rparr>, u, heap_write a 0 bs h2), c3)"
      by (simp add: numeral_2_eq_2)
  qed
  show ?thesis
    using klen hb2 it1 body unfolding Let_def by (intro exI [of _ k]) blast
qed

lemmas bench_defs = paused_def hdr20_def payload20_def enc_frame_header_def dec_frame_header_def le16_def le32_def
  le16_dec_def le32_dec_def recvAll.simps drain_payload.simps sizeof_FrameHeader_def allocFrameBuffer_def
  heap_caps_malloc_def tight_alloc_def pool_alloc_def heap0_def upt_rec Let_def

text \<open>Twenty bytes announced, four of them received before the pause: the frame of node 1 is dropped, and
  a two-byte frame of node 9 is queued that nobody sent.\<close>

theorem drain_failure_misframes_witness:
  "concat paused = wire (Fr hdr20 payload20) \<and> item_ok (Fr hdr20 payload20) \<and>
   (case server_conn 2 seg_recv tight_alloc list_queue (list_queue :: (VideoItem, VideoItem list_q) queue_ops)
      ((receiver5, (uplink0 :: (nat, VideoItem list_q) uplink), heap0), paused) of
      (open, (v, u, h), c) \<Rightarrow> open \<and> g_vDrop v = 1 \<and>
        map_option (\<lambda>q. map (fh_origin_node_id \<circ> fr_header) (fst q)) (v_outQueue v) = Some [9])"
proof (intro conjI)
  show "concat paused = wire (Fr hdr20 payload20)" "item_ok (Fr hdr20 payload20)"
    by (simp_all add: paused_def hdr20_def payload20_def in_bounds_def config_defs)
  let ?c1 = "[take 4 payload20, [], drop 4 payload20]" and ?d = "[drop 4 payload20]"
  let ?hb = "enc_frame_header hdr20" and ?hb2 = "[9, 1, 0, 0, 2, 0, 0, 0] :: bytes"
  have rd: "recvAll seg_recv sizeof_FrameHeader paused = (Some ?hb, ?c1)"
    and len: "20 = unat (fh_data_len (dec_frame_header ?hb))"
    and al: "allocFrameBuffer tight_alloc 20 heap0 = (None, heap0)"
    and dr: "drain_payload seg_recv 20 ?c1 = ?d"
    and rd2: "recvAll seg_recv sizeof_FrameHeader ?d = (Some ?hb2, [[6, 6] @ replicate 6 0])"
    by (simp_all add: bench_defs)
  have len2: "2 = unat (fh_data_len (dec_frame_header ?hb2))" "fh_origin_node_id (dec_frame_header ?hb2) = 9"
    by (simp_all add: bench_defs)
  have al2: "allocFrameBuffer tight_alloc 2 heap0 = (Some 0, heap0\<lparr>mem := (mem heap0)(0 \<mapsto> replicate 2 0)\<rparr>)"
    and rd3: "recvAll seg_recv 2 [[6, 6] @ replicate 6 0] = (Some [6, 6], [replicate 6 0])"
    by (simp_all add: bench_defs)
  have c1: "concat ?c1 = payload20 @ []" "length payload20 = 20" "0 < (20::nat)" "20 \<le> kVideoMaxFrameBytes"
      "length [] < length (concat (drain_payload seg_recv 20 ?c1))"
    unfolding dr by (simp_all add: payload20_def kVideoMaxFrameBytes_def)
  have two: "0 < (2::nat) \<and> 2 \<le> kVideoMaxFrameBytes" by (simp add: kVideoMaxFrameBytes_def)
  from drain_failure_misframes [OF seg.tcp_stream_axioms rd len c1(3,4) al c1(1,2,5), unfolded dr, OF rd2,
      where v = receiver5 and u = "uplink0 :: (nat, VideoItem list_q) uplink" and FQ = list_queue
        and VQ = "list_queue :: (VideoItem, VideoItem list_q) queue_ops"]
  have "server_conn 2 seg_recv tight_alloc list_queue (list_queue :: (VideoItem, VideoItem list_q) queue_ops)
      ((receiver5, (uplink0 :: (nat, VideoItem list_q) uplink), heap0), paused) =
      (True, enqueueOrDrop list_queue list_queue \<lparr>fr_header = dec_frame_header ?hb2, fr_data = Some 0\<rparr>
        (receiver5\<lparr>g_vDrop := g_vDrop receiver5 + 1, g_vIn := g_vIn receiver5 + 1\<rparr>, uplink0,
         heap_write 0 0 [6, 6] (heap0\<lparr>mem := (mem heap0)(0 \<mapsto> replicate 2 0)\<rparr>)), [replicate 6 0])"
    using two al2 rd3 unfolding Let_def len2(1) [symmetric] by blast
  then show "case server_conn 2 seg_recv tight_alloc list_queue (list_queue :: (VideoItem, VideoItem list_q) queue_ops)
      ((receiver5, (uplink0 :: (nat, VideoItem list_q) uplink), heap0), paused) of
      (open, (v, u, h), c) \<Rightarrow> open \<and> g_vDrop v = 1 \<and>
        map_option (\<lambda>q. map (fh_origin_node_id \<circ> fr_header) (fst q)) (v_outQueue v) = Some [9]"
    by (simp add: enqueueOrDrop_def receiver5_def relay0_def list_queue_def len2(2))
qed

section \<open>Bring-up\<close>

lemma relay_init_facts:
  "v_isGateway (fst (relay_init FQ ap nid n gw relay0)) = gw"
  "v_outQueue (fst (relay_init FQ ap nid n gw relay0)) = (if gw then None else q_create FQ kVideoQueueDepth)"
  by (simp_all add: relay_init_def relay0_def Let_def)

section \<open>Addresses and names\<close>

lemma ip_text_facts: "n < 256 \<Longrightarrow> length (ip_text n) \<le> 13 \<and> 0 \<notin> set (ip_text n)"
  using length_dec_digits_small [of n] dec_digits_are_digits [of 0 n] by (auto simp: ip_text_def is_digit_def)

lemma snprintf16_short: "length t \<le> 15 \<Longrightarrow> 0 \<notin> set t \<Longrightarrow> c_str (snprintf16 t) = t"
  by (simp add: snprintf16_def c_str_replicate_nul)

lemma ssid_text_facts: "length (ssid_text w) \<le> 15 \<and> 0 \<notin> set (ssid_text w)"
  using length_dec_u8 [of w] dec_digits_are_digits [of 0 "unat w"]
  by (auto simp: ssid_text_def dec_u8_def is_digit_def)

text \<open>The printed address is read back.\<close>

lemma inet_ip_text: "n < 256 \<Longrightarrow> inet_pton (ip_text n) = [192, 168, of_nat n, 1]"
proof -
  assume n: "n < 256"
  have dot: "46 \<notin> set (dec_digits n)" using dec_digits_are_digits [of 46 n] by (auto simp: is_digit_def)
  have "split_at 46 (ip_text n) = [[49, 57, 50], [49, 54, 56], dec_digits n, [49]]"
    using split_at_append [OF dot, of "[49]"] by (simp add: ip_text_def)
  moreover have "octet [49, 57, 50] = Some 192" "octet [49, 54, 56] = Some 168" "octet [49] = Some 1"
    by (simp_all add: octet_def is_digit_def dec_value_def)
  ultimately show ?thesis using octet_dec [OF n] by (simp add: inet_pton_def)
qed

text \<open>C40: In a chain of two to 64 nodes, a relay's client dials exactly the address and port at
  which the server of \<open>next\<close> listens on its own access point, and the relay joins that
  access point by its name, password and channel (with a password WPA2 accepts); nothing is cut off
  by the 16-byte buffers, and no two neighbours share a subnet (so a relay never dials its
  own access point).\<close>

theorem neighbours_dial_each_other:
  assumes "2 \<le> unat n" and "n \<le> kMaxChainNodes" and "nid < n" and "nid \<noteq> 0"
    and "relay_init FQ True nid n False relay0 = (v, plan)"
    and "relay_init FQ True (v_nextId v) n gw relay0 = (v', plan')"
  shows "ap_ip plan' = Some (sa_host (client_dest v), [255, 255, 255, 0]) \<and>
    sa_port (client_dest v) = sa_port server_addr \<and>
    sta_network plan = Some (ap_ssid plan', ap_password plan', ap_channel plan') \<and>
    8 \<le> length (ap_password plan') \<and> length (ap_password plan') \<le> 63 \<and>
    map_option (take 3 \<circ> fst) (ap_ip plan) \<noteq> map_option (take 3 \<circ> fst) (ap_ip plan')"
proof -
  have n: "unat n \<le> 64" "unat nid < unat n"
    using assms(2,3) by (simp_all add: config_defs word_le_nat_alt word_less_nat_alt)
  let ?k = "(unat nid + 1) mod unat n"
  have k: "?k < unat n" using assms(1) by simp
  then have "unat (of_nat ?k :: u8) = ?k" using n(1) by (simp add: unat_of_nat)
  then have nid': "v_nextId v = of_nat ?k" "unat (v_nextId v) = ?k"
    using assms(5) by (auto simp: relay_init_def relay0_def Let_def)
  have ip: "c_str (v_nextIp v) = c_str (snprintf16 (ip_text (10 + ?k)))"
    using assms(5) nid'(2) by (auto simp: relay_init_def relay0_def kApSubnetBase_def Let_def)
  have small: "10 + ?k < 256" "10 + unat nid < 256" using k n by linarith+
  then have dial: "sa_host (client_dest v) = [192, 168, of_nat (10 + ?k), 1]"
    using ip ip_text_facts [of "10 + ?k"] inet_ip_text [OF small(1)] by (simp add: client_dest_def snprintf16_short)
  have ssid: "c_str (strncpy 32 (snprintf16 (ssid_text w))) = c_str (snprintf16 (ssid_text w))" for w
    using ssid_text_facts [of w] by (simp add: c_str_strncpy snprintf16_short)
  have plans: "ap_ip plan' = Some ([192, 168, of_nat (10 + ?k), 1], [255, 255, 255, 0])"
      "ap_ip plan = Some ([192, 168, of_nat (10 + unat nid), 1], [255, 255, 255, 0])"
      "sta_network plan = Some (ap_ssid plan', ap_password plan', ap_channel plan')"
    using assms(5,6) nid' by (auto simp: relay_init_def kApSubnetBase_def ssid Let_def)
  have "ap_password plan' = c_str (strncpy 64 kVideoApPassword)"
    using assms(6) by (auto simp: relay_init_def Let_def)
  also have "\<dots> = kVideoApPassword"
    unfolding c_str_strncpy by (simp add: address_defs c_text_def c_str_def)
  finally have password: "length (ap_password plan') = 9" by (simp add: address_defs c_text_def)
  have "?k \<noteq> unat nid"
  proof (cases "Suc (unat nid) = unat n")
    case True
    then have "?k = 0" by simp
    moreover have "unat nid \<noteq> 0" using assms(4) by (simp add: unat_eq_zero)
    ultimately show ?thesis by simp
  qed (use n(2) in simp)
  then have "(of_nat (10 + ?k) :: u8) \<noteq> of_nat (10 + unat nid)"
    using small unat_of_nat_u8 [of "10 + ?k"] unat_of_nat_u8 [of "10 + unat nid"] by (metis add_left_cancel)
  then show ?thesis
    using dial plans password by (simp add: client_dest_def server_addr_def)
qed

theorem neighbours_dial_each_other_witness:
  "sa_host (client_dest (fst (relay_init list_queue True 2 5 False (relay0 :: Frame list_q relay)))) = [192, 168, 13, 1]"
proof -
  obtain v plan where i: "relay_init list_queue True 2 5 False (relay0 :: Frame list_q relay) = (v, plan)" by fastforce
  obtain v' plan' where j: "relay_init list_queue True (v_nextId v) 5 False (relay0 :: Frame list_q relay) = (v', plan')"
    by fastforce
  have "v_nextId v = 3" using i by (auto simp: relay_init_def relay0_def Let_def)
  moreover from this j have "ap_ip plan' = Some ([192, 168, 13, 1], [255, 255, 255, 0])"
    by (auto simp: relay_init_def kApSubnetBase_def Let_def)
  ultimately show ?thesis
    using neighbours_dial_each_other [OF _ _ _ _ i j] i by (simp add: config_defs)
qed

section \<open>Self-test\<close>

text \<open>The self-test accepts every frame its producer fills, and a payload under another
  frame's header exactly when the two headers have the same checksum
  (\<open>seq + 17 stream + 3 origin\<close> modulo 256).\<close>

lemma self_test_check:
  assumes "mem h a = Some (map (selfTestByte o' s' q') [0..<kSelfTestFrameBytes])"
  shows "selfTestFrameOk \<lparr>fr_header = \<lparr>fh_origin_node_id = o1, fh_stream_id = s1, fh_seq = q1,
      fh_data_len = of_nat kSelfTestFrameBytes\<rparr>, fr_data = Some a\<rparr> h \<longleftrightarrow>
    ucast q1 + s1 * 17 + o1 * 3 = (ucast q' + s' * 17 + o' * 3 :: u8)"
proof -
  have n: "unat (of_nat kSelfTestFrameBytes :: u32) = 8000"
    by (simp only: kSelfTestFrameBytes_def unat_of_nat) simp
  have n8: "unat (of_nat 8000 :: u32) = 8000"
    by (simp add: unat_of_nat)
  have r: "map (selfTestByte o' s' q') [0..<8000] ! i = selfTestByte o' s' q' i" if "i < 8000" for i
    using that by (simp del: upt_rec_numeral)
  have same: "selfTestByte o' s' q' i = selfTestByte o1 s1 q1 i \<longleftrightarrow>
      ucast q1 + s1 * 17 + o1 * 3 = (ucast q' + s' * 17 + o' * 3 :: u8)" for i
    by (auto simp: selfTestByte_def)
  have d: "heap_read a h = map (selfTestByte o' s' q') [0..<8000]"
    using assms by (simp only: heap_read_def option.case kSelfTestFrameBytes_def)
  have idx: "(8000::nat) div 2 = 4000" "(8000::nat) - 1 = 7999" "(0::nat) < 8000" "(1::nat) < 8000"
      "(4000::nat) < 8000" "(7999::nat) < 8000" by simp_all
  show ?thesis
    by (simp only: selfTestFrameOk_def Frame.select_convs FrameHeader.select_convs Let_def
        option.case list.pred_inject d n kSelfTestFrameBytes_def n8 idx(1,2))
      (simp only: r idx(3-6) same simp_thms)
qed

end
