(* ===== verification/LuckfoxSpi.thy ===== *)
theory LuckfoxSpi
  imports Heap Config
begin

text \<open>
  main/luckfox_spi.cpp: the SPI slave link to the camera board. The slave driver is not part
  of the repository: one transaction is the argument \<open>T\<close> (the 4000 bytes of the receive
  buffer after it, or an error), and \<open>clk\<close> is the timer after it. The locals of
  \<open>receiverTask\<close> that live from pass to pass are the fields of \<open>spi_rx\<close>, with the time
  spent in \<open>vTaskDelay\<close>. The two callbacks change the rest of the board, of any type.
\<close>

section \<open>Wire format\<close>

definition kMagic :: u32 where "kMagic = 0x52415046"
definition kMsgVideo :: u8 where "kMsgVideo = 0"
definition kMsgStatus :: u8 where "kMsgStatus = 1"

record WireHeader =
  wh_magic :: u32
  wh_msg_type :: u8
  wh_stream_id :: u8
  wh_seq :: u16
  wh_data_len :: u32

record LaneStatusWire =
  ls_occupied :: u8
  ls_plate :: bytes

definition sizeof_WireHeader :: nat where "sizeof_WireHeader = 12"
definition sizeof_LaneStatusWire :: nat where "sizeof_LaneStatusWire = 1 + (kMaxPlateLen + 1)"

definition enc_wire_header :: "WireHeader \<Rightarrow> bytes" where
  "enc_wire_header w = le32 (wh_magic w) @ [wh_msg_type w, wh_stream_id w] @ le16 (wh_seq w) @
     le32 (wh_data_len w)"

definition dec_wire_header :: "bytes \<Rightarrow> WireHeader" where
  "dec_wire_header bs = \<lparr>wh_magic = le32_dec (bs ! 0) (bs ! 1) (bs ! 2) (bs ! 3), wh_msg_type = bs ! 4,
     wh_stream_id = bs ! 5, wh_seq = le16_dec (bs ! 6) (bs ! 7),
     wh_data_len = le32_dec (bs ! 8) (bs ! 9) (bs ! 10) (bs ! 11)\<rparr>"

definition enc_lane_status :: "LaneStatusWire \<Rightarrow> bytes" where
  "enc_lane_status l = ls_occupied l # ls_plate l"

definition dec_lane_status :: "bytes \<Rightarrow> LaneStatusWire" where
  "dec_lane_status bs = \<lparr>ls_occupied = bs ! 0, ls_plate = take (kMaxPlateLen + 1) (drop 1 bs)\<rparr>"

lemma dec_enc_wire_header [simp]: "dec_wire_header (enc_wire_header w @ pad) = w"
  by (simp add: dec_wire_header_def enc_wire_header_def le16_def le32_def codec)

lemma length_wire_header [simp]: "length (enc_wire_header w) = sizeof_WireHeader"
  by (simp add: enc_wire_header_def sizeof_WireHeader_def)

lemma dec_enc_lane_status [simp]:
  "length (ls_plate l) = kMaxPlateLen + 1 \<Longrightarrow> dec_lane_status (enc_lane_status l @ pad) = l"
  by (simp add: dec_lane_status_def enc_lane_status_def)

section \<open>State\<close>

record 't spi_rx =
  sp_link :: 't
  g_rxScratch :: bytes
  diagCount :: u32
  noSyncRun :: u32
  lastDiagUs :: int
  sp_delayMs :: nat

type_synonym 't slave = "'t \<Rightarrow> bytes option \<times> 't"

text \<open>The callbacks; \<open>None\<close> is an empty \<open>std::function\<close>.\<close>

record 'w spi_callbacks =
  g_onFrame :: "(u8 \<Rightarrow> u16 \<Rightarrow> addr \<Rightarrow> u32 \<Rightarrow> 'w \<times> heap \<Rightarrow> 'w \<times> heap) option"
  g_onStatus :: "(u8 \<Rightarrow> u8 \<Rightarrow> bytes \<Rightarrow> 'w \<Rightarrow> 'w) option"

definition vTaskDelay :: "nat \<Rightarrow> 't spi_rx \<Rightarrow> 't spi_rx" where
  "vTaskDelay ms r = r\<lparr>sp_delayMs := sp_delayMs r + ms\<rparr>"

definition transactOnce :: "'t slave \<Rightarrow> 't spi_rx \<Rightarrow> bool \<times> 't spi_rx" where
  "transactOnce T r =
     (case T (sp_link r) of
        (None, t) \<Rightarrow> (False, r\<lparr>sp_link := t\<rparr>)
      | (Some bs, t) \<Rightarrow> (True, r\<lparr>sp_link := t, g_rxScratch := bs\<rparr>))"

section \<open>Waiting for a header\<close>

text \<open>What follows a transaction that was no header: the counts, the ten-second report, the pause.\<close>

definition no_header :: "('t \<Rightarrow> int) \<Rightarrow> 't spi_rx \<Rightarrow> 't spi_rx" where
  "no_header clk r =
     (let r1 = r\<lparr>diagCount := diagCount r + 1, noSyncRun := noSyncRun r + 1\<rparr>;
          nowUs = clk (sp_link r1);
          r2 = (if 10 * 1000 * 1000 \<le> nowUs - lastDiagUs r1
                then r1\<lparr>lastDiagUs := nowUs, diagCount := 0\<rparr> else r1)
      in if 100 < noSyncRun r2 then vTaskDelay 5 r2 else r2)"

text \<open>\<open>None\<close> is a wait that never ends.\<close>

partial_function (option) wait_header ::
  "'t slave \<Rightarrow> ('t \<Rightarrow> int) \<Rightarrow> 't spi_rx \<Rightarrow> (WireHeader \<times> 't spi_rx) option" where
  "wait_header T clk r =
     (case transactOnce T r of (ok, r1) \<Rightarrow>
        if \<not> ok then wait_header T clk (vTaskDelay 10 r1)
        else if wh_magic (dec_wire_header (g_rxScratch r1)) = kMagic
        then Some (dec_wire_header (g_rxScratch r1), r1\<lparr>noSyncRun := 0\<rparr>)
        else wait_header T clk (no_header clk r1))"

declare wait_header.simps [code]

section \<open>Taking a frame or a reading\<close>

text \<open>The frame buffer: PSRAM, else internal memory.\<close>

definition spi_alloc :: "alloc \<Rightarrow> nat \<Rightarrow> heap \<Rightarrow> addr option \<times> heap" where
  "spi_alloc A len h =
     (case heap_caps_malloc A len MALLOC_CAP_SPIRAM h of
        (Some a, h1) \<Rightarrow> (Some a, h1)
      | (None, h1) \<Rightarrow> heap_caps_malloc A len MALLOC_CAP_8BIT h1)"

text \<open>The chunks of a frame that found no buffer.\<close>

function spi_drain :: "'t slave \<Rightarrow> nat \<Rightarrow> 't spi_rx \<Rightarrow> 't spi_rx" where
  "spi_drain T remaining r =
     (if remaining = 0 then r
      else case transactOnce T r of
             (False, r1) \<Rightarrow> r1
           | (True, r1) \<Rightarrow>
               spi_drain T (remaining - (if remaining < kLuckfoxSpiChunkBytes then remaining
                                         else kLuckfoxSpiChunkBytes)) r1)"
  by pat_completeness auto
termination
  by (relation "measure (\<lambda>(T, n, r). n)") (auto simp: kLuckfoxSpiChunkBytes_def)

declare spi_drain.simps [simp del]

text \<open>The chunks of a frame, copied into its buffer.\<close>

function collect ::
  "'t slave \<Rightarrow> addr \<Rightarrow> nat \<Rightarrow> nat \<Rightarrow> 't spi_rx \<Rightarrow> heap \<Rightarrow> bool \<times> 't spi_rx \<times> heap" where
  "collect T data len received r h =
     (if received < len then
        (case transactOnce T r of
           (False, r1) \<Rightarrow> (False, r1, h)
         | (True, r1) \<Rightarrow>
             (let want = (if kLuckfoxSpiChunkBytes < len - received then kLuckfoxSpiChunkBytes
                          else len - received)
              in collect T data len (received + want) r1
                   (heap_write data received (take want (g_rxScratch r1)) h)))
      else (True, r, h))"
  by pat_completeness auto
termination
  by (relation "measure (\<lambda>(T, a, len, n, r, h). len - n)") (auto simp: kLuckfoxSpiChunkBytes_def)

declare collect.simps [simp del]

definition receive_status ::
  "'t slave \<Rightarrow> 'w spi_callbacks \<Rightarrow> WireHeader \<Rightarrow> 't spi_rx \<Rightarrow> 'w \<Rightarrow> 't spi_rx \<times> 'w" where
  "receive_status T cb hdr r w =
     (case transactOnce T r of
        (False, r1) \<Rightarrow> (r1, w)
      | (True, r1) \<Rightarrow>
          (let status = dec_lane_status (g_rxScratch r1);
               status1 = status\<lparr>ls_plate := (ls_plate status)[kMaxPlateLen := 0]\<rparr>
           in (r1, case g_onStatus cb of
                     None \<Rightarrow> w
                   | Some f \<Rightarrow> f (wh_stream_id hdr) (ls_occupied status1) (ls_plate status1) w)))"

definition receive_frame ::
  "'t slave \<Rightarrow> alloc \<Rightarrow> 'w spi_callbacks \<Rightarrow> WireHeader \<Rightarrow> 't spi_rx \<Rightarrow> 'w \<times> heap \<Rightarrow> 't spi_rx \<times> 'w \<times> heap" where
  "receive_frame T A cb hdr r = (\<lambda>(w, h).
     (case spi_alloc A (unat (wh_data_len hdr)) h of
        (None, h1) \<Rightarrow> (spi_drain T (unat (wh_data_len hdr)) r, w, h1)
      | (Some data, h1) \<Rightarrow>
          (case collect T data (unat (wh_data_len hdr)) 0 r h1 of
             (False, r1, h2) \<Rightarrow> (r1, w, heap_caps_free data h2)
           | (True, r1, h2) \<Rightarrow>
               (r1, case g_onFrame cb of
                      Some f \<Rightarrow> f (wh_stream_id hdr) (wh_seq hdr) data (wh_data_len hdr) (w, h2)
                    | None \<Rightarrow> (w, heap_caps_free data h2)))))"

text \<open>One pass of the outer loop of \<open>receiverTask\<close>.\<close>

definition receiver_pass ::
  "'t slave \<Rightarrow> ('t \<Rightarrow> int) \<Rightarrow> alloc \<Rightarrow> 'w spi_callbacks \<Rightarrow> 't spi_rx \<times> 'w \<times> heap \<Rightarrow>
     ('t spi_rx \<times> 'w \<times> heap) option" where
  "receiver_pass T clk A cb = (\<lambda>(r, w, h).
     (case wait_header T clk r of
        None \<Rightarrow> None
      | Some (hdr, r1) \<Rightarrow>
          if wh_msg_type hdr = kMsgStatus then
            (if wh_data_len hdr \<noteq> of_nat sizeof_LaneStatusWire then Some (r1, w, h)
             else case receive_status T cb hdr r1 w of (r2, w1) \<Rightarrow> Some (r2, w1, h))
          else if wh_data_len hdr = 0 \<or> kVideoMaxFrameBytes < unat (wh_data_len hdr) then Some (r1, w, h)
          else Some (receive_frame T A cb hdr r1 (w, h))))"

text \<open>The task: pass after pass, here \<open>n\<close> of them.\<close>

fun receiver_task ::
  "nat \<Rightarrow> 't slave \<Rightarrow> ('t \<Rightarrow> int) \<Rightarrow> alloc \<Rightarrow> 'w spi_callbacks \<Rightarrow> 't spi_rx \<times> 'w \<times> heap \<Rightarrow>
     ('t spi_rx \<times> 'w \<times> heap) option" where
  "receiver_task 0 T clk A cb s = Some s"
| "receiver_task (Suc n) T clk A cb s =
     (case receiver_pass T clk A cb s of None \<Rightarrow> None | Some s' \<Rightarrow> receiver_task n T clk A cb s')"

section \<open>Bring-up\<close>

text \<open>The results of the two DMA allocations and of \<open>spi_slave_initialize\<close>.\<close>

record spi_env =
  rx_scratch_ok :: bool
  tx_scratch_ok :: bool
  slave_init_ok :: bool

text \<open>The callbacks are set in any case; the result says whether the receiver task was started.\<close>

definition spi_init ::
  "spi_env \<Rightarrow> (u8 \<Rightarrow> u16 \<Rightarrow> addr \<Rightarrow> u32 \<Rightarrow> 'w \<times> heap \<Rightarrow> 'w \<times> heap) option \<Rightarrow>
     (u8 \<Rightarrow> u8 \<Rightarrow> bytes \<Rightarrow> 'w \<Rightarrow> 'w) option \<Rightarrow> bool \<times> 'w spi_callbacks" where
  "spi_init e onFrame onStatus =
     (let cb = \<lparr>g_onFrame = onFrame, g_onStatus = onStatus\<rparr>
      in if \<not> rx_scratch_ok e \<or> \<not> tx_scratch_ok e then (False, cb)
         else if \<not> slave_init_ok e then (False, cb)
         else (True, cb))"

end
