(* ===== verification/LuckfoxProps.thy ===== *)
theory LuckfoxProps
  imports LuckfoxSpi VideoInv
begin

text \<open>
  The properties of the SPI receiver. The slave driver's contract comes in two steps: every
  transaction leaves a whole chunk in the receive buffer (\<open>spi_slave\<close>), and the master
  clocks a given sequence of transactions, some of which may fail (\<open>spi_link\<close>). \<open>feed\<close> is a
  concrete link, the list of what will be clocked.
\<close>

section \<open>The contract of the slave driver\<close>

locale spi_slave =
  fixes T :: "'t slave"
  assumes full: "T t = (Some bs, t') \<Longrightarrow> length bs = kLuckfoxSpiChunkBytes"

locale spi_link = spi_slave T for T :: "'t slave" +
  fixes pend :: "'t \<Rightarrow> bytes option list"
  assumes clocked: "pend t = x # xs \<Longrightarrow> \<exists>t'. T t = (x, t') \<and> pend t' = xs"

text \<open>A chunk as the sender pads it, and the concrete link.\<close>

definition to_chunk :: "bytes \<Rightarrow> bytes" where
  "to_chunk bs = take kLuckfoxSpiChunkBytes (bs @ replicate kLuckfoxSpiChunkBytes 0)"

lemma length_to_chunk [simp]: "length (to_chunk bs) = kLuckfoxSpiChunkBytes"
  by (simp add: to_chunk_def)

definition feed :: "bytes option list slave" where
  "feed t = (case t of [] \<Rightarrow> (None, []) | x # xs \<Rightarrow> (map_option to_chunk x, xs))"

interpretation fed: spi_link feed "map (map_option to_chunk)"
  by unfold_locales (auto simp: feed_def split: list.splits)

section \<open>Single transactions and the wait for a header\<close>

text \<open>What the receiver takes for no header: a failed transaction, or a chunk without the magic.\<close>

definition no_hdr :: "bytes option \<Rightarrow> bool" where
  "no_hdr x = (case x of None \<Rightarrow> True | Some bs \<Rightarrow> wh_magic (dec_wire_header bs) \<noteq> kMagic)"

definition phantoms :: "bytes option list \<Rightarrow> nat" where
  "phantoms xs = length (filter (\<lambda>x. x \<noteq> None) xs)"

definition failures :: "bytes option list \<Rightarrow> nat" where
  "failures xs = length (filter (\<lambda>x. x = None) xs)"

lemma counts_Cons:
  "phantoms (None # xs) = phantoms xs" "phantoms (Some b # xs) = Suc (phantoms xs)"
  "failures (None # xs) = Suc (failures xs)" "failures (Some b # xs) = failures xs"
  by (simp_all add: phantoms_def failures_def)

lemma no_header_facts:
  "sp_link (no_header clk r) = sp_link r" "noSyncRun (no_header clk r) = noSyncRun r + 1"
  "sp_delayMs (no_header clk r) = sp_delayMs r + (if 100 < noSyncRun r + 1 then 5 else 0)"
  by (simp_all add: no_header_def Let_def vTaskDelay_def)

context spi_slave
begin

lemma transact_True: "transactOnce T r = (True, r1) \<Longrightarrow> length (g_rxScratch r1) = kLuckfoxSpiChunkBytes"
  using full [of "sp_link r"] by (auto simp: transactOnce_def split: option.splits prod.splits)

end

context spi_link
begin

lemma transact_Some:
  "pend (sp_link r) = Some bs # xs \<Longrightarrow>
     \<exists>t. transactOnce T r = (True, r\<lparr>sp_link := t, g_rxScratch := bs\<rparr>) \<and> pend t = xs"
  using clocked [of "sp_link r" "Some bs" xs] by (auto simp: transactOnce_def)

lemma transact_None:
  "pend (sp_link r) = None # xs \<Longrightarrow> \<exists>t. transactOnce T r = (False, r\<lparr>sp_link := t\<rparr>) \<and> pend t = xs"
  using clocked [of "sp_link r" None xs] by (auto simp: transactOnce_def)

lemma wait_skips:
  assumes "pend (sp_link r) = noise @ Some hc # rest" and "list_all no_hdr noise"
    and "wh_magic (dec_wire_header hc) = kMagic"
  shows "\<exists>r'. wait_header T clk r = Some (dec_wire_header hc, r') \<and> pend (sp_link r') = rest \<and>
    noSyncRun r' = 0 \<and>
    (unat (noSyncRun r) + phantoms noise < 2 ^ 32 \<longrightarrow>
       sp_delayMs r' = sp_delayMs r + 10 * failures noise +
         5 * ((unat (noSyncRun r) + phantoms noise - 100) - (unat (noSyncRun r) - 100)))"
  using assms
proof (induction noise arbitrary: r)
  case Nil
  obtain t where "transactOnce T r = (True, r\<lparr>sp_link := t, g_rxScratch := hc\<rparr>)" "pend t = rest"
    using transact_Some [of r hc rest] Nil by auto
  with Nil show ?case
    by (subst wait_header.simps) (simp add: phantoms_def failures_def)
next
  case (Cons x noise)
  show ?case
  proof (cases x)
    case None
    obtain t where t: "transactOnce T r = (False, r\<lparr>sp_link := t\<rparr>)"
      "pend t = noise @ Some hc # rest"
      using transact_None [of r "noise @ Some hc # rest"] Cons.prems None by auto
    let ?r = "vTaskDelay 10 (r\<lparr>sp_link := t\<rparr>)"
    have "wait_header T clk r = wait_header T clk ?r"
      by (subst wait_header.simps) (simp add: t)
    moreover have "pend (sp_link ?r) = noise @ Some hc # rest" "noSyncRun ?r = noSyncRun r"
        "sp_delayMs ?r = sp_delayMs r + 10"
      using t(2) by (simp_all add: vTaskDelay_def)
    ultimately show ?thesis
      using Cons.IH [of ?r] Cons.prems None by (auto simp: counts_Cons)
  next
    case (Some b)
    obtain t where t: "transactOnce T r = (True, r\<lparr>sp_link := t, g_rxScratch := b\<rparr>)"
      "pend t = noise @ Some hc # rest"
      using transact_Some [of r b "noise @ Some hc # rest"] Cons.prems Some by auto
    let ?r = "no_header clk (r\<lparr>sp_link := t, g_rxScratch := b\<rparr>)"
    have w: "wait_header T clk r = wait_header T clk ?r"
      using Cons.prems Some by (subst wait_header.simps) (simp add: t no_hdr_def)
    obtain r' where r': "wait_header T clk ?r = Some (dec_wire_header hc, r')" "pend (sp_link r') = rest"
        "noSyncRun r' = 0"
        "unat (noSyncRun ?r) + phantoms noise < 2 ^ 32 \<longrightarrow>
         sp_delayMs r' = sp_delayMs ?r + 10 * failures noise +
           5 * ((unat (noSyncRun ?r) + phantoms noise - 100) - (unat (noSyncRun ?r) - 100))"
      using Cons.IH [of ?r] Cons.prems t(2) by (auto simp: no_header_facts)
    have "sp_delayMs r' = sp_delayMs r + 10 * failures noise +
         5 * ((unat (noSyncRun r) + Suc (phantoms noise) - 100) - (unat (noSyncRun r) - 100))"
      if b: "unat (noSyncRun r) + Suc (phantoms noise) < 2 ^ 32"
    proof -
      have n: "unat (noSyncRun r + 1) = unat (noSyncRun r) + 1"
        using b by (simp add: unat_word_ariths)
      have g: "100 < noSyncRun r + 1 \<longleftrightarrow> 100 \<le> unat (noSyncRun r)"
        by (simp add: word_less_nat_alt n) linarith
      show ?thesis using r'(4) b by (auto simp: no_header_facts n g)
    qed
    then show ?thesis
      using r'(1-3) Some by (simp add: w counts_Cons)
  qed
qed

end

section \<open>Collecting and draining\<close>

lemma spi_alloc_eq: "spi_alloc = allocFrameBuffer"
  by (intro ext) (simp add: spi_alloc_def allocFrameBuffer_def)

lemma chunk_count_Cons:
  "0 < n \<Longrightarrow> length (c # cs) = (n + 3999) div 4000 \<Longrightarrow> length cs = (n - min 4000 n + 3999) div 4000"
  for n :: nat
  by (cases "n \<le> 4000") (simp_all add: div_if)

lemma heap_write_mem:
  "mem h a = Some old \<Longrightarrow>
     heap_write a off bs h = h\<lparr>mem := (mem h)(a \<mapsto> take off old @ bs @ drop (off + length bs) old)\<rparr>"
  by (simp add: heap_write_def)

lemma heap_twice:
  "(h\<lparr>mem := (mem h)(a \<mapsto> x)\<rparr>)\<lparr>mem := (mem (h\<lparr>mem := (mem h)(a \<mapsto> x)\<rparr>))(a \<mapsto> y)\<rparr> = h\<lparr>mem := (mem h)(a \<mapsto> y)\<rparr>"
  by simp

text \<open>The part of a chunk that a frame still lacking \<open>n\<close> bytes takes.\<close>

definition wanted :: "nat \<Rightarrow> nat" where
  "wanted n = (if kLuckfoxSpiChunkBytes < n then kLuckfoxSpiChunkBytes else n)"

lemma wanted_min: "wanted n = min 4000 n"
  by (simp add: wanted_def kLuckfoxSpiChunkBytes_def)

lemma collect_step:
  "k < len \<Longrightarrow> collect T a len k r h =
     (case transactOnce T r of
        (False, r1) \<Rightarrow> (False, r1, h)
      | (True, r1) \<Rightarrow>
          collect T a len (k + wanted (len - k)) r1
            (heap_write a k (take (wanted (len - k)) (g_rxScratch r1)) h))"
  unfolding wanted_def by (subst collect.simps) (auto simp: Let_def split: prod.split bool.split)

lemma collect_end: "\<not> k < len \<Longrightarrow> collect T a len k r h = (True, r, h)"
  by (subst collect.simps) simp

lemma drain_step:
  "n \<noteq> 0 \<Longrightarrow> spi_drain T n r =
     (case transactOnce T r of (False, r1) \<Rightarrow> r1 | (True, r1) \<Rightarrow> spi_drain T (n - wanted n) r1)"
  by (subst spi_drain.simps) (auto simp: wanted_def split: prod.split bool.split)

lemma drain_end: "spi_drain T 0 r = r"
  by (subst spi_drain.simps) simp

context spi_slave
begin

text \<open>Whatever the transactions bring, only the bytes of the buffer itself change.\<close>

lemma collect_frame:
  assumes "collect T a len k r h = (ok, r', h')" and "mem h a = Some old" and "length old = len" and "k \<le> len"
  shows "\<exists>data. length data = len \<and> h' = h\<lparr>mem := (mem h)(a \<mapsto> data)\<rparr>"
  using assms
proof (induction "len - k" arbitrary: k r h old rule: less_induct)
  case less
  show ?case
  proof (cases "k < len")
    case False
    with less.prems have "h' = h" by (simp add: collect_end)
    then show ?thesis using less.prems by (intro exI [of _ old]) (cases h, auto simp: fun_upd_idem)
  next
    case True
    let ?w = "wanted (len - k)"
    obtain b r1 where t: "transactOnce T r = (b, r1)" by fastforce
    show ?thesis
    proof (cases b)
      case False
      with less.prems t True have "h' = h" by (simp add: collect_step)
      then show ?thesis using less.prems by (intro exI [of _ old]) (cases h, auto simp: fun_upd_idem)
    next
      case b: True
      let ?part = "take ?w (g_rxScratch r1)"
      let ?new = "take k old @ ?part @ drop (k + length ?part) old"
      have w: "0 < ?w" "?w \<le> len - k" "?w \<le> kLuckfoxSpiChunkBytes"
        using True by (auto simp: wanted_min kLuckfoxSpiChunkBytes_def)
      then have part: "length ?part = ?w" using transact_True t b by simp
      have c: "collect T a len (k + ?w) r1 (heap_write a k ?part h) = (ok, r', h')"
        using less.prems(1) True t b by (simp add: collect_step)
      have "len - (k + ?w) < len - k" "k + ?w \<le> len" using True w by linarith+
      then obtain data where d: "length data = len"
          "h' = (heap_write a k ?part h)\<lparr>mem := (mem (heap_write a k ?part h))(a \<mapsto> data)\<rparr>"
        using less.hyps [OF _ c, of ?new] less.prems(2,3) part by (auto simp: heap_write_mem)
      then show ?thesis
        using less.prems by (intro exI [of _ data]) (simp add: heap_write_mem)
    qed
  qed
qed

end

context spi_link
begin

lemma collect_chunks:
  assumes "pend (sp_link r) = map Some cs @ rest" and "list_all (\<lambda>c. length c = kLuckfoxSpiChunkBytes) cs"
    and "length cs = (len - k + 3999) div 4000" and "mem h a = Some old" and "length old = len" and "k \<le> len"
  shows "\<exists>r'. collect T a len k r h =
      (True, r', h\<lparr>mem := (mem h)(a \<mapsto> take k old @ take (len - k) (concat cs))\<rparr>) \<and>
    pend (sp_link r') = rest \<and> noSyncRun r' = noSyncRun r"
  using assms
proof (induction cs arbitrary: k r h old)
  case Nil
  then have "k = len" by simp
  then show ?case using Nil by (auto simp: collect_end fun_upd_idem)
next
  case (Cons c cs)
  have lt: "k < len" using Cons.prems(3,6) by (cases "k = len") auto
  let ?w = "wanted (len - k)"
  have w: "?w = min 4000 (len - k)" "length c = 4000"
    using Cons.prems(2) by (simp_all add: wanted_min kLuckfoxSpiChunkBytes_def)
  obtain t where t: "transactOnce T r = (True, r\<lparr>sp_link := t, g_rxScratch := c\<rparr>)" "pend t = map Some cs @ rest"
    using transact_Some [of r c "map Some cs @ rest"] Cons.prems(1) by auto
  let ?r = "r\<lparr>sp_link := t, g_rxScratch := c\<rparr>"
  let ?old = "take k old @ take ?w c @ drop (k + ?w) old"
  let ?h = "h\<lparr>mem := (mem h)(a \<mapsto> ?old)\<rparr>"
  have step: "collect T a len k r h = collect T a len (k + ?w) ?r ?h"
    using lt Cons.prems(4) w by (simp add: collect_step t heap_write_mem)
  have n: "length cs = (len - (k + ?w) + 3999) div 4000"
    using chunk_count_Cons [of "len - k" c cs] lt Cons.prems(3) by (simp add: w(1) diff_diff_left [symmetric] del: diff_diff_left)
  have le: "k + ?w \<le> len" "length ?old = len" using w lt Cons.prems(5) by (auto simp: min_def)
  have new: "take (k + ?w) ?old @ take (len - (k + ?w)) (concat cs) =
      take k old @ take (len - k) (concat (c # cs))"
    using Cons.prems(5,6) w lt by (auto simp: min_def)
  have "list_all (\<lambda>c. length c = kLuckfoxSpiChunkBytes) cs" "pend (sp_link ?r) = map Some cs @ rest"
      "mem ?h a = Some ?old"
    using Cons.prems(2) t(2) by simp_all
  from Cons.IH [OF this(2,1) n this(3) le(2,1)] obtain r' where r':
      "collect T a len (k + ?w) ?r ?h = (True, r', ?h\<lparr>mem := (mem ?h)(a \<mapsto>
         take k old @ take (len - k) (concat (c # cs)))\<rparr>)"
      "pend (sp_link r') = rest" "noSyncRun r' = noSyncRun ?r"
    unfolding new by blast
  have "noSyncRun r' = noSyncRun r" using r'(3) by simp
  with r'(1,2) show ?case
    unfolding step heap_twice by blast
qed

lemma drain_chunks:
  assumes "pend (sp_link r) = map Some cs @ rest" and "length cs = (n + 3999) div 4000"
  shows "pend (sp_link (spi_drain T n r)) = rest \<and> noSyncRun (spi_drain T n r) = noSyncRun r"
  using assms
proof (induction cs arbitrary: n r)
  case Nil
  then have "n = 0" by (simp add: div_eq_0_iff)
  with Nil show ?case by (simp add: drain_end)
next
  case (Cons c cs)
  have nz: "n \<noteq> 0" using Cons.prems(2) by (cases n) auto
  obtain t where t: "transactOnce T r = (True, r\<lparr>sp_link := t, g_rxScratch := c\<rparr>)" "pend t = map Some cs @ rest"
    using transact_Some [of r c "map Some cs @ rest"] Cons.prems(1) by auto
  have "length cs = (n - wanted n + 3999) div 4000"
    using chunk_count_Cons [of n c cs] nz Cons.prems(2) by (simp add: wanted_min)
  then show ?case
    using Cons.IH [of "r\<lparr>sp_link := t, g_rxScratch := c\<rparr>" "n - wanted n"] nz t by (simp add: drain_step)
qed

end

section \<open>What the sender clocks\<close>

text \<open>The chunks of a payload: as many as it needs, the last one padded.\<close>

definition carries :: "bytes list \<Rightarrow> bytes \<Rightarrow> bool" where
  "carries cs data \<longleftrightarrow> list_all (\<lambda>c. length c = kLuckfoxSpiChunkBytes) cs \<and>
     length cs = (length data + 3999) div 4000 \<and> take (length data) (concat cs) = data"

text \<open>A header that announces \<open>n\<close> bytes of image, or a reading.\<close>

definition frame_header :: "WireHeader \<Rightarrow> nat \<Rightarrow> bool" where
  "frame_header hdr n \<longleftrightarrow> wh_magic hdr = kMagic \<and> wh_msg_type hdr \<noteq> kMsgStatus \<and>
     unat (wh_data_len hdr) = n \<and> 1 \<le> n \<and> n \<le> kVideoMaxFrameBytes"

definition status_header :: "WireHeader \<Rightarrow> bool" where
  "status_header hdr \<longleftrightarrow> wh_magic hdr = kMagic \<and> wh_msg_type hdr = kMsgStatus \<and>
     wh_data_len hdr = of_nat sizeof_LaneStatusWire"

text \<open>What becomes of a complete frame in buffer \<open>a\<close>, and of a reading.\<close>

definition on_frame :: "'w spi_callbacks \<Rightarrow> WireHeader \<Rightarrow> addr \<Rightarrow> 'w \<times> heap \<Rightarrow> 'w \<times> heap" where
  "on_frame cb hdr a = (\<lambda>(w, h).
     case g_onFrame cb of
       None \<Rightarrow> (w, heap_caps_free a h)
     | Some f \<Rightarrow> f (wh_stream_id hdr) (wh_seq hdr) a (wh_data_len hdr) (w, h))"

definition on_status :: "'w spi_callbacks \<Rightarrow> WireHeader \<Rightarrow> LaneStatusWire \<Rightarrow> 'w \<Rightarrow> 'w" where
  "on_status cb hdr l w =
     (case g_onStatus cb of
        None \<Rightarrow> w
      | Some f \<Rightarrow> f (wh_stream_id hdr) (ls_occupied l) ((ls_plate l)[kMaxPlateLen := 0]) w)"

definition bad_header :: "WireHeader \<Rightarrow> bool" where
  "bad_header hdr \<longleftrightarrow>
     (if wh_msg_type hdr = kMsgStatus then wh_data_len hdr \<noteq> of_nat sizeof_LaneStatusWire
      else wh_data_len hdr = 0 \<or> kVideoMaxFrameBytes < unat (wh_data_len hdr))"

lemma frame_header_type:
  "frame_header hdr n \<Longrightarrow> wh_msg_type hdr \<noteq> kMsgStatus \<and> wh_data_len hdr \<noteq> 0 \<and>
     \<not> kVideoMaxFrameBytes < unat (wh_data_len hdr)"
  by (auto simp: frame_header_def)

context spi_link
begin

lemma pass_frame:
  assumes "allocator A" and "frame_header hdr (length data)" and "carries cs data"
    and "pend (sp_link r) = noise @ Some (enc_wire_header hdr @ pad) # map Some cs @ rest"
    and "list_all no_hdr noise" and "spi_alloc A (length data) h = (Some a, h1)"
  shows "\<exists>r'. receiver_pass T clk A cb (r, w, h) = Some (r', on_frame cb hdr a (w, h\<lparr>mem := (mem h)(a \<mapsto> data)\<rparr>)) \<and>
    pend (sp_link r') = rest \<and> noSyncRun r' = 0"
proof -
  obtain r1 where r1: "wait_header T clk r = Some (hdr, r1)" "pend (sp_link r1) = map Some cs @ rest"
      "noSyncRun r1 = 0"
    using wait_skips [OF assms(4,5)] assms(2) by (auto simp: frame_header_def)
  have len: "unat (wh_data_len hdr) = length data" using assms(2) by (simp add: frame_header_def)
  obtain bs where bs: "length bs = length data" "h1 = h\<lparr>mem := (mem h)(a \<mapsto> bs)\<rparr>"
    using allocator.alloc_Some [OF assms(1), of "length data" h a h1] assms(6) by (auto simp: spi_alloc_eq)
  obtain r' where r': "collect T a (length data) 0 r1 h1 = (True, r', h1\<lparr>mem := (mem h1)(a \<mapsto> data)\<rparr>)"
      "pend (sp_link r') = rest" "noSyncRun r' = 0"
    using collect_chunks [OF r1(2), of "length data" 0 h1 a bs] assms(3) bs r1(3) by (auto simp: carries_def)
  have "receive_frame T A cb hdr r1 (w, h) = (r', on_frame cb hdr a (w, h\<lparr>mem := (mem h)(a \<mapsto> data)\<rparr>))"
    using r'(1) bs(2) by (simp add: receive_frame_def on_frame_def len assms(6) split: option.split)
  then show ?thesis
    using frame_header_type [OF assms(2)] r' r1(1) by (auto simp: receiver_pass_def)
qed

lemma pass_no_buffer:
  assumes "allocator A" and "frame_header hdr n" and "length cs = (n + 3999) div 4000"
    and "pend (sp_link r) = noise @ Some (enc_wire_header hdr @ pad) # map Some cs @ rest"
    and "list_all no_hdr noise" and "fst (spi_alloc A n h) = None"
  shows "\<exists>r'. receiver_pass T clk A cb (r, w, h) = Some (r', w, h) \<and> pend (sp_link r') = rest \<and> noSyncRun r' = 0"
proof -
  obtain r1 where r1: "wait_header T clk r = Some (hdr, r1)" "pend (sp_link r1) = map Some cs @ rest"
      "noSyncRun r1 = 0"
    using wait_skips [OF assms(4,5)] assms(2) by (auto simp: frame_header_def)
  have a: "spi_alloc A n h = (None, h)"
    using assms(6) allocator.alloc_None [OF assms(1)] by (cases "spi_alloc A n h") (auto simp: spi_alloc_eq)
  have "receive_frame T A cb hdr r1 (w, h) = (spi_drain T n r1, w, h)"
    using assms(2) by (simp add: receive_frame_def a frame_header_def)
  then show ?thesis
    using frame_header_type [OF assms(2)] drain_chunks [OF r1(2) assms(3)] r1 by (auto simp: receiver_pass_def)
qed

lemma pass_status:
  assumes "status_header hdr" and "length (ls_plate l) = kMaxPlateLen + 1"
    and "pend (sp_link r) = noise @ Some (enc_wire_header hdr @ pad) # Some (enc_lane_status l @ pad') # rest"
    and "list_all no_hdr noise"
  shows "\<exists>r'. receiver_pass T clk A cb (r, w, h) =
      Some (r', on_status cb hdr l w, h) \<and>
    pend (sp_link r') = rest \<and> noSyncRun r' = 0"
proof -
  obtain r1 where r1: "wait_header T clk r = Some (hdr, r1)"
      "pend (sp_link r1) = Some (enc_lane_status l @ pad') # rest" "noSyncRun r1 = 0"
    using wait_skips [OF assms(3,4)] assms(1) by (auto simp: status_header_def)
  obtain t where t: "transactOnce T r1 = (True, r1\<lparr>sp_link := t, g_rxScratch := enc_lane_status l @ pad'\<rparr>)"
      "pend t = rest"
    using transact_Some [OF r1(2)] by auto
  have "receive_status T cb hdr r1 w = (r1\<lparr>sp_link := t, g_rxScratch := enc_lane_status l @ pad'\<rparr>, on_status cb hdr l w)"
    using assms(2) by (simp add: receive_status_def on_status_def t(1) Let_def split: option.split)
  then show ?thesis
    using r1 t(2) assms(1) by (auto simp: receiver_pass_def status_header_def)
qed

lemma pass_bad:
  assumes "wh_magic hdr = kMagic" and "bad_header hdr"
    and "pend (sp_link r) = noise @ Some (enc_wire_header hdr @ pad) # rest" and "list_all no_hdr noise"
  shows "\<exists>r'. receiver_pass T clk A cb (r, w, h) = Some (r', w, h) \<and> pend (sp_link r') = rest \<and> noSyncRun r' = 0"
proof -
  obtain r1 where "wait_header T clk r = Some (hdr, r1)" "pend (sp_link r1) = rest" "noSyncRun r1 = 0"
    using wait_skips [OF assms(3,4)] assms(1) by auto
  then show ?thesis using assms(2) by (simp add: receiver_pass_def bad_header_def)
qed

end

section \<open>The receiver delivers what is sent\<close>

text \<open>A message of the camera board: an image with its chunks, a reading, a header out of bounds.\<close>

datatype spi_msg =
    Image WireHeader "bytes list"
  | Reading WireHeader LaneStatusWire bytes
  | Refused WireHeader

fun msg_header :: "spi_msg \<Rightarrow> WireHeader" where
  "msg_header (Image hdr cs) = hdr"
| "msg_header (Reading hdr l pad) = hdr"
| "msg_header (Refused hdr) = hdr"

fun msg_chunks :: "spi_msg \<Rightarrow> bytes list" where
  "msg_chunks (Image hdr cs) = cs"
| "msg_chunks (Reading hdr l pad) = [enc_lane_status l @ pad]"
| "msg_chunks (Refused hdr) = []"

text \<open>Its transactions, after the noise before it.\<close>

fun msg_txns :: "bytes option list \<times> bytes \<times> spi_msg \<Rightarrow> bytes option list" where
  "msg_txns (noise, pad, m) = noise @ Some (enc_wire_header (msg_header m) @ pad) # map Some (msg_chunks m)"

fun msg_ok :: "bytes option list \<times> bytes \<times> spi_msg \<Rightarrow> bool" where
  "msg_ok (noise, pad, m) \<longleftrightarrow> list_all no_hdr noise \<and>
     (case m of
        Image hdr cs \<Rightarrow> frame_header hdr (unat (wh_data_len hdr)) \<and>
          list_all (\<lambda>c. length c = kLuckfoxSpiChunkBytes) cs \<and>
          length cs = (unat (wh_data_len hdr) + 3999) div 4000
      | Reading hdr l pad' \<Rightarrow> status_header hdr \<and> length (ls_plate l) = kMaxPlateLen + 1
      | Refused hdr \<Rightarrow> wh_magic hdr = kMagic \<and> bad_header hdr)"

text \<open>What the board should make of it.\<close>

fun deliver :: "alloc \<Rightarrow> 'w spi_callbacks \<Rightarrow> spi_msg \<Rightarrow> 'w \<times> heap \<Rightarrow> 'w \<times> heap" where
  "deliver A cb (Image hdr cs) (w, h) =
     (case fst (spi_alloc A (unat (wh_data_len hdr)) h) of
        None \<Rightarrow> (w, h)
      | Some a \<Rightarrow> on_frame cb hdr a
          (w, h\<lparr>mem := (mem h)(a \<mapsto> take (unat (wh_data_len hdr)) (concat cs))\<rparr>))"
| "deliver A cb (Reading hdr l pad) (w, h) = (on_status cb hdr l w, h)"
| "deliver A cb (Refused hdr) (w, h) = (w, h)"

lemma carries_take:
  assumes "list_all (\<lambda>c. length c = kLuckfoxSpiChunkBytes) cs" and "length cs = (n + 3999) div 4000"
  shows "length (take n (concat cs)) = n \<and> carries cs (take n (concat cs))"
proof -
  have "length (concat cs) = 4000 * length cs"
    using assms(1) by (induction cs) (auto simp: kLuckfoxSpiChunkBytes_def)
  then have "n \<le> length (concat cs)" using assms(2) by simp
  then show ?thesis using assms by (simp add: carries_def min_def)
qed

context spi_link
begin

lemma pass_msg:
  assumes "allocator A" and "msg_ok (noise, pad, m)" and "pend (sp_link r) = msg_txns (noise, pad, m) @ rest"
  shows "\<exists>r'. receiver_pass T clk A cb (r, w, h) = Some (r', deliver A cb m (w, h)) \<and> pend (sp_link r') = rest"
proof (cases m)
  case (Image hdr cs)
  let ?n = "unat (wh_data_len hdr)"
  have hdr: "frame_header hdr ?n" "length cs = (?n + 3999) div 4000" "list_all no_hdr noise"
    using assms(2) Image by simp_all
  have d: "length (take ?n (concat cs)) = ?n" "carries cs (take ?n (concat cs))"
    using assms(2) Image carries_take by auto
  have p: "pend (sp_link r) = noise @ Some (enc_wire_header hdr @ pad) # map Some cs @ rest"
    using assms(3) Image by simp
  obtain o1 h1 where a: "spi_alloc A ?n h = (o1, h1)" by fastforce
  show ?thesis
  proof (cases o1)
    case None
    with a have "fst (spi_alloc A ?n h) = None" by simp
    from pass_no_buffer [OF assms(1) hdr(1,2) p hdr(3) this, of clk cb w]
    obtain r' where "receiver_pass T clk A cb (r, w, h) = Some (r', w, h)" "pend (sp_link r') = rest"
      by (elim exE conjE)
    then show ?thesis using a None Image by simp
  next
    case (Some x)
    have fh: "frame_header hdr (length (take ?n (concat cs)))" unfolding d(1) by (rule hdr(1))
    have al: "spi_alloc A (length (take ?n (concat cs))) h = (Some x, h1)"
      unfolding d(1) using a Some by simp
    from pass_frame [OF assms(1) fh d(2) p hdr(3) al, of clk cb w]
    obtain r' where "receiver_pass T clk A cb (r, w, h) =
        Some (r', on_frame cb hdr x (w, h\<lparr>mem := (mem h)(x \<mapsto> take ?n (concat cs))\<rparr>))"
        "pend (sp_link r') = rest"
      by (elim exE conjE)
    then show ?thesis using a Some Image by simp
  qed
next
  case (Reading hdr l pad')
  then show ?thesis
    using pass_status [of hdr l r noise pad pad' rest] assms(2,3) by fastforce
next
  case (Refused hdr)
  then show ?thesis
    using pass_bad [of hdr r noise pad rest] assms(2,3) by fastforce
qed

lemma task_delivers:
  assumes "allocator A" and "list_all msg_ok ms" and "pend (sp_link r) = concat (map msg_txns ms) @ rest"
  shows "\<exists>r'. receiver_task (length ms) T clk A cb (r, w, h) =
      Some (r', fold (deliver A cb) (map (snd \<circ> snd) ms) (w, h)) \<and> pend (sp_link r') = rest"
  using assms(2,3)
proof (induction ms arbitrary: r w h)
  case Nil
  then show ?case by simp
next
  case (Cons m ms)
  obtain noise pad x where m: "m = (noise, pad, x)" by (cases m)
  obtain r1 where r1: "receiver_pass T clk A cb (r, w, h) = Some (r1, deliver A cb x (w, h))"
      "pend (sp_link r1) = concat (map msg_txns ms) @ rest"
    using pass_msg [OF assms(1), of noise pad x r "concat (map msg_txns ms) @ rest" clk cb w h] Cons.prems m by auto
  obtain w1 h1 where d: "deliver A cb x (w, h) = (w1, h1)" by fastforce
  show ?case
    using Cons.IH [of r1 w1 h1] Cons.prems r1 by (auto simp: m d)
qed

end

section \<open>Whatever the link does\<close>

lemma free_fresh:
  "mem h a = None \<Longrightarrow> heap_caps_free a (h\<lparr>mem := (mem h)(a \<mapsto> x)\<rparr>) = h"
  by (cases h) (auto simp: heap_caps_free_def fun_upd_idem)

context spi_slave
begin

lemma frame_cases:
  assumes "allocator A" and "receive_frame T A cb hdr r (w, h) = (r', w', h')"
  shows "(w', h') = (w, h) \<or>
    (\<exists>a data h1. spi_alloc A (unat (wh_data_len hdr)) h = (Some a, h1) \<and>
       length data = unat (wh_data_len hdr) \<and>
       (w', h') = on_frame cb hdr a (w, h\<lparr>mem := (mem h)(a \<mapsto> data)\<rparr>))"
proof -
  let ?n = "unat (wh_data_len hdr)"
  obtain o1 h1 where a: "spi_alloc A ?n h = (o1, h1)" by fastforce
  show ?thesis
  proof (cases o1)
    case None
    then have "h1 = h" using a allocator.alloc_None [OF assms(1)] by (auto simp: spi_alloc_eq)
    then show ?thesis using assms(2) a None by (simp add: receive_frame_def)
  next
    case (Some x)
    then obtain bs where bs: "mem h x = None" "length bs = ?n" "h1 = h\<lparr>mem := (mem h)(x \<mapsto> bs)\<rparr>"
      using a allocator.alloc_Some [OF assms(1), of ?n h x h1] by (auto simp: spi_alloc_eq)
    obtain ok r1 h2 where c: "collect T x ?n 0 r h1 = (ok, r1, h2)" using prod_cases3 by blast
    obtain data where d: "length data = ?n" "h2 = h\<lparr>mem := (mem h)(x \<mapsto> data)\<rparr>"
      using collect_frame [OF c] bs by auto
    show ?thesis
    proof (cases ok)
      case False
      then show ?thesis using assms(2) a Some c d(2) free_fresh [OF bs(1)] by (simp add: receive_frame_def)
    next
      case True
      then have "(w', h') = on_frame cb hdr x (w, h\<lparr>mem := (mem h)(x \<mapsto> data)\<rparr>)"
        using assms(2) a Some c d(2) by (auto simp: receive_frame_def on_frame_def split: option.splits)
      then show ?thesis using a Some d(1) by blast
    qed
  qed
qed

lemma status_cases:
  assumes "receive_status T cb hdr r w = (r', w')"
  shows "w' = w \<or> (\<exists>l. length (ls_plate l) = kMaxPlateLen + 1 \<and> w' = on_status cb hdr l w)"
proof -
  obtain b r1 where t: "transactOnce T r = (b, r1)" by fastforce
  show ?thesis
  proof (cases b)
    case True
    then have "length (g_rxScratch r1) = 4000" using transact_True t by (simp add: kLuckfoxSpiChunkBytes_def)
    then have "length (ls_plate (dec_lane_status (g_rxScratch r1))) = kMaxPlateLen + 1"
      by (simp add: dec_lane_status_def kMaxPlateLen_def)
    moreover have "w' = on_status cb hdr (dec_lane_status (g_rxScratch r1)) w"
      using assms t True by (auto simp: receive_status_def on_status_def Let_def split: option.splits)
    ultimately show ?thesis by blast
  qed (use assms t in \<open>simp add: receive_status_def\<close>)
qed

text \<open>A pass changes nothing, hands over one reading, or hands over one complete frame.\<close>

lemma pass_cases:
  assumes "allocator A" and "receiver_pass T clk A cb (r, w, h) = Some (r', w', h')"
  shows "(w', h') = (w, h) \<or>
    (\<exists>hdr l. length (ls_plate l) = kMaxPlateLen + 1 \<and> w' = on_status cb hdr l w \<and> h' = h) \<or>
    (\<exists>hdr a data h1. in_bounds (wh_data_len hdr) \<and> spi_alloc A (unat (wh_data_len hdr)) h = (Some a, h1) \<and>
       length data = unat (wh_data_len hdr) \<and>
       (w', h') = on_frame cb hdr a (w, h\<lparr>mem := (mem h)(a \<mapsto> data)\<rparr>))"
proof -
  obtain hdr r1 where w: "wait_header T clk r = Some (hdr, r1)"
    using assms(2) by (auto simp: receiver_pass_def split: option.splits)
  consider "bad_header hdr" | "\<not> bad_header hdr" "wh_msg_type hdr = kMsgStatus"
    | "\<not> bad_header hdr" "wh_msg_type hdr \<noteq> kMsgStatus" by blast
  then show ?thesis
  proof cases
    case 1
    then show ?thesis using assms(2) w by (auto simp: receiver_pass_def bad_header_def split: if_splits)
  next
    case 2
    then obtain w1 where "receive_status T cb hdr r1 w = (r', w1)" "w' = w1" "h' = h"
      using assms(2) w by (auto simp: receiver_pass_def bad_header_def split: prod.splits)
    then show ?thesis using status_cases [of cb hdr r1 w r' w1] by auto
  next
    case 3
    then have "receive_frame T A cb hdr r1 (w, h) = (r', w', h')"
      using assms(2) w by (auto simp: receiver_pass_def bad_header_def)
    moreover have "in_bounds (wh_data_len hdr)"
      using 3 by (auto simp: bad_header_def in_bounds_def Suc_le_eq unat_gt_0)
    ultimately show ?thesis using frame_cases [OF assms(1), of cb hdr r1 w h r' w' h'] by blast
  qed
qed

end

section \<open>Properties\<close>

text \<open>C9: The receiver makes of what the camera board clocks exactly what it should: every image
  reaches the frame callback whole in a buffer of its own (or is dropped when there is no
  memory), every reading the status callback with its plate terminated, headers out of bounds
  are skipped; phantom and failed transactions between the messages do no harm, and the
  receiver is in step after every one of them.\<close>

theorem spi_messages_delivered:
  assumes "spi_link T pend" and "allocator A" and "list_all msg_ok ms"
    and "pend (sp_link r) = concat (map msg_txns ms) @ rest"
  shows "\<exists>r'. receiver_task (length ms) T clk A cb (r, w, h) =
      Some (r', fold (deliver A cb) (map (snd \<circ> snd) ms) (w, h)) \<and> pend (sp_link r') = rest"
  by (rule spi_link.task_delivers [OF assms])

text \<open>Callbacks that note the bytes of a frame or a reading, and free the frame.\<close>

definition note_callbacks :: "(u8 \<times> bytes) list spi_callbacks" where
  "note_callbacks = \<lparr>
     g_onFrame = Some (\<lambda>sid sq a len (w, h). (w @ [(sid, heap_read a h)], heap_caps_free a h)),
     g_onStatus = Some (\<lambda>sid oc pl w. w @ [(sid, oc # c_str pl)])\<rparr>"

definition image3 :: WireHeader where
  "image3 = \<lparr>wh_magic = kMagic, wh_msg_type = kMsgVideo, wh_stream_id = 2, wh_seq = 7, wh_data_len = 3\<rparr>"

definition reading1 :: WireHeader where
  "reading1 = \<lparr>wh_magic = kMagic, wh_msg_type = kMsgStatus, wh_stream_id = 1, wh_seq = 0, wh_data_len = 13\<rparr>"

definition some_messages :: "(bytes option list \<times> bytes \<times> spi_msg) list" where
  "some_messages =
     [([Some (to_chunk [255]), None], replicate 3988 0, Image image3 [to_chunk [9, 8, 7]]),
      ([], replicate 3988 0, Refused (image3\<lparr>wh_data_len := 0\<rparr>)),
      ([None], replicate 3988 0,
       Reading reading1 \<lparr>ls_occupied = 1, ls_plate = replicate 12 66\<rparr> (replicate 3987 0))]"

definition link_of :: "'a \<Rightarrow> 'a spi_rx" where
  "link_of t = \<lparr>sp_link = t, g_rxScratch = [], diagCount = 0, noSyncRun = 0, lastDiagUs = 0, sp_delayMs = 0\<rparr>"

lemma to_chunk_full: "length bs = kLuckfoxSpiChunkBytes \<Longrightarrow> to_chunk bs = bs"
  by (simp add: to_chunk_def)

theorem spi_messages_delivered_witness:
  "\<exists>r'. receiver_task 3 feed (\<lambda>_. 0) (pool_alloc 2) note_callbacks
      (link_of (concat (map msg_txns some_messages)), [], heap0) =
    Some (r', [(2, [9, 8, 7]), (1, 1 # replicate 11 66)], heap0)"
proof -
  let ?t = "concat (map msg_txns some_messages)"
  have ok: "list_all msg_ok some_messages"
    by (simp add: some_messages_def no_hdr_def frame_header_def status_header_def bad_header_def image3_def
        reading1_def dec_wire_header_def to_chunk_def le32_dec_def kMagic_def kMsgStatus_def kMsgVideo_def
        sizeof_LaneStatusWire_def config_defs)
  have clk: "map (map_option to_chunk) ?t = concat (map msg_txns some_messages) @ []"
    by (simp add: some_messages_def to_chunk_full sizeof_WireHeader_def enc_lane_status_def kLuckfoxSpiChunkBytes_def)
  have plate: "c_str ((replicate 12 66)[11 := 0]) = replicate 11 66"
    by code_simp
  have result: "fold (deliver (pool_alloc 2) note_callbacks) (map (snd \<circ> snd) some_messages) ([], heap0) =
      ([(2, [9, 8, 7]), (1, 1 # replicate 11 66)], heap0)"
    by (simp add: some_messages_def image3_def reading1_def to_chunk_def kLuckfoxSpiChunkBytes_def spi_alloc_def
        heap_caps_malloc_def pool_alloc_def heap0_def upt_rec on_frame_def on_status_def note_callbacks_def
        heap_read_def heap_caps_free_def plate kMaxPlateLen_def)
  have n: "length some_messages = 3" by (simp add: some_messages_def)
  show ?thesis
    using spi_messages_delivered [OF fed.spi_link_axioms pool_allocator ok, where r = "link_of ?t" and rest = "[]"
      and clk = "\<lambda>_. 0" and cb = note_callbacks and w = "[]" and h = heap0 and k1 = 2]
    by (auto simp: n clk result link_of_def)
qed

text \<open>C31: The wait for a header always ends when one comes, however long the line has been
  noisy; on the way it pauses 10 ms after every failed transaction and, from the 101st
  transaction in a row that was no header, 5 ms after each of them: without a camera board
  the receiver makes at most two hundred transactions per second.\<close>

theorem spi_wait_paced:
  assumes "spi_link T pend" and "pend (sp_link r) = noise @ Some hc # rest" and "list_all no_hdr noise"
    and "wh_magic (dec_wire_header hc) = kMagic" and "noSyncRun r = 0" and "phantoms noise < 2 ^ 32"
  shows "\<exists>r'. wait_header T clk r = Some (dec_wire_header hc, r') \<and> pend (sp_link r') = rest \<and>
    noSyncRun r' = 0 \<and>
    sp_delayMs r' = sp_delayMs r + 10 * failures noise + 5 * (phantoms noise - 100)"
  using spi_link.wait_skips [OF assms(1-4)] assms(5,6) by fastforce

theorem spi_wait_paced_witness:
  "\<exists>r'. wait_header feed (\<lambda>_. 0)
      (link_of (replicate 150 (Some (to_chunk [])) @ [None, Some (to_chunk (enc_wire_header image3))])) =
    Some (image3, r') \<and> sp_delayMs r' = 260"
proof -
  let ?noise = "replicate 150 (Some (to_chunk [])) @ [None]"
  let ?r = "link_of (?noise @ [Some (to_chunk (enc_wire_header image3))])"
  have chunk: "to_chunk (enc_wire_header image3) = enc_wire_header image3 @ replicate 3988 0"
    by (simp add: to_chunk_def sizeof_WireHeader_def kLuckfoxSpiChunkBytes_def)
  have noise: "list_all no_hdr ?noise" "phantoms ?noise = 150" "failures ?noise = 1"
    by (simp_all add: no_hdr_def phantoms_def failures_def list_all_iff to_chunk_def dec_wire_header_def
        le32_dec_def kMagic_def kLuckfoxSpiChunkBytes_def)
  have pend: "map (map_option to_chunk) (sp_link ?r) = ?noise @ Some (to_chunk (enc_wire_header image3)) # []"
    by (simp add: link_of_def to_chunk_full)
  have hdr: "dec_wire_header (to_chunk (enc_wire_header image3)) = image3" unfolding chunk by simp
  then have magic: "wh_magic (dec_wire_header (to_chunk (enc_wire_header image3))) = kMagic"
    by (simp add: image3_def)
  have "noSyncRun ?r = 0" "sp_delayMs ?r = 0" "phantoms ?noise < 2 ^ 32"
    unfolding noise by (simp_all add: link_of_def)
  from spi_wait_paced [OF fed.spi_link_axioms pend noise(1) magic this(1,3), of "\<lambda>_. 0"] this(2)
  show ?thesis by (auto simp: hdr noise)
qed

end
