(* ===== verification/MainLoop.thy ===== *)
theory MainLoop
  imports ChainTrace Provision VideoRelay LuckfoxSpi
begin

text \<open>
  main/main.cpp: the modules put together on one board. \<open>app_main\<close> is the boot sequence, down
  to the \<open>board\<close> it starts or the way it ends; \<open>main_pass\<close> is one pass of its polling loop.
  What a node asked of other modules while it ran (its log of calls) is carried out here, in
  the order of the log (\<open>route_call\<close>). \<open>board_exec\<close> adds what the other tasks and callbacks
  of the board do. Everything that is not part of the repository is a field of \<open>platform\<close>.
\<close>

section \<open>The board\<close>

record ('p, 'r, 'q, 'fq, 'sq, 'vq, 't, 'c) platform =
  pf_rx :: "(RxItem, 'r) queue_ops"
  pf_out :: "(StatusPacket, 'q) queue_ops"
  pf_frames :: "(Frame, 'fq) queue_ops"
  pf_status :: "(StatusItem, 'sq) queue_ops"
  pf_video :: "(VideoItem, 'vq) queue_ops"
  pf_peers :: "'p peer_ops"
  pf_radio :: "mac \<Rightarrow> bytes \<Rightarrow> bool"      \<comment> \<open>result of \<open>esp_now_send\<close>\<close>
  pf_recv :: "'c receiver"
  pf_alloc :: alloc
  pf_spi :: "'t slave"
  pf_time :: "'t \<Rightarrow> int"

record ('p, 'r, 'q, 'fq, 'sq, 'vq) board =
  b_peers :: 'p
  b_radio :: "(mac \<times> bytes) list"     \<comment> \<open>the frames handed to the radio so far\<close>
  b_transport :: "('r, 'q node) transport"
  b_node :: "'q node"
  b_relay :: "'fq relay"
  b_uplink :: "('sq, 'vq) uplink"
  b_heap :: heap
  b_spiUp :: bool
  b_isGateway :: bool
  b_lastStatsMs :: u32

fun route_call ::
  "('p, 'r, 'q, 'fq, 'sq, 'vq, 't, 'c) platform \<Rightarrow> call \<Rightarrow>
     ('p, 'r, 'q, 'fq, 'sq, 'vq) board \<Rightarrow> ('p, 'r, 'q, 'fq, 'sq, 'vq) board" where
  "route_call pf (EspSend m f) b = b\<lparr>b_radio := b_radio b @ snd (espnow_send (pf_radio pf) m f)\<rparr>"
| "route_call pf (EspBroadcast f) b = b\<lparr>b_radio := b_radio b @ snd (sendBroadcast (pf_radio pf) f)\<rparr>"
| "route_call pf (EspAddPeer m) b = b\<lparr>b_peers := snd (addPeer (pf_peers pf) m (b_peers b))\<rparr>"
| "route_call pf EspSetRecvHandler b =
     b\<lparr>b_transport := setRecvHandler (onEspNowRecv (pf_out pf)) (b_transport b)\<rparr>"
| "route_call pf (UplinkFlush n st oc pl) b = b\<lparr>b_uplink := flush (pf_status pf) n st oc pl (b_uplink b)\<rparr>"
| "route_call pf (QueueSend p ok) b = b"
| "route_call pf (QueueReceive p) b = b"
| "route_call pf QueueNull b = b"

section \<open>The polling loop\<close>

text \<open>The statistics of \<open>now\<close>; the watchdog reads the clock again (\<open>us\<close>).\<close>

definition log_stats ::
  "u32 \<Rightarrow> int \<Rightarrow> ('p, 'r, 'q, 'fq, 'sq, 'vq) board \<Rightarrow> ('p, 'r, 'q, 'fq, 'sq, 'vq) board" where
  "log_stats now us b =
     (if kStatsLogIntervalMs \<le> now - b_lastStatsMs b then
        let b1 = b\<lparr>b_lastStatsMs := now\<rparr>
        in if b_isGateway b1 then b1\<lparr>b_uplink := fst (uplink_logStats us (b_uplink b1))\<rparr> else b1
      else b)"

definition main_pass ::
  "('p, 'r, 'q, 'fq, 'sq, 'vq, 't, 'c) platform \<Rightarrow> clock \<Rightarrow> int \<Rightarrow> int \<Rightarrow>
     ('p, 'r, 'q, 'fq, 'sq, 'vq) board \<Rightarrow> ('p, 'r, 'q, 'fq, 'sq, 'vq) board option" where
  "main_pass pf now us us' b =
     (case loop (pf_rx pf) (pf_out pf) now (b_transport b, b_node b) of
        None \<Rightarrow> None
      | Some (t, s) \<Rightarrow>
          (let b1 = fold (route_call pf) (new_calls (b_node b) s) (b\<lparr>b_transport := t, b_node := s\<rparr>)
           in Some (log_stats (nowMs us) us' b1)))"

section \<open>Boot\<close>

datatype nvs_result = NvsOk | NvsNoFreePages | NvsNewVersion | NvsOther

text \<open>The results of the calls of \<open>app_main\<close> into ESP-IDF.\<close>

record app_env =
  nvs_init :: nvs_result
  nvs_erase_ok :: bool
  nvs_init_again :: nvs_result
  netif_init_ok :: bool
  event_loop_ok :: bool
  boot_radio :: boot_env
  boot_eth :: eth_env
  ap_netif_found :: bool
  boot_spi :: spi_env

definition nvs_ready :: "app_env \<Rightarrow> bool" where
  "nvs_ready e \<longleftrightarrow>
     (if nvs_init e = NvsNoFreePages \<or> nvs_init e = NvsNewVersion
      then nvs_erase_ok e \<and> nvs_init_again e = NvsOk else nvs_init e = NvsOk)"

text \<open>What the SPI callbacks do: \<open>onLuckfoxFrame\<close> and \<open>chain_node::setLaneStatus\<close>.\<close>

definition board_callbacks ::
  "(Frame, 'fq) queue_ops \<Rightarrow> (VideoItem, 'vq) queue_ops \<Rightarrow>
     ('q node \<times> 'fq relay \<times> ('sq, 'vq) uplink) spi_callbacks" where
  "board_callbacks FQ VQ = \<lparr>
     g_onFrame = Some (\<lambda>sid sq a len ((s, v, u), h).
       case onLuckfoxFrame FQ VQ sid sq a len (v, u, h) of (v1, u1, h1) \<Rightarrow> ((s, v1, u1), h1)),
     g_onStatus = Some (\<lambda>sid oc pl (s, v, u). (setLaneStatus sid oc pl s, v, u))\<rparr>"

datatype ('b, 'n) app_result =
    BootAborted                \<comment> \<open>a failed \<open>ESP_ERROR_CHECK\<close>\<close>
  | BootRestarted 'n           \<comment> \<open>an identity was saved\<close>
  | BootWaiting 'n             \<comment> \<open>at the console\<close>
  | BootHalted                 \<comment> \<open>no ESP-NOW\<close>
  | BootRunning 'b

definition boot_board ::
  "('p, 'r, 'q, 'fq, 'sq, 'vq, 't, 'c) platform \<Rightarrow> app_env \<Rightarrow> clock \<Rightarrow> u8 \<Rightarrow> u8 \<Rightarrow> 'p \<Rightarrow>
     ('r, 'q node) transport \<Rightarrow> ('p, 'r, 'q, 'fq, 'sq, 'vq) board" where
  "boot_board pf e now nodeId chainSize p t =
     (let gw = (nodeId = kGatewayNodeId);
          u = (if gw then fst (snd (uplink_init (pf_status pf) (pf_video pf) (boot_eth e) uplink0)) else uplink0);
          s = chain_init (pf_out pf) now nodeId chainSize node0;
          v = fst (relay_init (pf_frames pf) (ap_netif_found e) nodeId chainSize gw relay0);
          cb = board_callbacks (pf_frames pf) (pf_video pf) :: ('q node \<times> 'fq relay \<times> ('sq, 'vq) uplink) spi_callbacks;
          up = (\<not> kChainSelfTest \<and> fst (spi_init (boot_spi e) (g_onFrame cb) (g_onStatus cb)))
      in fold (route_call pf) (calls s)
           \<lparr>b_peers = p, b_radio = [], b_transport = t, b_node = s, b_relay = v, b_uplink = u, b_heap = heap0,
            b_spiUp = up, b_isGateway = gw, b_lastStatsMs = 0\<rparr>)"

definition app_main ::
  "('p, 'r, 'q, 'fq, 'sq, 'vq, 't, 'c) platform \<Rightarrow> 'n nvs_ops \<Rightarrow> (int \<Rightarrow> int) \<Rightarrow> app_env \<Rightarrow> clock \<Rightarrow> 'p \<Rightarrow>
     'n \<Rightarrow> bytes option list \<Rightarrow> (('p, 'r, 'q, 'fq, 'sq, 'vq) board, 'n) app_result" where
  "app_main pf V conv e now p n console =
     (if \<not> nvs_ready e then BootAborted
      else if \<not> netif_init_ok e \<or> \<not> event_loop_ok e then BootAborted
      else case loadOrProvision V conv n console of
        Aborted \<Rightarrow> BootAborted
      | Restarted n' \<Rightarrow> BootRestarted n'
      | Waiting n' \<Rightarrow> BootWaiting n'
      | Ready nodeId chainSize \<Rightarrow>
          (case espnow_init (pf_rx pf) (pf_peers pf) (boot_radio e) p \<lparr>g_rxQueue = None, g_handler = None\<rparr> of
             (False, _) \<Rightarrow> BootHalted
           | (True, _, p1, t1) \<Rightarrow> BootRunning (boot_board pf e now nodeId chainSize p1 t1)))"

section \<open>Everything that can happen on a board\<close>

datatype ('t, 'c) board_event =
    MainPass clock int int            \<comment> \<open>a pass of the polling loop\<close>
  | WifiRecv mac bytes int            \<comment> \<open>\<open>onDataRecv\<close>\<close>
  | SpiPass "'t spi_rx"               \<comment> \<open>a pass of the SPI receiver task\<close>
  | VideoEv "'c relay_event"          \<comment> \<open>the tasks and callbacks of the video relay and the uplink\<close>

text \<open>
  The events of the video relay and the uplink that happen by themselves: readings and
  statistics come from the polling loop, frames of the camera board from the SPI receiver,
  the client runs on relays only, the uplink's tasks on the Gateway only.
\<close>

definition runs :: "bool \<Rightarrow> 'c relay_event \<Rightarrow> bool" where
  "runs gw ev \<longleftrightarrow>
     (case ev of
        EvLuckfox _ _ _ \<Rightarrow> False
      | EvSelfTest _ _ \<Rightarrow> kChainSelfTest
      | EvConnect \<Rightarrow> \<not> gw | EvLost \<Rightarrow> \<not> gw | EvClient _ _ \<Rightarrow> \<not> gw
      | EvUplink e \<Rightarrow> gw \<and>
          (case e of EvFlush _ _ _ _ \<Rightarrow> False | EvVideo _ _ _ _ _ \<Rightarrow> False | EvStats _ \<Rightarrow> False | _ \<Rightarrow> True)
      | _ \<Rightarrow> True)"

fun board_exec ::
  "('p, 'r, 'q, 'fq, 'sq, 'vq, 't, 'c) platform \<Rightarrow> ('t, 'c) board_event \<Rightarrow>
     ('p, 'r, 'q, 'fq, 'sq, 'vq) board \<Rightarrow> ('p, 'r, 'q, 'fq, 'sq, 'vq) board" where
  "board_exec pf (MainPass now us us') b = (case main_pass pf now us us' b of None \<Rightarrow> b | Some b' \<Rightarrow> b')"
| "board_exec pf (WifiRecv m f len) b = b\<lparr>b_transport := onDataRecv (pf_rx pf) m f len (b_transport b)\<rparr>"
| "board_exec pf (SpiPass r) b =
     (if \<not> b_spiUp b then b
      else case receiver_pass (pf_spi pf) (pf_time pf) (pf_alloc pf) (board_callbacks (pf_frames pf) (pf_video pf))
                  (r, (b_node b, b_relay b, b_uplink b), b_heap b) of
             None \<Rightarrow> b
           | Some (_, (s, v, u), h) \<Rightarrow> b\<lparr>b_node := s, b_relay := v, b_uplink := u, b_heap := h\<rparr>)"
| "board_exec pf (VideoEv ev) b =
     (if \<not> runs (b_isGateway b) ev then b
      else case relay_exec (pf_recv pf) (pf_alloc pf) (pf_frames pf) (pf_status pf) (pf_video pf) ev
                  (b_relay b, b_uplink b, b_heap b) of
             (v, u, h) \<Rightarrow> b\<lparr>b_relay := v, b_uplink := u, b_heap := h\<rparr>)"

end
