(* ===== verification/MainProps.thy ===== *)
theory MainProps
  imports MainLoop LuckfoxProps VideoProps ChainRun
begin

text \<open>
  The properties of a whole board. \<open>whole_board\<close> joins the contracts of everything the board
  uses; its invariant \<open>board_inv\<close> holds after the boot and after every event: buffers are owned
  by exactly one queued frame, every reading the chain has sunk is accounted for by the
  uplink, and the receive queue and its handler are in place.
\<close>

section \<open>What a node does to its log\<close>

definition sunk_ok :: "'q node \<Rightarrow> bool" where
  "sunk_ok s \<longleftrightarrow> g_statSunk s = of_nat (length (flushed s))"

definition grows :: "'q node \<Rightarrow> 'q node \<Rightarrow> bool" where
  "grows s s' \<longleftrightarrow> prefix (calls s) (calls s') \<and> (sunk_ok s \<longrightarrow> sunk_ok s')"

lemma grows_refl [simp]: "grows s s"
  by (simp add: grows_def)

lemma grows_trans: "grows s s' \<Longrightarrow> grows s' s'' \<Longrightarrow> grows s s''"
  unfolding grows_def by (meson prefix_order.trans)

lemma grows_calls: "grows s s' \<Longrightarrow> calls s' = calls s @ new_calls s s'"
  by (auto simp: grows_def new_calls_def prefix_def)

lemmas grows_defs = grows_def sunk_ok_def flushed_def flushed_of_append emit_def

lemma grows_hello: "grows s (loop_hello now s)"
  by (simp add: loop_hello_def broadcastHello_def grows_defs)

lemma grows_local: "grows s (loop_local Q now s)"
  by (auto simp: loop_local_def outQueueSend_def grows_defs Let_def split: option.split)

lemma grows_send: "grows s (loop_send Q now s)"
  by (auto simp: loop_send_def retransmit_def sendStatus_def outQueueReceive_def beginForwarding_def
      grows_defs Let_def split: option.split)

lemma grows_body: "grows s (loop_body Q now s)"
proof -
  have l: "grows s (loop_local Q now (loop_hello now s))"
    by (rule grows_trans [OF grows_hello grows_local])
  then have "grows s (loop_send Q now (loop_local Q now (loop_hello now s)))"
    by (rule grows_trans) (rule grows_send)
  with l show ?thesis by (simp add: loop_body_def grows_hello Let_def)
qed

lemma grows_recv: "grows s (onEspNowRecv Q m f s)"
proof -
  have "grows s (learnNext m h s)" "grows s (learnPrev m h s)" for h s
    by (simp_all add: learnNext_def learnPrev_def grows_defs)
  then have "grows s (learnPrev m h (learnNext m h s))" for h by (metis grows_trans)
  then have "grows s (handleHello m h s)" for h
    by (auto simp: handleHello_def Let_def grows_defs)
  moreover have "grows s (handleAck m a s)" for a
    by (simp add: handleAck_def grows_defs)
  moreover have "grows s (handleStatus Q m p s)" for p
    by (auto simp: handleStatus_def sendAck_def noteAccepted_def outQueueSend_def grows_defs Let_def
        split: option.split)
  ultimately show ?thesis by (simp add: onEspNowRecv_def)
qed

lemma grows_deliver: "grows s (deliver_all (onEspNowRecv Q) its s)"
  by (induction its arbitrary: s) (auto intro: grows_trans [OF grows_recv])

lemma lane_sunk:
  "sunk_ok (setLaneStatus sid oc pl s) = sunk_ok s" "flushed (setLaneStatus sid oc pl s) = flushed s"
  by (simp_all add: setLaneStatus_def grows_defs)

section \<open>Carrying out the calls\<close>

lemma route_uplink:
  "b_uplink (fold (route_call pf) cs b) =
     fold (\<lambda>(n, st, oc, pl). flush (pf_status pf) n st oc pl) (flushed_of cs) (b_uplink b)"
proof (induction cs arbitrary: b)
  case (Cons c cs)
  then show ?case by (cases c) simp_all
qed simp

lemma route_rest:
  "b_node (fold (route_call pf) cs b) = b_node b" "b_relay (fold (route_call pf) cs b) = b_relay b"
  "b_heap (fold (route_call pf) cs b) = b_heap b" "b_spiUp (fold (route_call pf) cs b) = b_spiUp b"
  "b_isGateway (fold (route_call pf) cs b) = b_isGateway b"
  "g_rxQueue (b_transport (fold (route_call pf) cs b)) = g_rxQueue (b_transport b)"
proof (induction cs arbitrary: b)
  case (Cons c cs)
  { case 1 show ?case using Cons(1) by (cases c) simp_all }
  { case 2 show ?case using Cons(2) by (cases c) simp_all }
  { case 3 show ?case using Cons(3) by (cases c) simp_all }
  { case 4 show ?case using Cons(4) by (cases c) simp_all }
  { case 5 show ?case using Cons(5) by (cases c) simp_all }
  { case 6 show ?case using Cons(6) by (cases c) (simp_all add: setRecvHandler_def) }
qed simp_all

lemma route_handler:
  "g_handler (b_transport (fold (route_call pf) cs b)) =
     (if EspSetRecvHandler \<in> set cs then Some (onEspNowRecv (pf_out pf)) else g_handler (b_transport b))"
proof (induction cs arbitrary: b)
  case (Cons c cs)
  then show ?case by (cases c) (simp_all add: setRecvHandler_def)
qed simp

text \<open>The frames a call hands to the radio.\<close>

fun on_radio :: "call \<Rightarrow> (mac \<times> bytes) list" where
  "on_radio (EspSend m f) = (if kMaxPacketBytes < length f then [] else [(m, f)])"
| "on_radio (EspBroadcast f) = (if kMaxPacketBytes < length f then [] else [(kBroadcastMac, f)])"
| "on_radio _ = []"

lemma route_radio: "b_radio (fold (route_call pf) cs b) = b_radio b @ concat (map on_radio cs)"
proof (induction cs arbitrary: b)
  case (Cons c cs)
  then show ?case by (cases c) (simp_all add: sendBroadcast_def espnow_send_def)
qed simp

section \<open>A board after its boot\<close>

lemma boot_calls:
  "calls (chain_init Q now nid n node0) = [EspSetRecvHandler, EspBroadcast (enc_hello (HelloPacket0\<lparr>hello_node_id := nid,
      hello_chain_size := n\<rparr>))]"
  by (simp add: chain_init_def broadcastHello_def emit_def node0_def Let_def)

lemma boot_board_parts:
  assumes "b = boot_board pf e now nid n p t"
  shows "b_node b = chain_init (pf_out pf) now nid n node0"
    and "b_relay b = fst (relay_init (pf_frames pf) (ap_netif_found e) nid n (nid = 0) relay0)"
    and "b_uplink b = (if nid = 0 then fst (snd (uplink_init (pf_status pf) (pf_video pf) (boot_eth e) uplink0)) else uplink0)"
    and "b_heap b = heap0" and "b_isGateway b = (nid = 0)"
    and "g_rxQueue (b_transport b) = g_rxQueue t" and "g_handler (b_transport b) = Some (onEspNowRecv (pf_out pf))"
    and "b_radio b = concat (map on_radio (calls (b_node b)))"
  by (simp_all add: assms boot_board_def Let_def route_rest route_uplink route_handler route_radio boot_calls
      kGatewayNodeId_def setRecvHandler_def sendBroadcast_def espnow_send_def)

lemma app_main_boots:
  assumes "app_main pf V conv e now p n console = BootRunning b"
  obtains i c p1 t1 rq where "b = boot_board pf e now i c p1 t1" "g_rxQueue t1 = Some rq"
    "q_create (pf_rx pf) kRxQueueDepth = Some rq"
proof -
  obtain i c cs p1 t1 where "espnow_init (pf_rx pf) (pf_peers pf) (boot_radio e) p \<lparr>g_rxQueue = None, g_handler = None\<rparr> =
      (True, cs, p1, t1)" and b: "b = boot_board pf e now i c p1 t1"
    using assms by (auto simp: app_main_def split: boot_result.splits prod.splits bool.splits if_splits)
  then show ?thesis by (auto simp: espnow_init_def Let_def split: if_splits intro: that)
qed

section \<open>Readings in the uplink\<close>

context uplink_queues
begin

lemma flush_all_ok:
  "status_ok n u \<Longrightarrow> status_ok (n + length rs) (fold (\<lambda>(n, st, oc, pl). flush SQ n st oc pl) rs u)"
proof (induction rs arbitrary: n u)
  case (Cons r rs)
  obtain a b c d where r: "r = (a, b, c, d)" by (cases r)
  show ?case using Cons.IH [OF flush_ok [OF Cons.prems], of a b c d] by (simp add: r)
qed simp

lemma enqueue_status: "status_ok n (fst (snd (enqueueOrDrop FQ VQ f (v, u, h)))) = status_ok n u"
  using status_ok_other(1)
  by (auto simp: enqueueOrDrop_def sinkFrame_def Let_def split: option.split prod.split)
    (metis fst_conv)+

lemma luckfox_status: "status_ok n (fst (snd (onLuckfoxFrame FQ VQ sid sq a len (v, u, h)))) = status_ok n u"
  by (simp add: onLuckfoxFrame_def enqueue_status)

end

section \<open>The invariant of a board\<close>

locale whole_board =
  video_board "pf_frames pf" fv fc fcap "pf_video pf" vv vc vcap "pf_alloc pf" +
  uplink_queues "pf_status pf" sv sc scap "pf_video pf" vv vc vcap +
  rx: rx_queue "pf_rx pf" rv rc rcap +
  tcp: tcp_stream "pf_recv pf" inb +
  spi: spi_slave "pf_spi pf"
  for pf :: "('p, 'r, 'q, 'fq, 'sq, 'vq, 't, 'c) platform"
    and fv fc fcap vv vc vcap sv sc scap rv rc rcap and inb :: "'c \<Rightarrow> bytes"
begin

definition rx_ok :: "('r, 'q node) transport \<Rightarrow> bool" where
  "rx_ok t \<longleftrightarrow> g_handler t = Some (onEspNowRecv (pf_out pf)) \<and>
     (\<exists>rq. g_rxQueue t = Some rq \<and> rx.qinv rq)"

definition board_inv :: "('p, 'r, 'q, 'fq, 'sq, 'vq) board \<Rightarrow> bool" where
  "board_inv b \<longleftrightarrow> board_ok (b_relay b, b_uplink b, b_heap b) \<and> sunk_ok (b_node b) \<and>
     status_ok (length (flushed (b_node b))) (b_uplink b) \<and> rx_ok (b_transport b)"

lemma board_ok_uplink:
  "board_ok (v, u, h) \<Longrightarrow> g_videoQueue u' = g_videoQueue u \<Longrightarrow> board_ok (v, u', h)"
  using uplink_same [of u' u] by (simp add: board_ok_def)

lemma flush_all_video:
  "g_videoQueue (fold (\<lambda>(n, st, oc, pl). flush (pf_status pf) n st oc pl) rs u) = g_videoQueue u"
proof (induction rs arbitrary: u)
  case (Cons r rs)
  obtain a b c d where r: "r = (a, b, c, d)" by (cases r)
  have "g_videoQueue (flush (pf_status pf) a b c d u) = g_videoQueue u"
    by (simp add: flush_def split: option.split)
  with Cons show ?case by (simp add: r)
qed simp

lemma stats_inv: "board_inv b \<Longrightarrow> board_inv (log_stats now us b)"
  by (simp add: board_inv_def log_stats_def Let_def status_ok_other)
    (auto intro: board_ok_uplink simp: uplink_logStats_def Let_def)

text \<open>A pass of the polling loop returns and keeps the invariant.\<close>

lemma main_pass_inv:
  assumes "board_inv b"
  shows "\<exists>b'. main_pass pf now us us' b = Some b' \<and> board_inv b' \<and> b_isGateway b' = b_isGateway b \<and>
    b_spiUp b' = b_spiUp b"
proof -
  obtain rq where t: "g_handler (b_transport b) = Some (onEspNowRecv (pf_out pf))"
      "g_rxQueue (b_transport b) = Some rq" "rx.qinv rq"
    using assms by (auto simp: board_inv_def rx_ok_def)
  let ?s = "loop_body (pf_out pf) now (deliver_all (onEspNowRecv (pf_out pf)) (rc rq) (b_node b))"
  obtain rq' where l: "loop (pf_rx pf) (pf_out pf) now (b_transport b, b_node b) =
      Some ((b_transport b)\<lparr>g_rxQueue := Some rq'\<rparr>, ?s)" "rx.qinv rq'"
    using rx.poll_drains [OF t(3,2,1), of "b_node b"] by (auto simp: loop_def)
  have g: "grows (b_node b) ?s" by (rule grows_trans [OF grows_deliver grows_body])
  let ?b = "b\<lparr>b_transport := (b_transport b)\<lparr>g_rxQueue := Some rq'\<rparr>, b_node := ?s\<rparr>"
  let ?cs = "new_calls (b_node b) ?s"
  let ?b1 = "fold (route_call pf) ?cs ?b"
  have fl: "flushed ?s = flushed (b_node b) @ flushed_of ?cs"
    using grows_calls [OF g] by (simp add: flushed_def flushed_of_append)
  have "board_inv ?b1"
    using assms g t(1) l(2) flush_all_ok [of "length (flushed (b_node b))" "b_uplink b" "flushed_of ?cs"]
    by (auto simp: board_inv_def rx_ok_def route_rest route_handler route_uplink fl grows_def
        intro: board_ok_uplink simp: flush_all_video)
  then have "board_inv (log_stats (nowMs us) us' ?b1)" by (rule stats_inv)
  moreover have "b_isGateway (log_stats (nowMs us) us' ?b1) = b_isGateway b"
      "b_spiUp (log_stats (nowMs us) us' ?b1) = b_spiUp b"
    by (simp_all add: log_stats_def route_rest Let_def)
  ultimately show ?thesis by (simp add: main_pass_def l(1) Let_def)
qed

lemma spi_pass_inv:
  assumes "board_inv b"
    and "receiver_pass (pf_spi pf) clk (pf_alloc pf) (board_callbacks (pf_frames pf) (pf_video pf))
      (r, (b_node b, b_relay b, b_uplink b), b_heap b) = Some (r', (s, v, u), h)"
  shows "board_inv (b\<lparr>b_node := s, b_relay := v, b_uplink := u, b_heap := h\<rparr>)"
proof -
  let ?cb = "board_callbacks (pf_frames pf) (pf_video pf) :: ('q node \<times> 'fq relay \<times> ('sq, 'vq) uplink) spi_callbacks"
  let ?w = "(b_node b, b_relay b, b_uplink b)"
  note ok = assms(1) [unfolded board_inv_def]
  from spi.pass_cases [OF allocator_axioms assms(2)]
  consider "(s, v, u) = ?w" "h = b_heap b"
    | hdr l where "(s, v, u) = on_status ?cb hdr l ?w" "h = b_heap b"
    | hdr a data h1 where "in_bounds (wh_data_len hdr)"
        "spi_alloc (pf_alloc pf) (unat (wh_data_len hdr)) (b_heap b) = (Some a, h1)"
        "length data = unat (wh_data_len hdr)"
        "((s, v, u), h) = on_frame ?cb hdr a (?w, (b_heap b)\<lparr>mem := (mem (b_heap b))(a \<mapsto> data)\<rparr>)"
    by auto
  then show ?thesis
  proof cases
    case 1
    then show ?thesis using assms(1) by (simp add: board_inv_def)
  next
    case 2
    then have "s = setLaneStatus (wh_stream_id hdr) (ls_occupied l) ((ls_plate l)[kMaxPlateLen := 0]) (b_node b)"
        "v = b_relay b" "u = b_uplink b"
      by (simp_all add: on_status_def board_callbacks_def)
    with ok 2 show ?thesis by (simp add: board_inv_def lane_sunk)
  next
    case 3
    let ?h = "(b_heap b)\<lparr>mem := (mem (b_heap b))(a \<mapsto> data)\<rparr>"
    have e: "s = b_node b" "(v, u, h) = onLuckfoxFrame (pf_frames pf) (pf_video pf) (wh_stream_id hdr) (wh_seq hdr) a
        (wh_data_len hdr) (b_relay b, b_uplink b, ?h)"
      using 3(4) by (auto simp: on_frame_def board_callbacks_def split: prod.splits)
    have al: "allocFrameBuffer (pf_alloc pf) (unat (wh_data_len hdr)) (b_heap b) = (Some a, h1)"
      using 3(2) by (simp add: spi_alloc_eq)
    have "holds ?h ((a, wh_data_len hdr) # relay_bufs (b_relay b) @ uplink_bufs (b_uplink b))"
      using board_fresh [OF _ al 3(3) refl 3(1)] alloc_filled [OF al 3(3)] ok by auto
    then have "board_ok (v, u, h)" unfolding e(2) using ok by (intro luckfox_ok) auto
    moreover have "u = fst (snd (onLuckfoxFrame (pf_frames pf) (pf_video pf) (wh_stream_id hdr) (wh_seq hdr) a
        (wh_data_len hdr) (b_relay b, b_uplink b, ?h)))"
      unfolding e(2) [symmetric] by simp
    then have "status_ok (length (flushed s)) u" using ok e(1) by (simp add: luckfox_status)
    ultimately show ?thesis using ok e(1) by (simp add: board_inv_def)
  qed
qed

lemma relay_status:
  assumes "runs gw ev" and "status_ok n u"
  shows "status_ok n (fst (snd (relay_exec (pf_recv pf) (pf_alloc pf) (pf_frames pf) (pf_status pf) (pf_video pf) ev (v, u, h))))"
proof (cases ev)
  case (EvServer c)
  then show ?thesis
    using assms(2) by (auto simp: server_iter_def enqueue_status Let_def split: option.split prod.split)
next
  case (EvClient W c)
  then show ?thesis using assms(2) by (auto split: prod.split)
next
  case (EvUplink e)
  with assms(1) have "flushes [e] = 0" by (cases e) (auto simp: runs_def flushes_def)
  with status_exec [of n "(u, h)" e] assms EvUplink show ?thesis
    by (cases e) (auto simp: runs_def split: prod.split)
qed (use assms in \<open>simp_all add: runs_def kChainSelfTest_def\<close>)

lemma board_exec_inv: "board_inv b \<Longrightarrow> board_inv (board_exec pf ev b)"
proof (cases ev)
  case (MainPass now us us')
  assume "board_inv b"
  from main_pass_inv [OF this, of now us us'] MainPass show ?thesis by auto
next
  case (WifiRecv m f len)
  assume ok: "board_inv b"
  then obtain rq where "g_rxQueue (b_transport b) = Some rq" "rx.qinv rq" by (auto simp: board_inv_def rx_ok_def)
  then have "rx_ok (onDataRecv (pf_rx pf) m f len (b_transport b))"
    using ok rx.send_SomeD [of rq] queue_inv_def [of rv rc rcap rq]
    by (auto simp: board_inv_def rx_ok_def onDataRecv_def Let_def split: option.split)
  with ok WifiRecv show ?thesis by (simp add: board_inv_def)
next
  case (SpiPass r)
  assume ok: "board_inv b"
  show ?thesis
    using spi_pass_inv [OF ok] ok SpiPass by (auto split: option.split prod.split)
next
  case (VideoEv e)
  assume ok: "board_inv b"
  let ?w = "relay_exec (pf_recv pf) (pf_alloc pf) (pf_frames pf) (pf_status pf) (pf_video pf) e
    (b_relay b, b_uplink b, b_heap b)"
  obtain v u h where w: "?w = (v, u, h)" by (cases ?w)
  have "board_ok ?w"
    using ok by (intro relay_exec_ok [OF tcp.tcp_stream_axioms]) (simp add: board_inv_def)
  moreover have "status_ok (length (flushed (b_node b))) u" if "runs (b_isGateway b) e"
    using relay_status [OF that, of "length (flushed (b_node b))" "b_uplink b" "b_relay b" "b_heap b"] ok w
    by (simp add: board_inv_def)
  ultimately show ?thesis using ok VideoEv w by (simp add: board_inv_def)
qed

lemma board_run_inv: "board_inv b \<Longrightarrow> board_inv (fold (board_exec pf) evs b)"
  by (induction evs arbitrary: b) (simp_all add: board_exec_inv)

lemma boot_board_inv:
  assumes "g_isGateway (chain_init (pf_out pf) now nid n (node0 :: 'q node)) = (nid = 0)"
    and "g_rxQueue t = Some rq" and "rx.qinv rq"
    and "nid = 0 \<or> v_outQueue (b_relay (boot_board pf e now nid n p t)) \<noteq> None"
  shows "board_inv (boot_board pf e now nid n p t)"
proof -
  let ?b = "boot_board pf e now nid n p t"
  let ?s = "chain_init (pf_out pf) now nid n (node0 :: 'q node)"
  let ?u = "if nid = 0 then fst (snd (uplink_init (pf_status pf) (pf_video pf) (boot_eth e) uplink0)) else uplink0"
  let ?v = "fst (relay_init (pf_frames pf) (ap_netif_found e) nid n (nid = 0) relay0)"
  have none: "flushed ?s = []" "sunk_ok ?s"
    by (simp_all add: flushed_def sunk_ok_def boot_calls) (simp add: chain_init_def broadcastHello_def emit_def node0_def Let_def)
  note b = boot_board_parts [OF refl, of pf e now nid n p t]
  have u: "status_ok 0 ?u" "uplink_ok ?u" "uplink_bufs ?u = []"
  proof -
    have "status_ok 0 uplink0" by (simp add: status_ok_def uplink0_def)
    then show "status_ok 0 ?u" using init_ok [of "boot_eth e"] by (auto split: prod.splits)
    have "g_videoQueue ?u = (if nid = 0 then q_create (pf_video pf) kVideoUplinkQueueDepth else None)"
      by (simp add: uplink_init_videoQueue uplink0_def)
    then show "uplink_ok ?u" "uplink_bufs ?u = []"
      using vq.create_inv [of kVideoUplinkQueueDepth] by (auto simp: uplink_ok_def uplink_bufs_def split: option.split)
  qed
  have v: "relay_ok ?v" "relay_bufs ?v = []"
    using assms(4) relay_init_facts [of "pf_frames pf" "ap_netif_found e" nid n "nid = 0"]
      fq.create_inv [of kVideoQueueDepth]
    by (auto simp: b(2) relay_ok_def relay_bufs_def split: option.split)
  show ?thesis
    using u v none assms(2,3) b by (simp add: board_inv_def board_ok_def holds_def rx_ok_def)
qed

lemma app_main_inv:
  assumes "app_main pf V conv e now p n console = BootRunning b"
    and "b_isGateway b \<or> v_outQueue (b_relay b) \<noteq> None"
  shows "board_inv b"
proof -
  obtain i c p1 t1 rq where b: "b = boot_board pf e now i c p1 t1" and q: "g_rxQueue t1 = Some rq"
      "q_create (pf_rx pf) kRxQueueDepth = Some rq"
    using assms(1) by (rule app_main_boots)
  have "rx.qinv rq" using q(2) rx.create_inv by blast
  moreover have "b_isGateway b = (i = 0)" by (rule boot_board_parts(5) [OF b])
  moreover have "g_isGateway (chain_init (pf_out pf) now i c (node0 :: 'q node)) = (i = 0)"
    by (simp add: chain_init_def broadcastHello_def emit_def Let_def kGatewayNodeId_def)
  ultimately show ?thesis
    using assms(2) q(1) boot_board_inv [of now i c t1 rq e p1] by (simp add: b)
qed

end

text \<open>A platform of concrete parts: list queues, a list of peers, a heap of eight buffers, TCP
  segments and the SPI feed; the radio takes every frame.\<close>

definition bench ::
  "(mac list, RxItem list_q, StatusPacket list_q, Frame list_q, StatusItem list_q, VideoItem list_q,
    bytes option list, segments) platform" where
  "bench = \<lparr>pf_rx = list_queue, pf_out = list_queue, pf_frames = list_queue, pf_status = list_queue,
     pf_video = list_queue, pf_peers = list_peers, pf_radio = (\<lambda>_ _. True), pf_recv = seg_recv,
     pf_alloc = pool_alloc 8, pf_spi = feed, pf_time = (\<lambda>_. 0)\<rparr>"

lemma bench_parts:
  "pf_rx bench = list_queue" "pf_out bench = list_queue" "pf_frames bench = list_queue"
  "pf_status bench = list_queue" "pf_video bench = list_queue" "pf_recv bench = seg_recv"
  "pf_alloc bench = pool_alloc 8" "pf_spi bench = feed" "pf_radio bench = (\<lambda>_ _. True)"
  "pf_peers bench = list_peers" "pf_time bench = (\<lambda>_. 0)"
  by (simp_all add: bench_def)

interpretation on_bench: whole_board bench "\<lambda>_. True" fst snd "\<lambda>_. True" fst snd "\<lambda>_. True" fst snd
  "\<lambda>_. True" fst snd concat
  by (unfold_locales; unfold bench_parts) (rule lq.create lq.send_room lq.send_full lq.receive_empty
      lq.receive_cons pool.fresh seg.recv_some seg.recv_none fed.full; assumption)+

section \<open>A tick of the Gateway\<close>

lemma gateway_tick:
  assumes "g_isGateway s" and "kStatusLocalIntervalMs \<le> nowMs (now LocalDue) - g_lastLocalMs s"
  shows "new_calls s (loop_local Q now s) =
    [UplinkFlush (g_nodeId s) (g_localStream s) (occupied (localPacket now s)) (plate (localPacket now s))]"
  using assms
  by (simp add: loop_local_def new_calls_def emit_def localPacket_def readLocalStatus_def kChainSelfTest_def Let_def)

lemma lane_packet:
  assumes "length (g_laneOccupied s) = 3" and "length (g_lanePlate s) = 3" and "g_localStream s < kVideoStreamsPerNode"
  shows "occupied (localPacket now (setLaneStatus (g_localStream s) oc pl s)) = oc \<and>
    c_str (plate (localPacket now (setLaneStatus (g_localStream s) oc pl s))) = take kMaxPlateLen (c_str pl)"
proof -
  have "unat (g_localStream s) < 3" "\<not> kVideoStreamsPerNode \<le> g_localStream s"
    using assms(3) by (simp_all add: word_less_nat_alt word_le_nat_alt config_defs)
  then show ?thesis
    using assms(1,2) by (simp add: localPacket_def setLaneStatus_def readLocalStatus_def kChainSelfTest_def Let_def
        strncpy_idem c_str_append_nul c_str_strncpy)
qed

lemma takeWhile_of_take: "takeWhile P (take n xs) = take n (takeWhile P xs)"
  by (induction xs arbitrary: n) (auto simp: take_Cons')

lemma c_str_cut: "length pl = Suc n \<Longrightarrow> c_str (pl[n := 0]) = take n (c_str pl)"
proof -
  assume n: "length pl = Suc n"
  have "c_str (pl[n := 0]) = c_str (take n pl)"
    using n upd_conv_take_nth_drop [of n pl 0] by (simp add: c_str_append_nul)
  also have "... = take n (c_str pl)"
    by (simp add: c_str_def takeWhile_of_take)
  finally show ?thesis .
qed

section \<open>A board on the bench\<close>

definition good_boot :: app_env where
  "good_boot = \<lparr>nvs_init = NvsNewVersion, nvs_erase_ok = True, nvs_init_again = NvsOk, netif_init_ok = True,
     event_loop_ok = True, boot_radio = \<lparr>wifi_init_ok = True, set_mode_ok = True, wifi_start_ok = True, now_init_ok = True\<rparr>,
     boot_eth = up_env, ap_netif_found = True,
     boot_spi = \<lparr>rx_scratch_ok = True, tx_scratch_ok = True, slave_init_ok = True\<rparr>\<rparr>"

definition flash_of :: "u8 \<Rightarrow> u8 \<Rightarrow> nvs_key \<Rightarrow> u8 option" where
  "flash_of i c k = (case k of kNvsKeyNodeId \<Rightarrow> Some i | kNvsKeyChainSize \<Rightarrow> Some c)"

text \<open>Board \<open>i\<close> of a chain of \<open>c\<close>, just booted.\<close>

definition bench_board ::
  "u8 \<Rightarrow> u8 \<Rightarrow> (mac list, RxItem list_q, StatusPacket list_q, Frame list_q, StatusItem list_q, VideoItem list_q) board" where
  "bench_board i c = boot_board bench good_boot (at 0) i c [kBroadcastMac] \<lparr>g_rxQueue = Some ([], 16), g_handler = None\<rparr>"

lemma bench_boots:
  assumes "valid_identity i c"
  shows "app_main bench flash_ops (\<lambda>z. z) good_boot (at 0) [] (flash_of i c) [] = BootRunning (bench_board i c)"
proof -
  have "loadOrProvision flash_ops (\<lambda>z. z) (flash_of i c) [] = Ready i c"
    using assms by (simp add: loadOrProvision_def flash_ops_def flash_of_def)
  moreover have "espnow_init (pf_rx bench) (pf_peers bench) (boot_radio good_boot) []
      \<lparr>g_rxQueue = None, g_handler = None :: StatusPacket list_q node recv_handler option\<rparr> =
      (True, [WifiInit, SetStorageRam, SetModeApSta, WifiStart, SetChannel kEspNowChannel, NowInit, RegisterRecvCb],
        [kBroadcastMac], \<lparr>g_rxQueue = Some ([], 16), g_handler = None\<rparr>)"
    by (simp add: espnow_init_def bench_parts good_boot_def addPeer_def list_peers_def list_queue_def kRxQueueDepth_def)
  moreover have "nvs_ready good_boot" "netif_init_ok good_boot" "event_loop_ok good_boot"
    by (simp_all add: nvs_ready_def good_boot_def)
  ultimately show ?thesis
    by (simp add: app_main_def bench_board_def)
qed

lemma bench_ready: "b_isGateway (bench_board i c) \<or> v_outQueue (b_relay (bench_board i c)) \<noteq> None"
  using relay_init_facts [of list_queue True i c "i = 0"]
  by (simp add: bench_board_def boot_board_def Let_def route_rest bench_parts good_boot_def kGatewayNodeId_def
      list_queue_def)

end
