(* ===== verification/Backend.thy ===== *)
theory Backend
  imports ChainProps MainProps UplinkProps
begin

text \<open>
  The status path as a whole: the chain of ChainNet and the Ethernet uplink of its Gateway.
  What the Gateway's node hands over in a step of the chain goes through \<open>flush\<close> in the order
  of its log, as \<open>route_call\<close> does on a board; the status task, link changes and the
  other events of the uplink come in between. \<open>timed_plant_step\<close> is the plant under the honest clocks of ChainTime.
\<close>

section \<open>The plant\<close>

record ('q, 'sq, 'vq) plant =
  pl_net :: "'q net"
  pl_up :: "('sq, 'vq) uplink"
  pl_lines :: "bytes list"             \<comment> \<open>the lines the backend took whole\<close>

definition flush_reading ::
  "(StatusItem, 'sq) queue_ops \<Rightarrow> reading \<Rightarrow> ('sq, 'vq) uplink \<Rightarrow> ('sq, 'vq) uplink" where
  "flush_reading SQ = (\<lambda>(nid, st, oc, pl). flush SQ nid st oc pl)"

abbreviation handed :: "'q net \<Rightarrow> 'q net \<Rightarrow> reading list" where
  "handed n n' \<equiv> flushed_of (new_calls (nodes n 0) (nodes n' 0))"

inductive plant_step ::
  "(StatusPacket, 'q) queue_ops \<Rightarrow> nat \<Rightarrow> (nat \<Rightarrow> mac) \<Rightarrow> (StatusItem, 'sq) queue_ops \<Rightarrow>
     (VideoItem, 'vq) queue_ops \<Rightarrow> ('q, 'sq, 'vq) plant \<Rightarrow> ('q, 'sq, 'vq) plant \<Rightarrow> bool"
  for Q N macs SQ VQ where
  in_chain: "net_step Q N macs (pl_net s) n' \<Longrightarrow>
    plant_step Q N macs SQ VQ s
      (s\<lparr>pl_net := n', pl_up := fold (flush_reading SQ) (handed (pl_net s) n') (pl_up s)\<rparr>)"
| status_task: "status_step SQ e (pl_up s) = (u', ls) \<Longrightarrow>
    plant_step Q N macs SQ VQ s
      (s\<lparr>pl_up := u', pl_lines := pl_lines s @ (if g_stSent u' = g_stSent (pl_up s) then [] else ls)\<rparr>)"
| in_uplink: "uplink_exec SQ VQ ev (pl_up s, h) = (u', h') \<Longrightarrow>
    (case ev of EvFlush _ _ _ _ \<Rightarrow> False | EvStatusTask _ \<Rightarrow> False | _ \<Rightarrow> True) \<Longrightarrow>
    plant_step Q N macs SQ VQ s (s\<lparr>pl_up := u'\<rparr>)"

definition plant0 ::
  "(StatusPacket, 'q) queue_ops \<Rightarrow> nat \<Rightarrow> (nat \<Rightarrow> mac) \<Rightarrow> (StatusItem, 'sq) queue_ops \<Rightarrow>
     (VideoItem, 'vq) queue_ops \<Rightarrow> (nat \<Rightarrow> clock) \<Rightarrow> eth_env \<Rightarrow> ('q, 'sq, 'vq) plant" where
  "plant0 Q N macs SQ VQ bt e =
     \<lparr>pl_net = net0 Q N macs bt, pl_up = fst (snd (uplink_init SQ VQ e uplink0)), pl_lines = []\<rparr>"

inductive plant_reach ::
  "(StatusPacket, 'q) queue_ops \<Rightarrow> nat \<Rightarrow> (nat \<Rightarrow> mac) \<Rightarrow> (StatusItem, 'sq) queue_ops \<Rightarrow>
     (VideoItem, 'vq) queue_ops \<Rightarrow> ('q, 'sq, 'vq) plant \<Rightarrow> bool"
  for Q N macs SQ VQ where
  pboot: "plant_reach Q N macs SQ VQ (plant0 Q N macs SQ VQ bt e)"
| pstep: "plant_reach Q N macs SQ VQ s \<Longrightarrow> plant_step Q N macs SQ VQ s s' \<Longrightarrow> plant_reach Q N macs SQ VQ s'"

text \<open>The plant under honest clocks: the chain moves as in ChainTime; the Gateway's uplink moves
  at any time and reads none of these clocks.\<close>

definition plant_moves ::
  "(StatusItem, 'sq) queue_ops \<Rightarrow> 'q net \<Rightarrow> ('q, 'sq, 'vq) plant \<Rightarrow> ('q, 'sq, 'vq) plant" where
  "plant_moves SQ n' s = s\<lparr>pl_net := n', pl_up := fold (flush_reading SQ) (handed (pl_net s) n') (pl_up s)\<rparr>"

inductive timed_plant_step ::
  "(StatusPacket, 'q) queue_ops \<Rightarrow> nat \<Rightarrow> (nat \<Rightarrow> mac) \<Rightarrow> (StatusItem, 'sq) queue_ops \<Rightarrow> (VideoItem, 'vq) queue_ops \<Rightarrow>
     ('q, 'sq, 'vq) plant \<times> (nat \<Rightarrow> int) \<Rightarrow> ('q, 'sq, 'vq) plant \<times> (nat \<Rightarrow> int) \<Rightarrow> bool"
  for Q N macs SQ VQ where
  chain_moves: "timed_step Q N macs (pl_net s, T) (n', T') \<Longrightarrow>
    timed_plant_step Q N macs SQ VQ (s, T) (plant_moves SQ n' s, T')"
| uplink_moves: "plant_step Q N macs SQ VQ s s' \<Longrightarrow> pl_net s' = pl_net s \<Longrightarrow>
    timed_plant_step Q N macs SQ VQ (s, T) (s', T)"


inductive_cases timed_plant_stepE: "timed_plant_step Q N macs SQ VQ w w'"

text \<open>The line of a reading, and the node a line names.\<close>

definition reading_line :: "reading \<Rightarrow> bytes" where
  "reading_line = (\<lambda>(nid, st, oc, pl). status_line (status_item nid st oc pl))"

definition line_node :: "bytes \<Rightarrow> nat" where
  "line_node l = (case parse_line l of (n, _) \<Rightarrow> n)"

lemma line_node_reading: "line_node (reading_line r) = unat (fst r)"
proof -
  obtain nid st oc pl where r: "r = (nid, st, oc, pl)" by (metis prod_cases4)
  have "si_node_id (status_item nid st oc pl) = nid" by (simp add: status_item_def)
  then obtain rest where "reading_line r = dec_u8 nid @ 58 # rest"
    by (simp add: r reading_line_def status_line_text status_text_def)
  then show ?thesis
    by (simp add: r line_node_def parse_line_def to_colon_dec dec_value_u8 split_beta Let_def)
qed

section \<open>The queue of readings\<close>

definition waiting :: "('sq \<Rightarrow> StatusItem list) \<Rightarrow> ('sq, 'vq) uplink \<Rightarrow> StatusItem list" where
  "waiting sc u = (case g_statusQueue u of None \<Rightarrow> [] | Some q \<Rightarrow> sc q)"

definition status_q ::
  "('sq \<Rightarrow> bool) \<Rightarrow> ('sq \<Rightarrow> StatusItem list) \<Rightarrow> ('sq \<Rightarrow> nat) \<Rightarrow> ('sq, 'vq) uplink \<Rightarrow> bool" where
  "status_q sv sc scap u \<longleftrightarrow> (case g_statusQueue u of None \<Rightarrow> True
     | Some q \<Rightarrow> queue_inv sv sc scap q \<and> scap q = kStatusUplinkQueueDepth)"

lemma flush_waiting:
  assumes "rtos_queue SQ sv sc scap" and "status_q sv sc scap u"
  shows "status_q sv sc scap (flush_reading SQ r u) \<and>
    subseq (map status_line (waiting sc (flush_reading SQ r u))) (map status_line (waiting sc u) @ [reading_line r])"
proof -
  obtain nid st oc pl where r: "r = (nid, st, oc, pl)" by (metis prod_cases4)
  show ?thesis
  proof (cases "g_statusQueue u")
    case None
    then show ?thesis by (simp add: r flush_reading_def flush_def status_q_def waiting_def)
  next
    case (Some q)
    show ?thesis
    proof (cases "q_send SQ q (status_item nid st oc pl)")
      case None
      then show ?thesis
        using Some assms(2) by (simp add: r flush_reading_def flush_def status_q_def waiting_def list_emb_prefix)
    next
      case s: (Some q')
      have "sv q" using assms(2) Some by (simp add: status_q_def queue_inv_def)
      from rtos_queue.send_SomeD [OF assms(1) this s] show ?thesis
        using Some s assms(2) by (simp add: r flush_reading_def flush_def status_q_def waiting_def reading_line_def)
    qed
  qed
qed

lemma flushes_waiting:
  assumes "rtos_queue SQ sv sc scap"
  shows "status_q sv sc scap u \<Longrightarrow> status_q sv sc scap (fold (flush_reading SQ) rs u) \<and>
    subseq (map status_line (waiting sc (fold (flush_reading SQ) rs u)))
      (map status_line (waiting sc u) @ map reading_line rs)"
proof (induction rs arbitrary: u)
  case (Cons r rs)
  note f = flush_waiting [OF assms Cons.prems, of r]
  from f Cons.IH have "status_q sv sc scap (fold (flush_reading SQ) (r # rs) u)"
    "subseq (map status_line (waiting sc (fold (flush_reading SQ) (r # rs) u)))
      (map status_line (waiting sc (flush_reading SQ r u)) @ map reading_line rs)" by auto
  moreover have "subseq (map status_line (waiting sc (flush_reading SQ r u)) @ map reading_line rs)
      ((map status_line (waiting sc u) @ [reading_line r]) @ map reading_line rs)"
    using f by (intro list_emb_append_mono) auto
  ultimately show ?case by (auto elim: subseq_order.trans)
qed simp

lemma status_step_waiting:
  assumes "rtos_queue SQ sv sc scap" and "status_q sv sc scap u" and "status_step SQ e u = (u', ls)"
  shows "status_q sv sc scap u' \<and>
    subseq ((if g_stSent u' = g_stSent u then [] else ls) @ map status_line (waiting sc u'))
      (map status_line (waiting sc u))"
proof (cases "g_statusQueue u")
  case None
  then show ?thesis using assms by (simp add: status_step_def waiting_def)
next
  case (Some q)
  then have q: "queue_inv sv sc scap q" and cap: "scap q = kStatusUplinkQueueDepth"
    using assms(2) by (simp_all add: status_q_def)
  show ?thesis
  proof (cases "q_receive SQ q")
    case None
    then show ?thesis using Some assms by (simp add: status_step_def)
  next
    case r: (Some r)
    then obtain it q' where r: "q_receive SQ q = Some (it, q')" by (cases r) auto
    from rtos_queue.receive_SomeD [OF assms(1) q r] have q': "queue_inv sv sc scap q'" "sc q = it # sc q'"
      "scap q' = kStatusUplinkQueueDepth" using cap by auto
    have "g_statusQueue u' = Some q'" "g_stSent u' = g_stSent u \<or> ls = [status_line it]"
      using assms(3) Some r by (auto simp: status_step_def flushOne_def Let_def split: if_splits)
    then show ?thesis using q' Some by (auto simp: status_q_def waiting_def)
  qed
qed

lemma uplink_other_waiting:
  assumes "uplink_exec SQ VQ ev (u, h) = (u', h')"
    and "case ev of EvFlush _ _ _ _ \<Rightarrow> False | EvStatusTask _ \<Rightarrow> False | _ \<Rightarrow> True"
  shows "g_statusQueue u' = g_statusQueue u"
proof (cases ev)
  case (EvEth e)
  with assms(1) show ?thesis by (cases e) auto
qed (use assms in \<open>auto simp: flushVideo_def video_step_def ethRxHook_def uplink_logStats_def Let_def
    split: option.splits prod.splits if_splits\<close>)

section \<open>The invariant\<close>

lemma new_calls_same [simp]: "new_calls s s = []"
  by (simp add: new_calls_def)

lemma net_step_log:
  assumes "net_step Q N macs n n'"
  shows "flushed (nodes n' 0) = flushed (nodes n 0) @ handed n n'"
proof -
  have "calls (nodes n' 0) = calls (nodes n 0) @ new_calls (nodes n 0) (nodes n' 0)"
    using assms
  proof cases
    case (lane x sid oc pl)
    then show ?thesis by (auto simp: setLaneStatus_def new_calls_def update_node_def Let_def)
  qed (auto simp: set_air_def update_node_def Let_def intro!: grows_calls grows_body grows_recv)
  then show ?thesis by (metis flushed_def flushed_of_append)
qed

lemma plant_inv:
  assumes "rtos_queue SQ sv sc scap" and "plant_reach Q N macs SQ VQ s"
  shows "net_reach Q N macs (pl_net s) \<and> status_q sv sc scap (pl_up s) \<and>
    subseq (pl_lines s @ map status_line (waiting sc (pl_up s))) (map reading_line (flushed (nodes (pl_net s) 0)))"
  using assms(2)
proof induction
  case (pboot bt e)
  have "status_q sv sc scap (fst (snd (uplink_init SQ VQ e uplink0))) \<and>
      waiting sc (fst (snd (uplink_init SQ VQ e uplink0))) = []"
    using rtos_queue.create_inv [OF assms(1), of kStatusUplinkQueueDepth]
    by (auto simp: uplink_init_def uplink0_def status_q_def waiting_def Let_def split: option.split)
  then show ?case by (simp add: plant0_def net_reach.boot)
next
  case (pstep s s')
  let ?w = "\<lambda>u. map status_line (waiting sc u)" and ?rs = "map reading_line (flushed (nodes (pl_net s) 0))"
  from pstep.hyps(2) show ?case
  proof cases
    case (in_chain n')
    note f = flushes_waiting [OF assms(1), of "pl_up s" "handed (pl_net s) n'"]
    have "subseq (pl_lines s @ ?w (pl_up s')) (pl_lines s @ ?w (pl_up s) @ map reading_line (handed (pl_net s) n'))"
      using f pstep.IH by (simp add: in_chain(1) list_emb_append_mono)
    moreover have "subseq ((pl_lines s @ ?w (pl_up s)) @ map reading_line (handed (pl_net s) n'))
        (?rs @ map reading_line (handed (pl_net s) n'))"
      using pstep.IH by (intro list_emb_append_mono) auto
    ultimately show ?thesis
      using f pstep.IH net_step_log [OF in_chain(2)] net_reach.step [OF _ in_chain(2)]
      by (auto simp: in_chain(1) elim: subseq_order.trans)
  next
    case (status_task e u' ls)
    note t = status_step_waiting [OF assms(1) _ status_task(2)]
    have "subseq (pl_lines s @ (if g_stSent u' = g_stSent (pl_up s) then [] else ls) @ ?w u') (pl_lines s @ ?w (pl_up s))"
      using t pstep.IH by (intro list_emb_append_mono) auto
    then show ?thesis using t pstep.IH by (auto simp: status_task(1) elim: subseq_order.trans)
  next
    case (in_uplink ev h u' h')
    with uplink_other_waiting [OF in_uplink(2,3)] pstep.IH show ?thesis by (simp add: status_q_def waiting_def)
  qed
qed

section \<open>Catching up\<close>






section \<open>Honest clocks\<close>







section \<open>Plants of three nodes\<close>



lemma plant_steps_reach:
  "(plant_step Q N macs SQ VQ)\<^sup>*\<^sup>* s s' \<Longrightarrow> plant_reach Q N macs SQ VQ s \<Longrightarrow> plant_reach Q N macs SQ VQ s'"
  by (induction rule: rtranclp_induct) (auto intro: plant_reach.pstep)



section \<open>From the lanes to the backend\<close>

text \<open>Status end to end on the plant: whatever the radio loses, repeats or delays, whatever readings the
  full status queue drops and whatever connections fail, the lines of station \<open>k\<close> that the
  backend takes are a subsequence of those of the readings station \<open>k\<close> queued: in order,
  unaltered, none twice and none invented.\<close>

lemma backend_lines_in_order:
  assumes "chain Q valid contents capacity N macs" and "rtos_queue SQ sv sc scap"
    and "plant_reach Q N macs SQ VQ s" and "k \<noteq> 0" and "k < N"
    and "\<And>a. a \<noteq> 0 \<Longrightarrow> a < N \<Longrightarrow> length (originated (nodes (pl_net s) a)) \<le> 65536"
  shows "subseq (filter (\<lambda>l. line_node l = k) (pl_lines s))
    (map (reading_line \<circ> reading) (own_enqueued (nodes (pl_net s) k)))"
proof -
  note inv = plant_inv [OF assms(2,3)]
  then have reach: "net_reach Q N macs (pl_net s)" by simp
  let ?F = "flushed (nodes (pl_net s) 0)" and ?own = "own_enqueued (nodes (pl_net s) k)"
  have "k < 256" using chain.small_N [OF assms(1)] assms(5) by simp
  then have id: "unat r = k \<longleftrightarrow> r = of_nat k" for r :: u8
    using unat_of_nat_u8 [of k] by (metis unsigned_word_eqI)
  have "subseq (pl_lines s) (map reading_line ?F)"
    using inv list_emb_prefix [OF subseq_order.order_refl [of "pl_lines s"]] by (blast intro: subseq_order.trans)
  then have "subseq (filter (\<lambda>l. line_node l = k) (pl_lines s)) (filter (\<lambda>l. line_node l = k) (map reading_line ?F))"
    by (rule subseq_filter)
  also have "filter (\<lambda>l. line_node l = k) (map reading_line ?F) = map reading_line (filter (\<lambda>r. fst r = of_nat k) ?F)"
    by (simp add: filter_map comp_def line_node_reading id)
  also have "subseq (map reading_line (filter (\<lambda>r. fst r = of_nat k) ?F)) (map reading_line (map reading ?own))"
    using chain.sunk_prefix [OF assms(1) reach, of k] assms(4-6) chain.reach_seq_ok [OF assms(1) reach]
    by (intro subseq_map prefix_imp_subseq) (auto intro!: own_seq_adj)
  finally show ?thesis by simp
qed



end
