(* ===== verification/VideoNet.thy ===== *)
theory VideoNet
  imports VideoLink ChainInv UplinkProps
begin

text \<open>
  The video path of the whole chain: \<open>N\<close> boards, each with its relay, uplink and heap, and the
  TCP connections of every hop. The frames in the queues and in the connections, from the
  Gateway's uplink back to the last relay, form one line (\<open>down\<close>); every step of a board moves
  a frame along that line or takes one out of it, so that what the Gateway sends of one
  station is a subsequence of what the cameras of that station delivered.
\<close>

section \<open>Lines of segments\<close>

text \<open>Segment \<open>m\<close> first, segment 1 last.\<close>

fun down :: "(nat \<Rightarrow> 'a list) \<Rightarrow> nat \<Rightarrow> 'a list" where
  "down s 0 = []"
| "down s (Suc m) = s (Suc m) @ down s m"

lemma down_cong: "(\<And>i. 1 \<le> i \<Longrightarrow> i \<le> m \<Longrightarrow> s' i = s i) \<Longrightarrow> down s' m = down s m"
  by (induction m) auto

lemma down_shrink: "(\<And>i. 1 \<le> i \<Longrightarrow> i \<le> m \<Longrightarrow> subseq (s' i) (s i)) \<Longrightarrow> subseq (down s' m) (down s m)"
  by (induction m) (auto intro!: list_emb_append_mono)

lemma down_move:
  assumes "1 \<le> a" and "a < m" and "\<And>i. i \<noteq> a \<Longrightarrow> i \<noteq> Suc a \<Longrightarrow> s' i = s i"
    and "subseq (s' (Suc a) @ s' a) (s (Suc a) @ s a)"
  shows "subseq (down s' m) (down s m)"
  using assms(2)
proof (induction m)
  case (Suc m)
  show ?case
  proof (cases "a = m")
    case True
    then obtain k where k: "m = Suc k" "a = Suc k" using assms(1) by (cases a) auto
    have same: "down s' k = down s k" using assms(3) k by (intro down_cong) auto
    have "subseq ((s' (Suc a) @ s' a) @ down s k) ((s (Suc a) @ s a) @ down s k)"
      by (rule list_emb_append_mono [OF assms(4)]) simp
    then show ?thesis using k same by simp
  next
    case False
    then show ?thesis using Suc assms(3) [of "Suc m"] by (auto intro!: list_emb_append_mono)
  qed
qed simp

lemma filter_down_snoc:
  assumes "1 \<le> p" and "p \<le> m" and "s' p = s p @ [x]" and "\<And>i. i \<noteq> p \<Longrightarrow> s' i = s i"
    and "\<not> P x \<or> (\<forall>j. 1 \<le> j \<longrightarrow> j < p \<longrightarrow> filter P (s j) = [])"
  shows "filter P (down s' m) = filter P (down s m) @ filter P [x]"
proof -
  have below: "filter P (down s' j) = filter P (down s j)" if "j < p" for j
    using that assms(4) by (intro arg_cong [of _ _ "filter P"] down_cong) auto
  have none: "filter P (down s j) = []" if "j < p" "\<forall>j. 1 \<le> j \<longrightarrow> j < p \<longrightarrow> filter P (s j) = []" for j
    using that by (induction j) auto
  show ?thesis
    using assms(2)
  proof (induction m)
    case (Suc m)
    show ?case
    proof (cases "p = Suc m")
      case True
      then show ?thesis using assms(3,5) below [of m] none [of m] by auto
    next
      case False
      then show ?thesis using Suc assms(4) [of "Suc m"] by simp
    qed
  qed (use assms(1) in simp)
qed

section \<open>Frames of a board\<close>

definition vi_item :: "heap \<Rightarrow> VideoItem \<Rightarrow> item" where
  "vi_item h it = Fr \<lparr>fh_origin_node_id = vi_origin_node_id it, fh_stream_id = vi_stream_id it,
     fh_seq = vi_seq it, fh_data_len = vi_data_len it\<rparr> (heap_read (vi_data it) h)"

definition frames :: "item list \<Rightarrow> item list" where
  "frames = filter (\<lambda>it. it \<noteq> Beat)"

lemma frames_simps [simp]: "frames [] = []" "frames (Beat # its) = frames its"
    "frames (Fr hdr data # its) = Fr hdr data # frames its" "frames (xs @ ys) = frames xs @ frames ys"
  by (simp_all add: frames_def)

text \<open>A frame of the camera of a node, and all datagrams of a frame.\<close>

definition camera_frame :: "u8 \<Rightarrow> u8 \<Rightarrow> u16 \<Rightarrow> bytes \<Rightarrow> item" where
  "camera_frame nid sid sq data = Fr \<lparr>fh_origin_node_id = nid, fh_stream_id = sid, fh_seq = sq,
     fh_data_len = of_nat (length data)\<rparr> data"

definition datagrams :: "item \<Rightarrow> bytes list" where
  "datagrams it = (case it of Beat \<Rightarrow> [] | Fr hdr data \<Rightarrow>
     (let vi = \<lparr>vi_origin_node_id = fh_origin_node_id hdr, vi_stream_id = fh_stream_id hdr,
        vi_seq = fh_seq hdr, vi_data_len = fh_data_len hdr, vi_data = 0\<rparr>
      in map (chunk vi data) [0..<unat (chunk_count vi)]))"

lemma datagrams_item:
  "datagrams (vi_item h it) =
     map (chunk it (heap_read (vi_data it) h)) [0..<unat (chunk_count it)]"
  by (simp add: datagrams_def vi_item_def chunk_def chunk_count_def Let_def)

text \<open>The frames a board holds: a relay in its own queue, the Gateway in that of its uplink.\<close>

definition world_items ::
  "('fq \<Rightarrow> Frame list) \<Rightarrow> ('vq \<Rightarrow> VideoItem list) \<Rightarrow> ('fq, 'sq, 'vq) world \<Rightarrow> item list" where
  "world_items fc vc = (\<lambda>(v, u, h).
     if v_isGateway v then map (vi_item h) (up_items vc u) else map (frame_item h) (out_frames fc v))"

definition same_board :: "('fq, 'sq, 'vq) world \<Rightarrow> ('fq, 'sq, 'vq) world \<Rightarrow> bool" where
  "same_board w w' \<longleftrightarrow> v_nodeId (fst w') = v_nodeId (fst w) \<and> v_isGateway (fst w') = v_isGateway (fst w)"

lemma same_board_refl [simp]: "same_board w w"
  by (simp add: same_board_def)

lemma same_board_enqueue:
  assumes "v_nodeId v' = v_nodeId v" and "v_isGateway v' = v_isGateway v"
  shows "same_board (v, w0) (enqueueOrDrop FQ VQ f (v', w))"
  using assms by (cases w) (auto simp: same_board_def enqueueOrDrop_def sinkFrame_def Let_def
      split: option.split prod.split)

context video_board
begin

lemma world_items_heap:
  assumes "board_ok (v, u, h)" and "\<And>x. x \<in> live h \<Longrightarrow> mem h' x = mem h x"
  shows "world_items fc vc (v, u, h') = world_items fc vc (v, u, h)"
proof -
  have own: "live h = set (map fst (relay_bufs v @ uplink_bufs u))"
    using assms(1) by (auto simp: board_ok_def holds_def owns_def)
  have "mem h' (the (fr_data f)) = mem h (the (fr_data f))" if "f \<in> set (out_frames fc v)" for f
    using that own by (intro assms(2)) (force simp: relay_bufs_def out_frames_def frame_buf_def split: option.splits)
  moreover have "mem h' (vi_data it) = mem h (vi_data it)" if "it \<in> set (up_items vc u)" for it
    using that own by (intro assms(2)) (force simp: uplink_bufs_def up_items_def item_buf_def split: option.splits)
  ultimately show ?thesis
    by (auto simp: world_items_def frame_item_def vi_item_def heap_read_def)
qed

lemma world_items_same:
  "v_isGateway v' = v_isGateway v \<Longrightarrow> v_outQueue v' = v_outQueue v \<Longrightarrow> g_videoQueue u' = g_videoQueue u \<Longrightarrow>
     world_items fc vc (v', u', h) = world_items fc vc (v, u, h)"
  by (simp add: world_items_def out_frames_def up_items_def)

text \<open>A frame in a new buffer is at the end of the board's queue afterwards, or dropped.\<close>

lemma enqueue_items:
  assumes ok: "board_ok (v, u, h0)" and v': "v_isGateway v' = v_isGateway v" "v_outQueue v' = v_outQueue v"
    and new: "mem h0 a = None" "h = h0\<lparr>mem := (mem h0)(a \<mapsto> data)\<rparr>"
  shows "world_items fc vc (enqueueOrDrop FQ VQ \<lparr>fr_header = hdr, fr_data = Some a\<rparr> (v', u, h)) \<in>
    {world_items fc vc (v, u, h0) @ [Fr hdr data], world_items fc vc (v, u, h0)}"
proof -
  let ?f = "\<lparr>fr_header = hdr, fr_data = Some a\<rparr>"
  have undo: "heap_caps_free a h = h0" using new by (simp add: heap_caps_free_def fun_upd_idem)
  have rd: "heap_read a h = data" using new by (simp add: heap_read_def)
  have heap: "world_items fc vc (v', u, h) = world_items fc vc (v, u, h0)"
  proof -
    have "mem h x = mem h0 x" if "x \<in> live h0" for x using that new by (auto simp: live_def)
    from world_items_heap [OF ok this] world_items_same [OF v' refl, of u h] show ?thesis by simp
  qed
  show ?thesis
  proof (cases "v_isGateway v'")
    case True
    obtain u1 h1 where fl: "flushVideo VQ (fh_origin_node_id hdr) (fh_stream_id hdr) (fh_seq hdr) a
        (fh_data_len hdr) (u, h) = (u1, h1)" by fastforce
    then have w: "enqueueOrDrop FQ VQ ?f (v', u, h) = (v'\<lparr>g_vSunk := g_vSunk v' + 1\<rparr>, u1, h1)"
      using True by (simp add: enqueueOrDrop_def sinkFrame_def kChainSelfTest_def freeFrame_def)
    let ?it = "\<lparr>vi_origin_node_id = fh_origin_node_id hdr, vi_stream_id = fh_stream_id hdr,
        vi_seq = fh_seq hdr, vi_data_len = fh_data_len hdr, vi_data = a\<rparr>"
    show ?thesis
    proof (cases "\<exists>q. g_videoQueue u = Some q \<and> g_linkUp u \<and> q_send VQ q ?it \<noteq> None")
      case sent: True
      then obtain q q' where q: "g_videoQueue u = Some q" "g_linkUp u" "q_send VQ q ?it = Some q'" by auto
      then have "vv q" using ok by (simp add: board_ok_def uplink_ok_def queue_inv_def)
      from vq.send_SomeD [OF this q(3)] have "vc q' = vc q @ [?it]" by simp
      moreover have "u1 = u\<lparr>g_videoQueue := Some q', g_vidQueued := g_vidQueued u + 1\<rparr>" "h1 = h"
        using fl q by (simp_all add: flushVideo_def)
      moreover have "vi_item h ?it = Fr hdr data" by (simp add: vi_item_def rd)
      ultimately have "world_items fc vc (enqueueOrDrop FQ VQ ?f (v', u, h)) = world_items fc vc (v', u, h) @ [Fr hdr data]"
        unfolding w using True q(1) by (simp add: world_items_def up_items_def)
      then show ?thesis by (simp add: heap)
    next
      case False
      then have "u1 = u\<lparr>g_vidDropped := g_vidDropped u + 1\<rparr>" "h1 = heap_caps_free a h"
        using fl by (auto simp: flushVideo_def freeVideoItem_def split: option.splits if_splits)
      then have "world_items fc vc (enqueueOrDrop FQ VQ ?f (v', u, h)) = world_items fc vc (v, u, h0)"
        unfolding w by (simp add: undo) (rule world_items_same, simp_all add: v')
      then show ?thesis by simp
    qed
  next
    case False
    then obtain q where q: "v_outQueue v' = Some q" "fv q"
      using ok v' by (auto simp: board_ok_def relay_ok_def queue_inv_def)
    show ?thesis
    proof (cases "q_send FQ q ?f")
      case None
      then have "enqueueOrDrop FQ VQ ?f (v', u, h) = (v'\<lparr>g_vDrop := g_vDrop v' + 1\<rparr>, u, h0)"
        using False q(1) undo by (simp add: enqueueOrDrop_def freeFrame_def)
      then show ?thesis using world_items_same [of "v'\<lparr>g_vDrop := g_vDrop v' + 1\<rparr>" v u u h0] v' by simp
    next
      case (Some q')
      from fq.send_SomeD [OF q(2) Some] have "fc q' = fc q @ [?f]" by simp
      moreover have "frame_item h ?f = Fr hdr data" by (simp add: frame_item_def rd)
      ultimately have "world_items fc vc (enqueueOrDrop FQ VQ ?f (v', u, h)) = world_items fc vc (v', u, h) @ [Fr hdr data]"
        using False q(1) Some by (simp add: enqueueOrDrop_def world_items_def out_frames_def)
      then show ?thesis by (simp add: heap)
    qed
  qed
qed

text \<open>The server's reading of one item.\<close>

lemma take_item_items:
  assumes ok: "board_ok (v, u, h)" and "item_ok it"
  shows "world_items fc vc (take_item A FQ VQ it (v, u, h)) \<in>
    {world_items fc vc (v, u, h) @ frames [it], world_items fc vc (v, u, h)}"
proof (cases it)
  case (Fr hdr payload)
  let ?n = "unat (fh_data_len hdr)"
  have n: "length payload = ?n" using assms(2) Fr by simp
  obtain p h1 where al: "allocFrameBuffer A ?n h = (p, h1)" by fastforce
  show ?thesis
  proof (cases p)
    case None
    with al alloc_None have "h1 = h" by blast
    then show ?thesis
      using al None Fr n world_items_same [of "v\<lparr>g_vDrop := g_vDrop v + 1\<rparr>" v u u h]
      by (simp add: take_item_def)
  next
    case (Some a)
    from alloc_filled [OF al [unfolded Some] n]
    have new: "mem h a = None" "heap_write a 0 payload h1 = h\<lparr>mem := (mem h)(a \<mapsto> payload)\<rparr>" by auto
    let ?v = "v\<lparr>g_vIn := g_vIn v + 1\<rparr>"
    have "world_items fc vc (enqueueOrDrop FQ VQ \<lparr>fr_header = hdr, fr_data = Some a\<rparr>
        (?v, u, heap_write a 0 payload h1)) \<in>
        {world_items fc vc (v, u, h) @ [Fr hdr payload], world_items fc vc (v, u, h)}"
      by (rule enqueue_items [OF ok _ _ new]) simp_all
    then show ?thesis using al Some Fr n by (simp add: take_item_def)
  qed
qed (simp add: take_item_def)

text \<open>A frame of the camera.\<close>

lemma camera_items:
  assumes ok: "board_ok (v, u, h)" and len: "data \<noteq> []" "length data \<le> kVideoMaxFrameBytes"
  shows "world_items fc vc (relay_exec R A FQ SQ VQ (EvLuckfox sid sq data) (v, u, h)) \<in>
    {world_items fc vc (v, u, h) @ [camera_frame (v_nodeId v) sid sq data], world_items fc vc (v, u, h)}"
proof -
  obtain p h1 where al: "allocFrameBuffer A (length data) h = (p, h1)" by fastforce
  show ?thesis
  proof (cases p)
    case None
    with al alloc_None have "h1 = h" by blast
    with al None len show ?thesis by (simp add: world_items_def)
  next
    case (Some a)
    from alloc_filled [OF al [unfolded Some] refl]
    have new: "mem h a = None" "heap_write a 0 data h1 = h\<lparr>mem := (mem h)(a \<mapsto> data)\<rparr>" by auto
    let ?hdr = "\<lparr>fh_origin_node_id = v_nodeId v, fh_stream_id = sid, fh_seq = sq, fh_data_len = of_nat (length data)\<rparr>"
    have "world_items fc vc (enqueueOrDrop FQ VQ \<lparr>fr_header = ?hdr, fr_data = Some a\<rparr>
        (v\<lparr>g_vLocal := g_vLocal v + 1\<rparr>, u, heap_write a 0 data h1)) \<in>
        {world_items fc vc (v, u, h) @ [Fr ?hdr data], world_items fc vc (v, u, h)}"
      by (rule enqueue_items [OF ok _ _ new]) simp_all
    then show ?thesis using al Some len by (simp add: onLuckfoxFrame_def camera_frame_def)
  qed
qed

text \<open>The client takes the first frame of its queue, or sends a heartbeat.\<close>

lemma board_sendable:
  assumes "board_ok (v, u, h)" and "v_outQueue v = Some q"
  shows "queue_inv fv fc fcap q \<and> sendable h (fc q)"
proof -
  have "holds h (map frame_buf (fc q) @ uplink_bufs u)" "fq.qinv q" "\<forall>f \<in> set (fc q). fr_data f \<noteq> None"
    using assms by (auto simp: board_ok_def relay_ok_def relay_bufs_def)
  then show ?thesis
    by (auto simp: sendable_def holds_def owns_def frame_buf_def comp_def)
qed

lemma client_items:
  assumes ok: "board_ok (v, u, h)" and gw: "\<not> v_isGateway v" and S: "tcp_sink W outb"
    and pass: "client_iter W FQ ((v, h), c) = (sent_ok, (v', h'), c')"
  shows "\<exists>it tail. outb c' = outb c @ tail \<and> item_ok it \<and>
    (if sent_ok then tail = wire it else strict_prefix tail (wire it)) \<and>
    world_items fc vc (v, u, h) = frames [it] @ world_items fc vc (v', u, h') \<and>
    v_nodeId v' = v_nodeId v \<and> v_isGateway v' = v_isGateway v"
proof -
  obtain q where q: "v_outQueue v = Some q"
    using ok gw by (auto simp: board_ok_def relay_ok_def)
  note s = board_sendable [OF ok q]
  have ids: "v_nodeId v' = v_nodeId v" "v_isGateway v' = v_isGateway v"
    using pass by (auto simp: client_iter_def Let_def split: option.splits prod.splits if_splits)
  obtain tail q' where p: "outb c' = outb c @ tail"
      "let it = hd (next_items 1 h (fc q)) in if sent_ok then tail = wire it else strict_prefix tail (wire it)"
      "v_outQueue v' = Some q'" "fc q' = drop 1 (fc q)" "h' = fold freeFrame (take 1 (fc q)) h"
    using client_pass [OF fq.rtos_queue_axioms S q _ _ pass] s by blast
  have "list_all item_ok (next_items 1 h (fc q))" using s by (intro next_items_ok) simp
  moreover obtain it where it: "next_items 1 h (fc q) = [it]"
    using length_next_items [of 1 h "fc q"] by (metis One_nat_def length_0_conv length_Suc_conv)
  moreover have "world_items fc vc (v, u, h) = frames [it] @ world_items fc vc (v', u, h')"
  proof (cases "fc q")
    case Nil
    then show ?thesis using it q p gw ids by (simp add: next_items_def world_items_def out_frames_def frames_def)
  next
    case (Cons f fs)
    then have "map (frame_item h') fs = map (frame_item h) fs"
      using sendable_Cons(3) [of h f fs] s p(5) by simp
    then show ?thesis
      using Cons it q p gw ids
      by (auto simp: next_items_def world_items_def out_frames_def frames_def frame_item_def)
  qed
  ultimately show ?thesis using p(1,2) ids by (intro exI [of _ it] exI [of _ tail]) (simp add: Let_def)
qed

text \<open>A pass of the video uplink.\<close>

lemma uplink_items:
  assumes ok: "board_ok (v, u, h)" and gw: "v_isGateway v"
    and r: "g_videoQueue u = Some q" "q_receive VQ q = Some (it, q')"
    and pass: "video_step VQ tx (u, h) = ((u', h'), ds)"
  shows "world_items fc vc (v, u, h) = vi_item h it # world_items fc vc (v, u', h')"
    and "g_vidSent u' = g_vidSent u \<or> ds = datagrams (vi_item h it)"
proof -
  have q: "vq.qinv q" using ok r by (auto simp: board_ok_def uplink_ok_def)
  from vq.receive_SomeD [OF q r(2)] have q': "vc q = it # vc q'" by auto
  have u': "g_videoQueue u' = Some q'" "h' = heap_caps_free (vi_data it) h"
    using pass r by (auto simp: video_step_def freeVideoItem_def Let_def split: prod.splits if_splits)
  have own: "distinct (map vi_data (it # vc q'))"
    using ok r(1) q' by (auto simp: board_ok_def holds_def owns_def uplink_bufs_def item_buf_def comp_def)
  have "mem h' (vi_data x) = mem h (vi_data x)" if "x \<in> set (vc q')" for x
  proof -
    have "vi_data x \<noteq> vi_data it"
      using own that by (metis distinct.simps(2) image_eqI list.set_map list.simps(9))
    then show ?thesis by (simp add: u'(2) heap_caps_free_def)
  qed
  then have "map (vi_item h') (vc q') = map (vi_item h) (vc q')"
    by (auto simp: vi_item_def heap_read_def)
  then show "world_items fc vc (v, u, h) = vi_item h it # world_items fc vc (v, u', h')"
    using gw r(1) u'(1) q' by (simp add: world_items_def up_items_def)
  obtain b es where s: "send_chunks tx it (heap_read (vi_data it) h) [0..<unat (chunk_count it)] = (b, es)" by fastforce
  have "b \<Longrightarrow> es = datagrams (vi_item h it)"
    using send_chunks_prefix [OF s] by (simp add: datagrams_item)
  then show "g_vidSent u' = g_vidSent u \<or> ds = datagrams (vi_item h it)"
    using pass r s by (auto simp: video_step_def Let_def split: prod.splits if_splits)
qed

end

section \<open>The server on any stream of items\<close>

text \<open>
  The drain of a frame without a buffer stays in step (VideoProps shows what happens when a
  timeout cuts it short).
\<close>

definition drains :: "'c receiver \<Rightarrow> ('c \<Rightarrow> bytes) \<Rightarrow> alloc \<Rightarrow> 'c \<Rightarrow> heap \<Rightarrow> bool" where
  "drains R inb A c h \<longleftrightarrow>
     (case recvAll R sizeof_FrameHeader c of
        (None, c1) \<Rightarrow> True
      | (Some hb, c1) \<Rightarrow>
          let n = unat (fh_data_len (dec_frame_header hb))
          in fst (allocFrameBuffer A n h) = None \<longrightarrow> inb (drain_payload R n c1) = drop n (inb c1))"

text \<open>Whole items, then possibly the beginning of one that was cut short.\<close>

definition cut_short :: "bytes \<Rightarrow> bool" where
  "cut_short t \<longleftrightarrow> (\<exists>it. item_ok it \<and> strict_prefix t (wire it))"

lemma cut_short_Nil [simp]: "cut_short []"
  unfolding cut_short_def by (rule exI [of _ Beat]) (simp add: enc_frame_header_def)

context video_board
begin

lemma alloc_undo: "allocFrameBuffer A n h = (Some a, h1) \<Longrightarrow> heap_caps_free a h1 = h"
  using alloc_Some [of n h a h1] by (auto simp: heap_caps_free_def fun_upd_idem)

lemma server_iter_same: "same_board w (fst (snd (server_iter R A FQ VQ (w, c))))"
proof -
  obtain v u h where w: "w = (v, u, h)" by (cases w)
  have "same_board (v, u, h) (enqueueOrDrop FQ VQ f (v\<lparr>g_vIn := g_vIn v + 1\<rparr>, u', h'))" for f u' h'
    by (rule same_board_enqueue) simp_all
  then show ?thesis
    unfolding w server_iter_def by (auto simp: Let_def same_board_def split: prod.split option.split)
qed

lemma server_takes:
  assumes R: "tcp_stream R inb" and its: "list_all item_ok its" and t: "cut_short t"
    and inb: "inb c = concat (map wire its) @ t" and dr: "drains R inb A c h"
    and pass: "server_iter R A FQ VQ ((v, u, h), c) = (go, w', c')"
  shows "if \<not> go then w' = (v, u, h)
    else case its of it # rest \<Rightarrow> w' = take_item A FQ VQ it (v, u, h) \<and> inb c' = concat (map wire rest) @ t
      | [] \<Rightarrow> w' = (v\<lparr>g_vDrop := g_vDrop v + 1\<rparr>, u, h) \<and> inb c' = []"
proof -
  obtain o1 c1 where r1: "recvAll R sizeof_FrameHeader c = (o1, c1)" by fastforce
  show ?thesis
  proof (cases o1)
    case None
    then show ?thesis using pass r1 by (simp add: server_iter_def)
  next
    case (Some hb)
    then have hb: "length hb = 8" "inb c = hb @ inb c1"
      using tcp_stream.recvAll_Some [OF R] r1 by (auto simp: sizeof_FrameHeader_def)
    obtain it tail where it: "item_ok it" "hb @ inb c1 @ tail = wire it @ (case its of [] \<Rightarrow> [] | _ # rest \<Rightarrow> concat (map wire rest) @ t)"
        "case its of [] \<Rightarrow> tail \<noteq> [] | x # _ \<Rightarrow> x = it \<and> tail = []"
    proof (cases its)
      case Nil
      from t obtain it tail where "item_ok it" "wire it = t @ tail" "tail \<noteq> []"
        by (auto simp: cut_short_def strict_prefix_def prefix_def)
      with Nil hb inb show ?thesis by (intro that [of it tail]) auto
    next
      case (Cons x rest)
      with its hb inb show ?thesis by (intro that [of x "[]"]) auto
    qed
    let ?rest = "case its of [] \<Rightarrow> [] | _ # rest \<Rightarrow> concat (map wire rest) @ t"
    show ?thesis
    proof (cases it)
      case Beat
      then have eq: "hb = enc_frame_header heartbeat_header" "inb c1 @ tail = ?rest"
        using it(2) hb(1) append_eq_append_conv [of hb "enc_frame_header heartbeat_header"] by auto
      then have "its \<noteq> []" using it(3) by auto
      with eq show ?thesis
        using pass r1 Some it(3) Beat by (cases its) (auto simp: server_iter_def take_item_def heartbeat_header_def)
    next
      case (Fr hdr payload)
      let ?n = "unat (fh_data_len hdr)"
      have eq: "hb = enc_frame_header hdr" "inb c1 @ tail = payload @ ?rest"
        using it(2) hb(1) Fr append_eq_append_conv [of hb "enc_frame_header hdr"] by auto
      have n: "in_bounds (fh_data_len hdr)" "length payload = ?n" using it(1) Fr by auto
      then have len: "fh_data_len hdr \<noteq> 0" "\<not> kVideoMaxFrameBytes < ?n" by (auto simp: in_bounds_def)
      have drop: "if its = [] then length (inb c1) < ?n else drop ?n (inb c1) = ?rest \<and> take ?n (inb c1) = payload"
      proof (cases its)
        case Nil
        then have "?n = length (inb c1) + length tail" "tail \<noteq> []"
          using eq(2) it(3) n(2) by (auto dest: arg_cong [of _ _ length])
        with Nil show ?thesis by simp
      qed (use eq(2) it(3) n(2) in auto)
      obtain p h1 where al: "allocFrameBuffer A ?n h = (p, h1)" by fastforce
      show ?thesis
      proof (cases p)
        case None
        with al alloc_None have h1: "h1 = h" by blast
        have "inb (drain_payload R ?n c1) = drop ?n (inb c1)"
          using dr r1 Some eq(1) al None by (simp add: drains_def Let_def)
        then show ?thesis
          using pass r1 Some eq(1) len al None h1 drop it(3) Fr n(2)
          by (cases its) (auto simp: server_iter_def take_item_def Let_def)
      next
        case a: (Some a)
        obtain o2 c2 where r2: "recvAll R ?n c1 = (o2, c2)" by fastforce
        show ?thesis
        proof (cases o2)
          case None
          then show ?thesis
            using pass r1 Some eq(1) len al a r2 alloc_undo [OF al [unfolded a]]
            by (simp add: server_iter_def Let_def)
        next
          case bs: (Some bs)
          then have b: "length bs = ?n" "inb c1 = bs @ inb c2"
            using tcp_stream.recvAll_Some [OF R] r2 by auto
          then have "its \<noteq> []" "bs = payload" "inb c2 = ?rest" using drop by (auto split: if_splits)
          then show ?thesis
            using pass r1 Some eq(1) len al a r2 bs it(3) Fr n(2)
            by (cases its) (auto simp: server_iter_def take_item_def Let_def)
        qed
      qed
    qed
  qed
qed

end

end
