(* ===== verification/VideoChain.thy ===== *)
theory VideoChain
  imports VideoNet
begin

text \<open>
  The video network of the chain: \<open>N\<close> boards (relay, uplink and heap each) and the TCP
  connections from every relay to the server of its next node. A step is one pass of a
  server, of a client or of the Gateway's uplink, a frame of a camera, a new connection, or
  any other event of a board, in any order; the drains of a server do not time out. The
  invariant is that of one line of frames
  (\<open>line_ok\<close>), along which the steps of the network only move or lose frames.
\<close>

section \<open>The line\<close>

fun from_node :: "u8 \<Rightarrow> item \<Rightarrow> bool" where
  "from_node k Beat \<longleftrightarrow> False"
| "from_node k (Fr hdr data) \<longleftrightarrow> fh_origin_node_id hdr = k"

fun origin_below :: "nat \<Rightarrow> item \<Rightarrow> bool" where
  "origin_below m Beat \<longleftrightarrow> False"
| "origin_below m (Fr hdr data) \<longleftrightarrow> 1 \<le> unat (fh_origin_node_id hdr) \<and> unat (fh_origin_node_id hdr) \<le> m"

text \<open>
  Segment \<open>N\<close> belongs to the Gateway, segment \<open>p\<close> to relay \<open>p\<close>. Of every node, the frames of
  the line are some of those made, in order.
\<close>

definition line_ok :: "nat \<Rightarrow> (nat \<Rightarrow> item list) \<Rightarrow> item list \<Rightarrow> bool" where
  "line_ok N s made \<longleftrightarrow>
     (\<forall>p. 1 \<le> p \<and> p < N \<longrightarrow> (\<forall>it \<in> set (s p). origin_below p it)) \<and>
     (\<forall>k. subseq (filter (from_node k) (down s N)) (filter (from_node k) made))"

lemma line_less:
  assumes "line_ok N s made" and "subseq (down s' N) (down s N)"
    and "\<And>p. 1 \<le> p \<Longrightarrow> p < N \<Longrightarrow> \<forall>it \<in> set (s' p). origin_below p it"
  shows "line_ok N s' made"
  using assms subseq_filter [OF assms(2)] unfolding line_ok_def by (meson subseq_order.trans)

lemma subseq_set: "subseq xs ys \<Longrightarrow> set xs \<subseteq> set ys"
  by (auto elim: list_emb_set)

text \<open>Frames disappear.\<close>

lemma line_shrink:
  assumes "line_ok N s made" and "\<And>p. 1 \<le> p \<Longrightarrow> p \<le> N \<Longrightarrow> subseq (s' p) (s p)"
  shows "line_ok N s' made"
proof (rule line_less [OF assms(1)])
  show "\<forall>it \<in> set (s' p). origin_below p it" if "1 \<le> p" "p < N" for p
  proof -
    have "set (s' p) \<subseteq> set (s p)" using that by (intro subseq_set assms(2)) auto
    then show ?thesis using assms(1) that unfolding line_ok_def by blast
  qed
qed (rule down_shrink [OF assms(2)])

text \<open>Frames at the front of a segment move to the end of the next one, or disappear.\<close>

lemma line_move:
  assumes "line_ok N s made" and a: "1 \<le> a" "a < N"
    and eq: "\<And>p. p \<noteq> a \<Longrightarrow> p \<noteq> Suc a \<Longrightarrow> s' p = s p"
    and xs: "s a = xs @ s' a" "s' (Suc a) = s (Suc a) @ ys" "subseq ys xs"
  shows "line_ok N s' made"
proof (rule line_less [OF assms(1)])
  have "subseq (s' (Suc a) @ s' a) (s (Suc a) @ s a)"
    using xs by (auto intro!: list_emb_append_mono)
  with a eq show "subseq (down s' N) (down s N)" by (intro down_move [of a])
  show "\<forall>it \<in> set (s' p). origin_below p it" if p: "1 \<le> p" "p < N" for p
  proof
    fix it assume it: "it \<in> set (s' p)"
    have wide: "origin_below a it \<Longrightarrow> origin_below (Suc a) it" by (cases it) auto
    have "it \<in> set (s p) \<or> (p = Suc a \<and> it \<in> set (s a))"
      using it eq [of p] xs subseq_set [OF xs(3)]
      by (cases "p = a"; cases "p = Suc a") (auto simp: subset_iff)
    then show "origin_below p it" using assms(1) p a wide unfolding line_ok_def by auto
  qed
qed

text \<open>A new frame of node \<open>p\<close>, the Gateway being node 0, at the end of its own segment.\<close>

lemma line_snoc:
  assumes ok: "line_ok N s made" and p: "p < N" "N \<le> 256" and x: "x = Fr hdr data" "fh_origin_node_id hdr = of_nat p"
    and m: "m = (if p = 0 then N else p)"
    and s': "s' m = s m @ [x] \<or> s' m = s m" "\<And>i. i \<noteq> m \<Longrightarrow> s' i = s i"
  shows "line_ok N s' (made @ [x])"
  using s'(1)
proof
  have id: "unat (of_nat p :: u8) = p" using p by (intro unat_of_nat_u8) simp
  assume snoc: "s' m = s m @ [x]"
  have "origin_below i it" if "1 \<le> i" "i < N" "it \<in> set (s' i)" for i it
  proof (cases "i = m")
    case True
    then have "i = p" "m = p" using m that by (auto split: if_splits)
    then show ?thesis using that True snoc ok x id by (auto simp: line_ok_def)
  qed (use that s'(2) ok in \<open>auto simp: line_ok_def\<close>)
  moreover have "subseq (filter (from_node k) (down s' N)) (filter (from_node k) (made @ [x]))" for k
  proof -
    have "\<not> from_node k x \<or> (\<forall>j. 1 \<le> j \<longrightarrow> j < m \<longrightarrow> filter (from_node k) (s j) = [])"
    proof (cases "k = of_nat p")
      case True
      have "\<not> from_node k it" if it: "1 \<le> j" "j < m" "it \<in> set (s j)" for j it
      proof -
        have "origin_below j it" using ok it m p by (auto simp: line_ok_def split: if_splits)
        then show ?thesis using True id it m p by (cases it) (auto split: if_splits)
      qed
      then show ?thesis by (auto simp: filter_empty_conv)
    qed (use x in simp)
    then have "filter (from_node k) (down s' N) = filter (from_node k) (down s N) @ filter (from_node k) [x]"
      using m p snoc s'(2) by (intro filter_down_snoc [of m]) auto
    then show ?thesis using ok unfolding line_ok_def by (auto intro!: list_emb_append_mono)
  qed
  ultimately show ?thesis by (simp add: line_ok_def)
next
  assume "s' m = s m"
  then have "s' = s" using s'(2) by (intro ext) metis
  then show ?thesis
    using ok unfolding line_ok_def filter_append by (auto intro: subseq_order.trans list_emb_append2 subseq_rev_drop_many)
qed

section \<open>The network\<close>

record ('fq, 'sq, 'vq) vnet =
  vn_world :: "nat \<Rightarrow> ('fq, 'sq, 'vq) world"
  vn_conns :: "nat \<Rightarrow> bytes list"       \<comment> \<open>what the server after node \<open>p\<close> has not read, oldest connection first\<close>
  vn_up :: "nat \<Rightarrow> bool"                \<comment> \<open>the client of \<open>p\<close> has a connection, the last one\<close>
  vn_made :: "item list"               \<comment> \<open>all frames the cameras delivered\<close>
  vn_sent :: "(item \<times> bytes list) list" \<comment> \<open>the frames the Gateway counts as sent, with their datagrams\<close>

text \<open>What a client writes to a connection its server has closed is lost.\<close>

fun write_last :: "bytes \<Rightarrow> bytes list \<Rightarrow> bytes list" where
  "write_last bs [] = []"
| "write_last bs [x] = [x @ bs]"
| "write_last bs (x # y # xs) = x # write_last bs (y # xs)"

inductive vnet_step ::
  "'c receiver \<Rightarrow> ('c \<Rightarrow> bytes) \<Rightarrow> 'd sender \<Rightarrow> ('d \<Rightarrow> bytes) \<Rightarrow> alloc \<Rightarrow> (Frame, 'fq) queue_ops \<Rightarrow>
     (StatusItem, 'sq) queue_ops \<Rightarrow> (VideoItem, 'vq) queue_ops \<Rightarrow> nat \<Rightarrow>
     ('fq, 'sq, 'vq) vnet \<Rightarrow> ('fq, 'sq, 'vq) vnet \<Rightarrow> bool"
  for R inb W outb A FQ SQ VQ N where
  camera: "p < N \<Longrightarrow> data \<noteq> [] \<Longrightarrow> length data \<le> kVideoMaxFrameBytes \<Longrightarrow>
    vnet_step R inb W outb A FQ SQ VQ N n
      (n\<lparr>vn_world := (vn_world n)(p := relay_exec R A FQ SQ VQ (EvLuckfox sid sq data) (vn_world n p)),
         vn_made := vn_made n @ [camera_frame (v_nodeId (fst (vn_world n p))) sid sq data]\<rparr>)"
| connect: "p \<noteq> 0 \<Longrightarrow> p < N \<Longrightarrow> \<not> vn_up n p \<Longrightarrow>
    vnet_step R inb W outb A FQ SQ VQ N n
      (n\<lparr>vn_world := (vn_world n)(p := relay_exec R A FQ SQ VQ EvConnect (vn_world n p)),
         vn_conns := (vn_conns n)(p := vn_conns n p @ [[]]), vn_up := (vn_up n)(p := True)\<rparr>)"
| client: "p \<noteq> 0 \<Longrightarrow> p < N \<Longrightarrow> vn_up n p \<Longrightarrow> vn_world n p = (v, u, h) \<Longrightarrow>
    client_iter W FQ ((v, h), c) = (linkOk, (v', h'), c') \<Longrightarrow> outb c' = outb c @ bs \<Longrightarrow>
    vnet_step R inb W outb A FQ SQ VQ N n
      (n\<lparr>vn_world := (vn_world n)(p := (if linkOk then v' else client_lost v', u, h')),
         vn_conns := (vn_conns n)(p := write_last bs (vn_conns n p)), vn_up := (vn_up n)(p := linkOk)\<rparr>)"
| server: "p \<noteq> 0 \<Longrightarrow> p < N \<Longrightarrow> vn_conns n p = x # xs \<Longrightarrow> vn_world n (nxt N p) = (v, u, h) \<Longrightarrow>
    inb c = x \<Longrightarrow> drains R inb A c h \<Longrightarrow> server_iter R A FQ VQ ((v, u, h), c) = (go, w', c') \<Longrightarrow>
    vnet_step R inb W outb A FQ SQ VQ N n
      (n\<lparr>vn_world := (vn_world n)(nxt N p := if go then w' else relay_exec R A FQ SQ VQ EvClose w'),
         vn_conns := (vn_conns n)(p := if go then inb c' # xs else xs)\<rparr>)"
| uplink: "vn_world n 0 = (v, u, h) \<Longrightarrow> g_videoQueue u = Some q \<Longrightarrow> q_receive VQ q = Some (it, q') \<Longrightarrow>
    video_step VQ tx (u, h) = ((u', h'), ds) \<Longrightarrow>
    vnet_step R inb W outb A FQ SQ VQ N n
      (n\<lparr>vn_world := (vn_world n)(0 := (v, u', h')),
         vn_sent := (if g_vidSent u' = g_vidSent u then vn_sent n else vn_sent n @ [(vi_item h it, ds)])\<rparr>)"
| other: "p < N \<Longrightarrow> ev = EvAccept \<or> (\<exists>e. ev = EvUplink e \<and> (\<forall>tx. e \<noteq> EvVideoTask tx)) \<Longrightarrow>
    vnet_step R inb W outb A FQ SQ VQ N n
      (n\<lparr>vn_world := (vn_world n)(p := relay_exec R A FQ SQ VQ ev (vn_world n p))\<rparr>)"

text \<open>Every board has run \<open>init()\<close> of its relay, the Gateway that of its uplink too.\<close>

definition vnet0 ::
  "(Frame, 'fq) queue_ops \<Rightarrow> (StatusItem, 'sq) queue_ops \<Rightarrow> (VideoItem, 'vq) queue_ops \<Rightarrow> nat \<Rightarrow>
     (nat \<Rightarrow> bool) \<Rightarrow> eth_env \<Rightarrow> ('fq, 'sq, 'vq) vnet" where
  "vnet0 FQ SQ VQ N netif e =
     \<lparr>vn_world = (\<lambda>i. (fst (relay_init FQ (netif i) (of_nat i) (of_nat N) (i = 0) relay0),
                       if i = 0 then fst (snd (uplink_init SQ VQ e uplink0)) else uplink0, heap0)),
      vn_conns = (\<lambda>_. []), vn_up = (\<lambda>_. False), vn_made = [], vn_sent = []\<rparr>"

inductive vnet_reach ::
  "'c receiver \<Rightarrow> ('c \<Rightarrow> bytes) \<Rightarrow> 'd sender \<Rightarrow> ('d \<Rightarrow> bytes) \<Rightarrow> alloc \<Rightarrow> (Frame, 'fq) queue_ops \<Rightarrow>
     (StatusItem, 'sq) queue_ops \<Rightarrow> (VideoItem, 'vq) queue_ops \<Rightarrow> nat \<Rightarrow> ('fq, 'sq, 'vq) vnet \<Rightarrow> bool"
  for R inb W outb A FQ SQ VQ N where
  vboot: "vnet_reach R inb W outb A FQ SQ VQ N (vnet0 FQ SQ VQ N netif e)"
| vstep: "vnet_reach R inb W outb A FQ SQ VQ N n \<Longrightarrow> vnet_step R inb W outb A FQ SQ VQ N n n' \<Longrightarrow>
    vnet_reach R inb W outb A FQ SQ VQ N n'"

section \<open>The invariant\<close>

text \<open>A connection as the whole items written to it and the beginning of one cut short.\<close>

definition conn_bytes :: "item list \<times> bytes \<Rightarrow> bytes" where
  "conn_bytes = (\<lambda>(its, t). concat (map wire its) @ t)"

definition conns_ok :: "bytes list \<Rightarrow> (item list \<times> bytes) list \<Rightarrow> bool \<Rightarrow> bool" where
  "conns_ok cs P open \<longleftrightarrow> cs = map conn_bytes P \<and> (\<forall>(its, t) \<in> set P. list_all item_ok its \<and> cut_short t) \<and>
     (open \<and> P \<noteq> [] \<longrightarrow> snd (last P) = [])"

definition conn_frames :: "(item list \<times> bytes) list \<Rightarrow> item list" where
  "conn_frames P = concat (map (frames \<circ> fst) P)"

lemma conn_frames_simps [simp]: "conn_frames [] = []" "conn_frames ((its, t) # P) = frames its @ conn_frames P"
    "conn_frames (P @ P') = conn_frames P @ conn_frames P'"
  by (simp_all add: conn_frames_def)

lemma write_last_snoc [simp]: "write_last bs (xs @ [x]) = xs @ [x @ bs]"
  by (induction xs rule: induct_list012) simp_all

lemma conns_connect: "conns_ok cs P False \<Longrightarrow> conns_ok (cs @ [[]]) (P @ [([], [])]) True"
  by (auto simp: conns_ok_def conn_bytes_def)

lemma conns_write:
  assumes "conns_ok cs P True" and "item_ok it" and "if linkOk then bs = wire it else strict_prefix bs (wire it)"
  shows "\<exists>P'. conns_ok (write_last bs cs) P' linkOk \<and> subseq (conn_frames P') (conn_frames P @ frames [it])"
proof (cases P rule: rev_cases)
  case Nil
  then show ?thesis using assms(1) by (intro exI [of _ "[]"]) (simp add: conns_ok_def)
next
  case (snoc Ps x)
  then obtain its where P: "P = Ps @ [(its, [])]" using assms(1) by (cases x) (auto simp: conns_ok_def)
  have "cut_short bs" if "\<not> linkOk" using assms(2,3) that by (auto simp: cut_short_def)
  then have "conns_ok (write_last bs cs) (Ps @ [(its @ (if linkOk then [it] else []), if linkOk then [] else bs)]) linkOk"
    using assms P by (auto simp: conns_ok_def conn_bytes_def)
  moreover have "subseq (conn_frames (Ps @ [(its @ (if linkOk then [it] else []), if linkOk then [] else bs)]))
      (conn_frames P @ frames [it])"
    by (auto simp: P)
  ultimately show ?thesis by blast
qed

text \<open>The server reads an item, gives the connection up, or finds its end.\<close>

lemma conns_read:
  assumes "conns_ok (x # xs) P open"
  obtains its t P' where "P = (its, t) # P'" "x = concat (map wire its) @ t" "list_all item_ok its" "cut_short t"
    "conns_ok xs P' open" "conns_ok ([] # xs) (([], []) # P') open"
    "\<And>it rest. its = it # rest \<Longrightarrow> conns_ok ((concat (map wire rest) @ t) # xs) ((rest, t) # P') open"
proof -
  from assms obtain its t P' where P: "P = (its, t) # P'" by (cases P) (auto simp: conns_ok_def)
  show ?thesis
    using assms by (intro that [OF P]) (auto simp: P conns_ok_def conn_bytes_def split: if_splits)
qed

locale video_net = video_board FQ fv fc fcap VQ vv vc vcap A + tcp_stream R inb + tcp_sink W outb
  for FQ :: "(Frame, 'fq) queue_ops" and fv fc fcap
    and VQ :: "(VideoItem, 'vq) queue_ops" and vv vc vcap
    and A :: alloc and R :: "'c receiver" and inb and W :: "'d sender" and outb +
  fixes N :: nat and SQ :: "(StatusItem, 'sq) queue_ops"
  assumes two_boards: "2 \<le> N" and max_boards: "N \<le> unat kMaxChainNodes"
begin

abbreviation vstep where "vstep \<equiv> vnet_step R inb W outb A FQ SQ VQ N"

abbreviation items :: "('fq, 'sq, 'vq) vnet \<Rightarrow> nat \<Rightarrow> item list" where
  "items n p \<equiv> world_items fc vc (vn_world n p)"

definition segment :: "(nat \<Rightarrow> (item list \<times> bytes) list) \<Rightarrow> ('fq, 'sq, 'vq) vnet \<Rightarrow> nat \<Rightarrow> item list" where
  "segment P n m = (if m = 0 then [] else if m = N then map fst (vn_sent n) @ items n 0 else conn_frames (P m) @ items n m)"

definition board_at :: "nat \<Rightarrow> ('fq, 'sq, 'vq) world \<Rightarrow> bool" where
  "board_at i w \<longleftrightarrow> board_ok w \<and> v_nodeId (fst w) = of_nat i \<and> (v_isGateway (fst w) \<longleftrightarrow> i = 0)"

definition vnet_ok :: "(nat \<Rightarrow> (item list \<times> bytes) list) \<Rightarrow> ('fq, 'sq, 'vq) vnet \<Rightarrow> bool" where
  "vnet_ok P n \<longleftrightarrow> (\<forall>i < N. board_at i (vn_world n i)) \<and>
     (\<forall>p < N. p \<noteq> 0 \<longrightarrow> conns_ok (vn_conns n p) (P p) (vn_up n p)) \<and>
     line_ok N (segment P n) (vn_made n) \<and> (\<forall>(it, ds) \<in> set (vn_sent n). ds = datagrams it)"

lemma small_chain: "0 < N" "N \<le> 256"
  using two_boards max_boards by (simp_all add: config_defs)

lemma nxt_board: "p \<noteq> 0 \<Longrightarrow> p < N \<Longrightarrow> nxt N p = (if Suc p = N then 0 else Suc p)"
  by (auto simp: nxt_def)

lemma board_at_same: "board_at i w \<Longrightarrow> board_ok w' \<Longrightarrow> same_board w w' \<Longrightarrow> board_at i w'"
  by (simp add: board_at_def same_board_def)

lemma board_at_exec:
  assumes "board_at i w" and "same_board w (relay_exec R A FQ SQ VQ ev w)"
  shows "board_at i (relay_exec R A FQ SQ VQ ev w)"
  using assms relay_exec_ok [OF tcp_stream_axioms, of w SQ ev] by (auto simp: board_at_def same_board_def)

text \<open>Events that leave the frames of a board as they are.\<close>

lemma exec_idle:
  assumes "ev \<in> {EvAccept, EvClose, EvConnect, EvLost} \<or> (\<exists>e. ev = EvUplink e \<and> (\<forall>tx. e \<noteq> EvVideoTask tx))"
  shows "same_board w (relay_exec R A FQ SQ VQ ev w) \<and>
    world_items fc vc (relay_exec R A FQ SQ VQ ev w) = world_items fc vc w"
proof -
  obtain v u h where w: "w = (v, u, h)" by (cases w)
  show ?thesis
  proof (cases "\<exists>e. ev = EvUplink e")
    case True
    then obtain e where e: "ev = EvUplink e" "\<And>tx. e \<noteq> EvVideoTask tx" using assms by auto
    obtain u' h' where x: "uplink_exec SQ VQ e (u, h) = (u', h')" by fastforce
    show ?thesis
    proof (cases "\<exists>nid st sq a d. e = EvVideo nid st sq a d")
      case True
      then show ?thesis using e by (auto simp: w)
    next
      case False
      then have "g_videoQueue u' = g_videoQueue u" "h' = h"
        using uplink_event_same [OF x e(2)] by auto
      moreover have "relay_exec R A FQ SQ VQ ev w = (v, u', h')"
        using e False x by (cases e) (auto simp: w)
      ultimately show ?thesis using world_items_same [of v v u' u h] by (simp add: w same_board_def)
    qed
  next
    case False
    then show ?thesis
      using assms by (auto simp: w same_board_def client_connected_def client_lost_def world_items_def out_frames_def)
  qed
qed

text \<open>What a step has to keep, when it changes one board.\<close>

lemma vnet_okI:
  assumes "vnet_ok P n" and "board_at p w" and "vn_world n' = (vn_world n)(p := w)"
    and "\<And>a. a \<noteq> 0 \<Longrightarrow> a < N \<Longrightarrow> conns_ok (vn_conns n' a) (P' a) (vn_up n' a)"
    and "line_ok N (segment P' n') (vn_made n')" and "\<forall>(it, ds) \<in> set (vn_sent n'). ds = datagrams it"
  shows "\<exists>P'. vnet_ok P' n'"
  using assms unfolding vnet_ok_def by (intro exI [of _ P']) auto

lemma camera_ok:
  assumes "vnet_ok P n" and p: "p < N" and data: "data \<noteq> []" "length data \<le> kVideoMaxFrameBytes"
    and n': "n' = n\<lparr>vn_world := (vn_world n)(p := relay_exec R A FQ SQ VQ (EvLuckfox sid sq data) (vn_world n p)),
      vn_made := vn_made n @ [camera_frame (v_nodeId (fst (vn_world n p))) sid sq data]\<rparr>"
  shows "\<exists>P'. vnet_ok P' n'"
proof -
  obtain v u h where w: "vn_world n p = (v, u, h)" by (cases "vn_world n p")
  have b: "board_at p (v, u, h)" using assms(1) p by (metis vnet_ok_def w)
  let ?w = "relay_exec R A FQ SQ VQ (EvLuckfox sid sq data) (v, u, h)"
  have same: "same_board (v, u, h) ?w"
    by (auto simp: onLuckfoxFrame_def same_board_def [of "(v, u, h)" "(v, _)"]
        intro: same_board_enqueue split: prod.split option.split)
  have its: "world_items fc vc ?w = items n p @ [camera_frame (v_nodeId v) sid sq data] \<or>
      world_items fc vc ?w = items n p"
    using camera_items [OF _ data, of v u h R SQ sid sq] b by (auto simp: board_at_def w)
  show ?thesis
  proof (rule vnet_okI [OF assms(1) board_at_exec [OF b same], of n' P])
    let ?m = "if p = 0 then N else p"
    have made: "vn_made n' = vn_made n @ [camera_frame (v_nodeId v) sid sq data]" by (simp add: n' w)
    show "line_ok N (segment P n') (vn_made n')"
      unfolding made
    proof (rule line_snoc [where p = p and m = ?m])
      show "line_ok N (segment P n) (vn_made n)" using assms(1) by (simp add: vnet_ok_def)
      show "camera_frame (v_nodeId v) sid sq data = Fr \<lparr>fh_origin_node_id = v_nodeId v, fh_stream_id = sid,
          fh_seq = sq, fh_data_len = of_nat (length data)\<rparr> data"
        by (simp add: camera_frame_def)
      show "fh_origin_node_id \<lparr>fh_origin_node_id = v_nodeId v, fh_stream_id = sid, fh_seq = sq,
          fh_data_len = of_nat (length data)\<rparr> = of_nat p"
        using b by (simp add: board_at_def)
    qed (use p small_chain its w in \<open>auto simp: segment_def n' simp del: relay_exec.simps\<close>)
  qed (use assms(1) in \<open>auto simp: n' w vnet_ok_def\<close>)
qed

lemma connect_ok:
  assumes "vnet_ok P n" and p: "p \<noteq> 0" "p < N" "\<not> vn_up n p"
    and n': "n' = n\<lparr>vn_world := (vn_world n)(p := relay_exec R A FQ SQ VQ EvConnect (vn_world n p)),
      vn_conns := (vn_conns n)(p := vn_conns n p @ [[]]), vn_up := (vn_up n)(p := True)\<rparr>"
  shows "\<exists>P'. vnet_ok P' n'"
proof -
  have idle: "same_board (vn_world n p) (relay_exec R A FQ SQ VQ EvConnect (vn_world n p))"
    "world_items fc vc (relay_exec R A FQ SQ VQ EvConnect (vn_world n p)) = items n p"
    using exec_idle [of EvConnect "vn_world n p"] by auto
  have b: "board_at p (vn_world n p)" using assms(1) p by (simp add: vnet_ok_def)
  let ?P = "P(p := P p @ [([], [])])"
  have "segment ?P n' = segment P n"
    by (rule ext) (use idle p in \<open>auto simp: n' segment_def\<close>)
  then show ?thesis
    using assms(1) p conns_connect [of "vn_conns n p" "P p"]
    by (intro vnet_okI [OF assms(1) board_at_exec [OF b idle(1)], of n' ?P]) (auto simp: n' vnet_ok_def)
qed

lemma other_ok:
  assumes "vnet_ok P n" and p: "p < N"
    and ev: "ev = EvAccept \<or> (\<exists>e. ev = EvUplink e \<and> (\<forall>tx. e \<noteq> EvVideoTask tx))"
    and n': "n' = n\<lparr>vn_world := (vn_world n)(p := relay_exec R A FQ SQ VQ ev (vn_world n p))\<rparr>"
  shows "\<exists>P'. vnet_ok P' n'"
proof -
  have idle: "same_board (vn_world n p) (relay_exec R A FQ SQ VQ ev (vn_world n p))"
    "world_items fc vc (relay_exec R A FQ SQ VQ ev (vn_world n p)) = items n p"
    using exec_idle [of ev "vn_world n p"] ev by auto
  have b: "board_at p (vn_world n p)" using assms(1) p by (simp add: vnet_ok_def)
  have "segment P n' = segment P n"
    by (rule ext) (use idle p in \<open>auto simp: n' segment_def\<close>)
  then show ?thesis
    using assms(1) by (intro vnet_okI [OF assms(1) board_at_exec [OF b idle(1)], of n' P]) (auto simp: n' vnet_ok_def)
qed

lemma client_ok:
  assumes "vnet_ok P n" and p: "p \<noteq> 0" "p < N" "vn_up n p" and w: "vn_world n p = (v, u, h)"
    and pass: "client_iter W FQ ((v, h), c) = (linkOk, (v', h'), c')" and bs: "outb c' = outb c @ bs"
    and n': "n' = n\<lparr>vn_world := (vn_world n)(p := (if linkOk then v' else client_lost v', u, h')),
         vn_conns := (vn_conns n)(p := write_last bs (vn_conns n p)), vn_up := (vn_up n)(p := linkOk)\<rparr>"
  shows "\<exists>P'. vnet_ok P' n'"
proof -
  have b: "board_ok (v, u, h)" "v_nodeId v = of_nat p" "\<not> v_isGateway v"
    using assms(1) p w by (auto simp: vnet_ok_def board_at_def dest!: spec [of _ p])
  obtain it tail where it: "outb c' = outb c @ tail" "item_ok it"
      "if linkOk then tail = wire it else strict_prefix tail (wire it)"
      "items n p = frames [it] @ world_items fc vc (v', u, h')" "v_nodeId v' = v_nodeId v" "v_isGateway v' = v_isGateway v"
    using client_items [OF b(1,3) tcp_sink_axioms pass] w by auto
  have tail: "tail = bs" using it(1) bs by simp
  let ?w = "(if linkOk then v' else client_lost v', u, h')"
  have w': "board_at p ?w" "world_items fc vc ?w = world_items fc vc (v', u, h')"
    using client_iter_ok [OF b(1) pass] board_counters [of v' u h' "client_lost v'"] b p it(5,6)
    by (auto simp: board_at_def client_lost_def world_items_def out_frames_def)
  have conns: "conns_ok (vn_conns n p) (P p) True" using assms(1) p by (auto simp: vnet_ok_def)
  obtain Q' where Q': "conns_ok (write_last bs (vn_conns n p)) Q' linkOk"
      "subseq (conn_frames Q') (conn_frames (P p) @ frames [it])"
    using conns_write [OF conns it(2,3)] tail by blast
  show ?thesis
  proof (rule vnet_okI [OF assms(1) w'(1), of n' "P(p := Q')"])
    have "line_ok N (segment P n) (vn_made n)" using assms(1) by (simp add: vnet_ok_def)
    moreover have "subseq (segment (P(p := Q')) n' m) (segment P n m)" for m
      using Q'(2) it(4) w'(2) p list_emb_append_mono [OF Q'(2), of "world_items fc vc ?w" "world_items fc vc ?w"]
      by (auto simp: segment_def n')
    ultimately show "line_ok N (segment (P(p := Q')) n') (vn_made n')"
      using line_shrink [of N "segment P n"] by (simp add: n')
  qed (use assms(1) Q'(1) in \<open>auto simp: n' vnet_ok_def\<close>)
qed

lemma uplink_ok_step:
  assumes "vnet_ok P n" and w: "vn_world n 0 = (v, u, h)" and r: "g_videoQueue u = Some q" "q_receive VQ q = Some (it, q')"
    and pass: "video_step VQ tx (u, h) = ((u', h'), ds)"
    and n': "n' = n\<lparr>vn_world := (vn_world n)(0 := (v, u', h')),
         vn_sent := (if g_vidSent u' = g_vidSent u then vn_sent n else vn_sent n @ [(vi_item h it, ds)])\<rparr>"
  shows "\<exists>P'. vnet_ok P' n'"
proof -
  have b: "board_ok (v, u, h)" "v_nodeId v = of_nat 0" "v_isGateway v"
    using assms(1) w small_chain by (auto simp: vnet_ok_def board_at_def dest!: spec [of _ 0])
  note up = uplink_items [OF b(1,3) r pass]
  have w': "board_at 0 (v, u', h')"
    using video_step_holds [OF b(1), of tx u' h'] pass b by (simp add: board_at_def)
  show ?thesis
  proof (rule vnet_okI [OF assms(1) w', of n' P])
    have "line_ok N (segment P n) (vn_made n)" using assms(1) by (simp add: vnet_ok_def)
    moreover have "subseq (segment P n' m) (segment P n m)" for m
      using up(1) w small_chain by (auto simp: segment_def n' intro!: list_emb_append_mono)
    ultimately show "line_ok N (segment P n') (vn_made n')"
      using line_shrink [of N "segment P n"] by (simp add: n')
  qed (use assms(1) up(2) in \<open>auto simp: n' vnet_ok_def split: if_splits\<close>)
qed

lemma server_ok:
  assumes "vnet_ok P n" and p: "p \<noteq> 0" "p < N" and cs: "vn_conns n p = x # xs"
    and w: "vn_world n (nxt N p) = (v, u, h)" and c: "inb c = x" "drains R inb A c h"
    and pass: "server_iter R A FQ VQ ((v, u, h), c) = (go, w', c')"
    and n': "n' = n\<lparr>vn_world := (vn_world n)(nxt N p := if go then w' else relay_exec R A FQ SQ VQ EvClose w'),
      vn_conns := (vn_conns n)(p := if go then inb c' # xs else xs)\<rparr>"
  shows "\<exists>P'. vnet_ok P' n'"
proof -
  let ?y = "nxt N p" and ?w = "if go then w' else relay_exec R A FQ SQ VQ EvClose w'"
  have y: "?y < N" "?y \<noteq> p" "?y = (if Suc p = N then 0 else Suc p)" using p nxt_board by auto
  have b: "board_at ?y (v, u, h)" using assms(1) y(1) w by (metis vnet_ok_def)
  have "board_at ?y w'"
    using server_iter_ok [OF tcp_stream_axioms, of v u h c] server_iter_same [of "(v, u, h)" R c] b pass
    by (simp add: board_at_def same_board_def)
  then have w': "board_at ?y ?w" using exec_idle [of EvClose w'] board_at_exec [of ?y w' EvClose] by auto
  have items: "world_items fc vc ?w = world_items fc vc w'" using exec_idle [of EvClose w'] by auto
  have line: "line_ok N (segment P n) (vn_made n)"
    and conns: "conns_ok (x # xs) (P p) (vn_up n p)" using assms(1) p cs by (auto simp: vnet_ok_def dest!: spec [of _ p])
  obtain its t Q where Q: "P p = (its, t) # Q" "x = concat (map wire its) @ t" "list_all item_ok its" "cut_short t"
    "conns_ok xs Q (vn_up n p)" "conns_ok ([] # xs) (([], []) # Q) (vn_up n p)"
    "\<And>it rest. its = it # rest \<Longrightarrow> conns_ok ((concat (map wire rest) @ t) # xs) ((rest, t) # Q) (vn_up n p)"
    using conns_read [OF conns] by metis
  note res = server_takes [OF tcp_stream_axioms Q(3,4) _ c(2) pass, unfolded c(1), OF Q(2)]
  have finish: "\<exists>P'. vnet_ok P' n'"
    if Q': "conns_ok (vn_conns n' p) Q' (vn_up n p)" and l: "line_ok N (segment (P(p := Q')) n') (vn_made n)" for Q'
    using assms(1) Q' l by (intro vnet_okI [OF assms(1) w', of n' "P(p := Q')"]) (auto simp: n' vnet_ok_def)
  have lost: "\<exists>P'. vnet_ok P' n'"
    if Q': "conns_ok (vn_conns n' p) Q' (vn_up n p)" "conn_frames Q' = conn_frames Q"
      and same: "world_items fc vc ?w = items n ?y" for Q'
  proof (rule finish [OF Q'(1)])
    have "subseq (segment (P(p := Q')) n' m) (segment P n m)" for m
      using Q'(2) Q(1) same y p by (auto simp: segment_def n' intro: list_emb_append2)
    then show "line_ok N (segment (P(p := Q')) n') (vn_made n)"
      using line_shrink [OF line] by blast
  qed
  show ?thesis
  proof (cases go)
    case False
    then have "w' = (v, u, h)" using res by simp
    with False items w Q(5) show ?thesis by (intro lost [of Q]) (simp_all add: n')
  next
    case True
    show ?thesis
    proof (cases its)
      case Nil
      then have "w' = (v\<lparr>g_vDrop := g_vDrop v + 1\<rparr>, u, h)" "inb c' = []" using res True by simp_all
      then show ?thesis
        using True w Q(6) world_items_same [of "v\<lparr>g_vDrop := g_vDrop v + 1\<rparr>" v u u h]
        by (intro lost [of "([], []) # Q"]) (simp_all add: n')
    next
      case (Cons it rest)
      then have t: "w' = take_item A FQ VQ it (v, u, h)" "inb c' = concat (map wire rest) @ t"
        using res True by simp_all
      have its: "world_items fc vc ?w = items n ?y @ frames [it] \<or> world_items fc vc ?w = items n ?y"
        using take_item_items [of v u h it] b Q(3) Cons t(1) True w by (auto simp: board_at_def)
      let ?P = "P(p := (rest, t) # Q)"
      have seg: "segment P n p = frames [it] @ segment ?P n' p"
        using Q(1) Cons p y frames_simps(4) [of "[it]" rest] by (simp add: segment_def n')
      obtain ys where ys: "segment ?P n' (Suc p) = segment P n (Suc p) @ ys" "subseq ys (frames [it])"
        using its y p by (auto simp: segment_def n')
      have eq: "segment ?P n' m = segment P n m" if "m \<noteq> p" "m \<noteq> Suc p" for m
        using that y p by (auto simp: segment_def n')
      show ?thesis
        using p eq seg ys t(2) Q(7) [OF Cons] True
        by (intro finish [of "(rest, t) # Q"] line_move [OF line, of p _ "frames [it]" ys]) (auto simp: n')
    qed
  qed
qed

lemma vnet_step_ok:
  assumes "vnet_ok P n" and "vstep n n'"
  shows "\<exists>P'. vnet_ok P' n'"
  using assms(2)
proof cases
  case (camera p data sid sq)
  with assms(1) show ?thesis by (intro camera_ok)
next
  case (connect p)
  with assms(1) show ?thesis by (intro connect_ok)
next
  case (client p v u h c linkOk v' h' c' bs)
  with assms(1) show ?thesis by (intro client_ok)
next
  case (server p x xs v u h c go w' c')
  with assms(1) show ?thesis by (intro server_ok)
next
  case (uplink v u h q it q' tx u' h' ds)
  with assms(1) show ?thesis by (intro uplink_ok_step)
next
  case (other p ev)
  with assms(1) show ?thesis by (intro other_ok)
qed

lemma boot_board:
  assumes "i < N" and "q_create FQ kVideoQueueDepth \<noteq> None"
  shows "board_at i (vn_world (vnet0 FQ SQ VQ N netif e) i)" and "items (vnet0 FQ SQ VQ N netif e) i = []"
proof -
  obtain q where q: "q_create FQ kVideoQueueDepth = Some q" using assms(2) by auto
  note fq.create_inv [OF q]
  moreover have "vq.qinv q \<and> vc q = [] \<and> vcap q = kVideoUplinkQueueDepth"
    if "q_create VQ kVideoUplinkQueueDepth = Some q" for q
    using vq.create_inv [OF that] .
  ultimately show "board_at i (vn_world (vnet0 FQ SQ VQ N netif e) i)" "items (vnet0 FQ SQ VQ N netif e) i = []"
    using q heap0_owns
    by (auto simp: vnet0_def relay_init_def relay0_def uplink_init_videoQueue uplink0_def board_at_def board_ok_def
        relay_ok_def uplink_ok_def relay_bufs_def uplink_bufs_def holds_def world_items_def out_frames_def
        up_items_def Let_def split: option.splits)
qed

lemma vnet_reach_ok:
  assumes "vnet_reach R inb W outb A FQ SQ VQ N n" and "q_create FQ kVideoQueueDepth \<noteq> None"
  shows "\<exists>P. vnet_ok P n"
  using assms(1)
proof induction
  case (vboot netif e)
  let ?n = "vnet0 FQ SQ VQ N netif e :: ('fq, 'sq, 'vq) vnet"
  have "segment (\<lambda>_. []) ?n m = []" if "m \<le> N" for m
    using that boot_board(2) [OF _ assms(2), of _ netif e] small_chain
    by (auto simp: segment_def) (simp add: vnet0_def)
  then have "down (segment (\<lambda>_. []) ?n) m = []" if "m \<le> N" for m using that by (induction m) auto
  moreover note \<open>\<And>m. m \<le> N \<Longrightarrow> segment (\<lambda>_. []) ?n m = []\<close>
  ultimately have "vnet_ok (\<lambda>_. []) ?n"
    using boot_board(1) [OF _ assms(2)] by (auto simp: vnet_ok_def line_ok_def conns_ok_def) (auto simp: vnet0_def)
  then show ?case by blast
next
  case (vstep n n')
  then show ?case using vnet_step_ok by blast
qed

text \<open>What has been sent is the front of the line.\<close>

lemma sent_in_order:
  assumes "vnet_reach R inb W outb A FQ SQ VQ N n" and "q_create FQ kVideoQueueDepth \<noteq> None"
  shows "subseq (filter (from_node k) (map fst (vn_sent n))) (filter (from_node k) (vn_made n)) \<and>
    (\<forall>(it, ds) \<in> set (vn_sent n). ds = datagrams it)"
proof -
  obtain P where P: "vnet_ok P n" using vnet_reach_ok [OF assms] by blast
  obtain m where m: "N = Suc m" using small_chain by (cases N) auto
  have "segment P n N = map fst (vn_sent n) @ items n 0" using small_chain by (simp add: segment_def)
  then have "down (segment P n) N = map fst (vn_sent n) @ items n 0 @ down (segment P n) m"
    by (metis m down.simps(2) append_assoc)
  then have "subseq (filter (from_node k) (map fst (vn_sent n))) (filter (from_node k) (down (segment P n) N))"
    by (auto intro: list_emb_prefix)
  moreover have "subseq (filter (from_node k) (down (segment P n) N)) (filter (from_node k) (vn_made n))"
    using P by (simp add: vnet_ok_def line_ok_def)
  ultimately show ?thesis using P by (auto simp: vnet_ok_def dest: subseq_order.trans)
qed

end

interpretation lvn: video_net list_queue "\<lambda>_. True" fst snd list_queue "\<lambda>_. True" fst snd "pool_alloc k"
  seg_recv concat "mss_send m" fst 2 list_queue for k m
  by unfold_locales (simp_all add: config_defs)


section \<open>End to end\<close>

text \<open>Video end to end: whatever the interleaving, the cut connections, the full queues and the
  lost buffers, the frames of a node that the Gateway counts as sent are a subsequence of those
  its camera delivered: in order, none twice, none altered and none of another node; and
  each of them went out as all of its datagrams. (Drains that time out are excluded.)\<close>

lemma video_chain_in_order:
  assumes "video_net FQ fv fc fcap VQ vv vc vcap A R inb W outb N"
    and "vnet_reach R inb W outb A FQ SQ VQ N n" and "q_create FQ kVideoQueueDepth \<noteq> None"
  shows "subseq (filter (from_node k) (map fst (vn_sent n))) (filter (from_node k) (vn_made n)) \<and>
    (\<forall>(it, ds) \<in> set (vn_sent n). ds = datagrams it)"
  by (rule video_net.sent_in_order [OF assms])

end
