(* ===== verification/Site.thy ===== *)
theory Site
  imports Backend VideoChain
begin

text \<open>
  The whole installation: \<open>N\<close> boards, each running the complete firmware of MainLoop from its
  boot on, and what lies between them: the ESP-NOW frames on the air, the TCP connections
  of the video path, the camera boards and the backend. \<open>site_exec\<close> performs one event:
  a pass of a polling loop, the reception of a frame, a pass of an SPI task, of the server or
  of the client of a video relay, any event of the Gateway's uplink, or a fault of the
  radio; an event that does not apply leaves the site as it is.
\<close>

section \<open>State\<close>

record ('p, 'r, 'q, 'fq, 'sq, 'vq) site =
  st_boards :: "('p, 'r, 'q, 'fq, 'sq, 'vq) board list"
  st_ether :: "bytes list list list"       \<comment> \<open>row \<open>i\<close>, column \<open>j\<close>: frames from board \<open>i\<close> to board \<open>j\<close>\<close>
  st_conns :: "bytes list list"            \<comment> \<open>per relay, what the next server has not read, by connection\<close>
  st_open :: "bool list"                   \<comment> \<open>the relay's client has a connection, the last one\<close>
  st_lines :: "bytes list"                 \<comment> \<open>the status lines the backend took whole\<close>
  st_made :: "item list"                   \<comment> \<open>the frames the cameras delivered\<close>
  st_sent :: "(item \<times> bytes list) list"    \<comment> \<open>the frames counted as sent, with their datagrams\<close>

text \<open>The frames for the station with address \<open>m\<close> among those handed to the radio.\<close>

definition radio_to :: "mac \<Rightarrow> (mac \<times> bytes) list \<Rightarrow> bytes list" where
  "radio_to m out = map snd (filter (\<lambda>(d, _). d = m \<or> d = kBroadcastMac) out)"

text \<open>Board \<open>x\<close> becomes \<open>b\<close>, and what it has handed to the radio meanwhile is on the air.\<close>

definition put_board ::
  "(nat \<Rightarrow> mac) \<Rightarrow> nat \<Rightarrow> ('p, 'r, 'q, 'fq, 'sq, 'vq) board \<Rightarrow>
     ('p, 'r, 'q, 'fq, 'sq, 'vq) site \<Rightarrow> ('p, 'r, 'q, 'fq, 'sq, 'vq) site" where
  "put_board macs x b F =
     (let out = drop (length (b_radio (st_boards F ! x))) (b_radio b);
          row = st_ether F ! x
      in F\<lparr>st_boards := (st_boards F)[x := b],
           st_ether := (st_ether F)[x := map (\<lambda>j. if j = x then row ! j else row ! j @ radio_to (macs j) out)
                                          [0..<length row]]\<rparr>)"

definition set_ether ::
  "nat \<Rightarrow> nat \<Rightarrow> bytes list \<Rightarrow> ('p, 'r, 'q, 'fq, 'sq, 'vq) site \<Rightarrow> ('p, 'r, 'q, 'fq, 'sq, 'vq) site" where
  "set_ether y x fs F = F\<lparr>st_ether := (st_ether F)[y := (st_ether F ! y)[x := fs]]\<rparr>"

section \<open>What the observers see\<close>

text \<open>What a pass of the SPI task hands to its callbacks, and those callbacks on a record of it.\<close>

datatype spi_item = Shot u8 u16 addr u32 | Seen u8 u8 bytes

definition note_items :: "spi_item list spi_callbacks" where
  "note_items = \<lparr>g_onFrame = Some (\<lambda>sid sq a len (its, h). (its @ [Shot sid sq a len], h)),
     g_onStatus = Some (\<lambda>sid oc pl its. its @ [Seen sid oc pl])\<rparr>"

text \<open>The frames the camera of a board delivers in a pass.\<close>

fun shot_frame :: "u8 \<Rightarrow> heap \<Rightarrow> spi_item \<Rightarrow> item list" where
  "shot_frame nid h (Shot sid sq a len) = [camera_frame nid sid sq (heap_read a h)]"
| "shot_frame nid h (Seen sid oc pl) = []"

definition shots ::
  "('p, 'r, 'q, 'fq, 'sq, 'vq, 't, 'c) platform \<Rightarrow> 't spi_rx \<Rightarrow>
     ('p, 'r, 'q, 'fq, 'sq, 'vq) board \<Rightarrow> item list" where
  "shots pf r b =
     (if \<not> b_spiUp b then []
      else case receiver_pass (pf_spi pf) (pf_time pf) (pf_alloc pf) note_items (r, [], b_heap b) of
             None \<Rightarrow> []
           | Some (_, its, h) \<Rightarrow> concat (map (shot_frame (v_nodeId (b_relay b)) h) its))"

text \<open>The line a pass of the status task gets to the backend.\<close>

definition line_out ::
  "('p, 'r, 'q, 'fq, 'sq, 'vq, 't, 'c) platform \<Rightarrow> uplink_event \<Rightarrow>
     ('p, 'r, 'q, 'fq, 'sq, 'vq) board \<Rightarrow> bytes list" where
  "line_out pf ev b =
     (case ev of
        EvStatusTask e \<Rightarrow>
          (case status_step (pf_status pf) e (b_uplink b) of
             (u, ls) \<Rightarrow> if g_stSent u = g_stSent (b_uplink b) then [] else ls)
      | _ \<Rightarrow> [])"

text \<open>The frame a pass of the video task sends, with its datagrams.\<close>

definition frame_out ::
  "('p, 'r, 'q, 'fq, 'sq, 'vq, 't, 'c) platform \<Rightarrow> uplink_event \<Rightarrow>
     ('p, 'r, 'q, 'fq, 'sq, 'vq) board \<Rightarrow> (item \<times> bytes list) list" where
  "frame_out pf ev b =
     (case (ev, Option.bind (g_videoQueue (b_uplink b)) (q_receive (pf_video pf))) of
        (EvVideoTask tx, Some (it, _)) \<Rightarrow>
          (case video_step (pf_video pf) tx (b_uplink b, b_heap b) of
             ((u, _), ds) \<Rightarrow>
               if g_vidSent u = g_vidSent (b_uplink b) then [] else [(vi_item (b_heap b) it, ds)])
      | _ \<Rightarrow> [])"

section \<open>Events\<close>

datatype ('t, 'c, 'd) site_event =
    Pass nat clock int int        \<comment> \<open>the polling loop of a board\<close>
  | Hear nat nat                  \<comment> \<open>from, to: the first frame on the air arrives\<close>
  | Fade nat nat nat              \<comment> \<open>from, to, which: a frame is lost\<close>
  | Echo nat nat nat              \<comment> \<open>from, to, which: a frame arrives twice\<close>
  | Shoot nat "'t spi_rx"         \<comment> \<open>the SPI task of a board\<close>
  | Uplink uplink_event           \<comment> \<open>a task or callback of the Gateway's uplink\<close>
  | Accept nat                    \<comment> \<open>the server of a board accepts a connection\<close>
  | Connect nat                   \<comment> \<open>the client of a relay connects to the next board\<close>
  | Client nat 'd                 \<comment> \<open>a pass of a relay's client\<close>
  | Server nat 'c                 \<comment> \<open>the board after a relay: a pass of its server\<close>

text \<open>
  The client's socket is \<open>W\<close> with \<open>outb\<close> what it has taken; the server reads the oldest of the
  connections, which then holds \<open>inb c\<close>, with whatever segmentation and timeouts.
\<close>

fun site_exec ::
  "('p, 'r, 'q, 'fq, 'sq, 'vq, 't, 'c) platform \<Rightarrow> ('c \<Rightarrow> bytes) \<Rightarrow> 'd sender \<Rightarrow> ('d \<Rightarrow> bytes) \<Rightarrow>
     nat \<Rightarrow> (nat \<Rightarrow> mac) \<Rightarrow> ('t, 'c, 'd) site_event \<Rightarrow>
     ('p, 'r, 'q, 'fq, 'sq, 'vq) site \<Rightarrow> ('p, 'r, 'q, 'fq, 'sq, 'vq) site" where
  "site_exec pf inb W outb N macs (Pass x now us us') F =
     (if x < N then put_board macs x (board_exec pf (MainPass now us us') (st_boards F ! x)) F else F)"
| "site_exec pf inb W outb N macs (Hear y x) F =
     (if y < N \<and> x < N \<and> y \<noteq> x then
        (case st_ether F ! y ! x of
           [] \<Rightarrow> F
         | f # fs \<Rightarrow> put_board macs x (board_exec pf (WifiRecv (macs y) f (int (length f))) (st_boards F ! x))
                      (set_ether y x fs F))
      else F)"
| "site_exec pf inb W outb N macs (Fade y x k) F =
     (if y < N \<and> x < N \<and> y \<noteq> x \<and> k < length (st_ether F ! y ! x)
      then set_ether y x (take k (st_ether F ! y ! x) @ drop (Suc k) (st_ether F ! y ! x)) F else F)"
| "site_exec pf inb W outb N macs (Echo y x k) F =
     (if y < N \<and> x < N \<and> y \<noteq> x \<and> k < length (st_ether F ! y ! x)
      then set_ether y x (take k (st_ether F ! y ! x) @ (st_ether F ! y ! x ! k) # drop k (st_ether F ! y ! x)) F
      else F)"
| "site_exec pf inb W outb N macs (Shoot x r) F =
     (if x < N
      then (put_board macs x (board_exec pf (SpiPass r) (st_boards F ! x)) F)
             \<lparr>st_made := st_made F @ shots pf r (st_boards F ! x)\<rparr>
      else F)"
| "site_exec pf inb W outb N macs (Uplink ev) F =
     (let b = st_boards F ! 0
      in if \<not> runs (b_isGateway b) (EvUplink ev :: 'c relay_event) then F
         else (put_board macs 0 (board_exec pf (VideoEv (EvUplink ev)) b) F)
                \<lparr>st_lines := st_lines F @ line_out pf ev b, st_sent := st_sent F @ frame_out pf ev b\<rparr>)"
| "site_exec pf inb W outb N macs (Accept x) F =
     (if x < N then put_board macs x (board_exec pf (VideoEv EvAccept) (st_boards F ! x)) F else F)"
| "site_exec pf inb W outb N macs (Connect x) F =
     (if x \<noteq> 0 \<and> x < N \<and> \<not> st_open F ! x
      then (put_board macs x (board_exec pf (VideoEv EvConnect) (st_boards F ! x)) F)
             \<lparr>st_conns := (st_conns F)[x := st_conns F ! x @ [[]]], st_open := (st_open F)[x := True]\<rparr>
      else F)"
| "site_exec pf inb W outb N macs (Client x c) F =
     (if x \<noteq> 0 \<and> x < N \<and> st_open F ! x then
        (let b = st_boards F ! x
         in case client_iter W (pf_frames pf) ((b_relay b, b_heap b), c) of
              (linkOk, (v, h), c') \<Rightarrow>
                (put_board macs x (b\<lparr>b_relay := if linkOk then v else client_lost v, b_heap := h\<rparr>) F)
                  \<lparr>st_conns := (st_conns F)[x := write_last (drop (length (outb c)) (outb c')) (st_conns F ! x)],
                   st_open := (st_open F)[x := linkOk]\<rparr>)
      else F)"
| "site_exec pf inb W outb N macs (Server x c) F =
     (if x \<noteq> 0 \<and> x < N then
        (let y = nxt N x; b = st_boards F ! y
         in case st_conns F ! x of
              [] \<Rightarrow> F
            | bs # cs \<Rightarrow>
                if inb c \<noteq> bs then F
                else
                  (case server_iter (pf_recv pf) (pf_alloc pf) (pf_frames pf) (pf_video pf)
                          ((b_relay b, b_uplink b, b_heap b), c) of
                     (go, _, c') \<Rightarrow>
                       (let b1 = board_exec pf (VideoEv (EvServer c)) b;
                            b2 = (if go then b1 else board_exec pf (VideoEv EvClose) b1)
                        in (put_board macs y b2 F)
                             \<lparr>st_conns := (st_conns F)[x := if go then inb c' # cs else cs]\<rparr>)))
      else F)"

text \<open>
  A run in which no drain of a frame without a buffer is cut short by a timeout (VideoProps
  shows what happens after one).
\<close>

fun drain_ok ::
  "('p, 'r, 'q, 'fq, 'sq, 'vq, 't, 'c) platform \<Rightarrow> ('c \<Rightarrow> bytes) \<Rightarrow> nat \<Rightarrow> ('t, 'c, 'd) site_event \<Rightarrow>
     ('p, 'r, 'q, 'fq, 'sq, 'vq) site \<Rightarrow> bool" where
  "drain_ok pf inb N (Server x c) F \<longleftrightarrow>
     (case st_conns F ! x of
        [] \<Rightarrow> True
      | bs # _ \<Rightarrow> inb c = bs \<longrightarrow> drains (pf_recv pf) inb (pf_alloc pf) c (b_heap (st_boards F ! nxt N x)))"
| "drain_ok pf inb N _ F \<longleftrightarrow> True"

fun in_step ::
  "('p, 'r, 'q, 'fq, 'sq, 'vq, 't, 'c) platform \<Rightarrow> ('c \<Rightarrow> bytes) \<Rightarrow> 'd sender \<Rightarrow> ('d \<Rightarrow> bytes) \<Rightarrow>
     nat \<Rightarrow> (nat \<Rightarrow> mac) \<Rightarrow> ('t, 'c, 'd) site_event list \<Rightarrow> ('p, 'r, 'q, 'fq, 'sq, 'vq) site \<Rightarrow> bool" where
  "in_step pf inb W outb N macs [] F \<longleftrightarrow> True"
| "in_step pf inb W outb N macs (ev # evs) F \<longleftrightarrow>
     drain_ok pf inb N ev F \<and> in_step pf inb W outb N macs evs (site_exec pf inb W outb N macs ev F)"

lemma in_step_append:
  "in_step pf inb W outb N macs (xs @ ys) F \<longleftrightarrow>
     in_step pf inb W outb N macs xs F \<and> in_step pf inb W outb N macs ys (fold (site_exec pf inb W outb N macs) xs F)"
  by (induction xs arbitrary: F) simp_all

lemma in_step_no_server:
  "list_all (\<lambda>ev. case ev of Server _ _ \<Rightarrow> False | _ \<Rightarrow> True) evs \<Longrightarrow> in_step pf inb W outb N macs evs F"
proof (induction evs arbitrary: F)
  case (Cons ev evs)
  then show ?case by (cases ev) simp_all
qed simp

section \<open>Power-on\<close>

text \<open>The boards have booted, their first HELLO is on the air; nothing else has happened.\<close>

definition site_of :: "nat \<Rightarrow> (nat \<Rightarrow> mac) \<Rightarrow> (nat \<Rightarrow> ('p, 'r, 'q, 'fq, 'sq, 'vq) board) \<Rightarrow>
     ('p, 'r, 'q, 'fq, 'sq, 'vq) site" where
  "site_of N macs B =
     \<lparr>st_boards = map B [0..<N],
      st_ether = map (\<lambda>i. map (\<lambda>j. if i = j then [] else radio_to (macs j) (b_radio (B i))) [0..<N]) [0..<N],
      st_conns = replicate N [], st_open = replicate N False, st_lines = [], st_made = [], st_sent = []\<rparr>"

section \<open>A pass of the SPI task\<close>

text \<open>A pass makes the same calls whatever the callbacks do: it can be replayed from its record.\<close>

definition replay ::
  "(u8 \<Rightarrow> u16 \<Rightarrow> addr \<Rightarrow> u32 \<Rightarrow> 'w \<times> heap \<Rightarrow> 'w \<times> heap) \<Rightarrow> (u8 \<Rightarrow> u8 \<Rightarrow> bytes \<Rightarrow> 'w \<Rightarrow> 'w) \<Rightarrow>
     spi_item list \<Rightarrow> 'w \<times> heap \<Rightarrow> 'w \<times> heap" where
  "replay f g = fold (\<lambda>it (w, h). case it of Shot sid sq a len \<Rightarrow> f sid sq a len (w, h)
     | Seen sid oc pl \<Rightarrow> (g sid oc pl w, h))"

lemma pass_replay:
  assumes "g_onFrame cb = Some f" and "g_onStatus cb = Some g"
  shows "receiver_pass T clk A cb (r, w, h) =
    map_option (\<lambda>(r', its, h'). (r', replay f g its (w, h'))) (receiver_pass T clk A note_items (r, [], h))"
  by (auto simp: receiver_pass_def receive_status_def receive_frame_def note_items_def replay_def assms Let_def
      split: option.split prod.split bool.split)

context spi_slave
begin

lemma pass_items:
  assumes "allocator A" and "receiver_pass T clk A note_items (r, [], h) = Some (r', its, h')"
  shows "its = [] \<and> h' = h \<or> (\<exists>sid oc pl. its = [Seen sid oc pl] \<and> h' = h) \<or>
    (\<exists>sid sq a len data h1. its = [Shot sid sq a len] \<and> in_bounds len \<and> spi_alloc A (unat len) h = (Some a, h1) \<and>
       length data = unat len \<and> h' = h\<lparr>mem := (mem h)(a \<mapsto> data)\<rparr>)"
  using pass_cases [OF assms] by (auto simp: on_status_def on_frame_def note_items_def)

end

end
