(* ===== verification/SiteStatus.thy ===== *)
theory SiteStatus
  imports Site
begin

text \<open>
  The status path of an installation of complete boards: every run of \<open>site_exec\<close> is simulated
  by the plant of Backend. A pass of a polling loop is the handling of every queued frame
  followed by a loop body; a frame on the air of the plant is one on the air of the site
  or in the receive queue of a board.
\<close>

section \<open>Frames of a node and frames of its radio\<close>

definition addressed :: "call list \<Rightarrow> bool" where
  "addressed cs \<longleftrightarrow> (\<forall>m f. EspSend m f \<in> set cs \<longrightarrow> m \<noteq> kBroadcastMac)"

lemma radio_frames:
  assumes "addressed cs" and "m \<noteq> kBroadcastMac" and "\<forall>f \<in> set (frames_to m cs). length f \<le> kMaxPacketBytes"
  shows "radio_to m (concat (map on_radio cs)) = frames_to m cs"
  using assms(1,3)
proof (induction cs)
  case Nil
  then show ?case by (simp add: radio_to_def)
next
  case (Cons c cs)
  then show ?case using assms(2) by (cases c) (auto simp: radio_to_def addressed_def split: if_splits)
qed

lemma frame_ok_length: "frame_ok N i j f \<Longrightarrow> length f \<le> kMaxPacketBytes"
  by (auto simp: frame_ok_def pkt_ok_def sizeof_defs config_defs kMaxPacketBytes_def)

text \<open>A node never addresses a packet to the broadcast address, and only appends to its log.\<close>

definition unicaster :: "'q node \<Rightarrow> bool" where
  "unicaster s \<longleftrightarrow> g_nextMac s \<noteq> kBroadcastMac \<and> g_prevMac s \<noteq> kBroadcastMac \<and> addressed (calls s)"

lemmas unicaster_defs = unicaster_def addressed_def emit_def

lemma unicaster_body: "unicaster s \<Longrightarrow> unicaster (loop_body Q now s)"
proof -
  assume "unicaster s"
  then have "unicaster (loop_hello now s)" by (auto simp: loop_hello_def broadcastHello_def unicaster_defs)
  then have l: "unicaster (loop_local Q now (loop_hello now s))" (is "unicaster ?s")
    by (auto simp: loop_local_def outQueueSend_def unicaster_defs Let_def split: option.split)
  then have "unicaster (loop_send Q now ?s)"
    by (auto simp: loop_send_def retransmit_def sendStatus_def outQueueReceive_def beginForwarding_def
        unicaster_defs Let_def split: option.split)
  with l \<open>unicaster (loop_hello now s)\<close> show ?thesis by (simp add: loop_body_def Let_def)
qed

lemma unicaster_recv:
  assumes "m \<noteq> kBroadcastMac"
  shows "unicaster s \<Longrightarrow> unicaster (onEspNowRecv Q m f s)"
proof -
  assume s: "unicaster s"
  have "unicaster t \<Longrightarrow> unicaster (learnNext m h t)" "unicaster t \<Longrightarrow> unicaster (learnPrev m h t)"
    for h and t :: "'a node"
    using assms by (auto simp: learnNext_def learnPrev_def unicaster_defs)
  with s have "unicaster (learnPrev m h (learnNext m h s))" for h by blast
  with s have "unicaster (handleHello m h s)" for h by (auto simp: handleHello_def Let_def unicaster_defs)
  moreover have "unicaster (handleAck m a s)" for a using s by (simp add: handleAck_def unicaster_defs)
  moreover have "unicaster (handleStatus Q m p s)" for p
    using s by (auto simp: handleStatus_def sendAck_def noteAccepted_def outQueueSend_def unicaster_defs Let_def
        split: option.split)
  ultimately show ?thesis using s by (simp add: onEspNowRecv_def)
qed

lemma unicaster_init: "unicaster (chain_init Q now nid n node0)"
  by (auto simp: chain_init_def broadcastHello_def node0_def unicaster_defs kBroadcastMac_def Let_def)

lemma unicaster_lane: "unicaster (setLaneStatus sid oc pl s) = unicaster s"
  by (simp add: setLaneStatus_def unicaster_def)

lemma new_calls_trans:
  assumes "grows s s1" and "grows s1 s2"
  shows "new_calls s s2 = new_calls s s1 @ new_calls s1 s2"
  using assms by (auto simp: grows_def new_calls_def elim!: prefixE)

lemma grows_lane: "grows s (setLaneStatus sid oc pl s)"
  by (simp add: setLaneStatus_def grows_defs)

text \<open>What the events of a video relay do to the uplink of the board: at most a new frame.\<close>

definition frame_taken :: "(VideoItem, 'vq) queue_ops \<Rightarrow> ('sq, 'vq) uplink \<Rightarrow> ('sq, 'vq) uplink \<Rightarrow> bool" where
  "frame_taken VQ u u' \<longleftrightarrow> u' = u \<or> (\<exists>nid st sq a len h. u' = fst (flushVideo VQ nid st sq a len (u, h)))"

lemma frame_taken_refl [simp]: "frame_taken VQ u u"
  by (simp add: frame_taken_def)

lemma enqueue_uplink:
  assumes "enqueueOrDrop FQ VQ f (v, u, h) = (v', u', h')"
  shows "frame_taken VQ u u'"
proof (cases "v_isGateway v \<and> fr_data f \<noteq> None")
  case True
  then obtain a where a: "fr_data f = Some a" by auto
  obtain u1 h1 where fl: "flushVideo VQ (fh_origin_node_id (fr_header f)) (fh_stream_id (fr_header f))
      (fh_seq (fr_header f)) a (fh_data_len (fr_header f)) (u, h) = (u1, h1)" by fastforce
  then have "u' = u1" using assms True a by (simp add: enqueueOrDrop_def sinkFrame_def kChainSelfTest_def Let_def)
  then show ?thesis using fl unfolding frame_taken_def by (metis fst_conv)
next
  case False
  then show ?thesis
    using assms by (auto simp: frame_taken_def enqueueOrDrop_def sinkFrame_def kChainSelfTest_def Let_def split: if_splits option.splits)
qed

lemma flush_any_heap:
  "\<exists>ev h'. uplink_exec SQ VQ ev (u, heap0) = (fst (flushVideo VQ nid st sq a len (u, h)), h') \<and>
     (case ev of EvFlush _ _ _ _ \<Rightarrow> False | EvStatusTask _ \<Rightarrow> False | _ \<Rightarrow> True)"
proof -
  let ?ev = "EvVideo nid st sq a (replicate (unat len) 0)"
  have "fst (uplink_exec SQ VQ ?ev (u, heap0)) = fst (flushVideo VQ nid st sq a len (u, h))"
    by (auto simp: heap0_def flushVideo_def Let_def split: option.split)
  then show ?thesis by (intro exI [of _ ?ev] exI [of _ "snd (uplink_exec SQ VQ ?ev (u, heap0))"]) (simp add: prod_eq_iff)
qed

lemma relay_event_uplink:
  assumes "relay_exec R A FQ SQ VQ ev (v, u, h) = (v', u', h')" and "\<And>e. ev \<noteq> EvUplink e"
  shows "frame_taken VQ u u'"
proof -
  have lux: "frame_taken VQ u u2"
    if "onLuckfoxFrame FQ VQ sid sq a len (v1, u, h1) = (v2, u2, h2)" for sid sq a len v1 h1 v2 u2 h2
    using that enqueue_uplink by (simp add: onLuckfoxFrame_def)
  show ?thesis
  proof (cases ev)
    case (EvServer c)
    then show ?thesis
      using assms(1) by (auto simp: server_iter_def Let_def dest: enqueue_uplink split: option.splits prod.splits if_splits)
  next
    case (EvLuckfox sid sq data)
    then show ?thesis using assms(1) by (auto dest: lux split: if_splits prod.splits option.splits)
  next
    case (EvSelfTest seqs stream)
    then show ?thesis using assms(1) by (auto dest: lux simp: selfTestProducer_def Let_def split: prod.splits option.splits)
  qed (use assms in \<open>auto split: prod.splits\<close>)
qed

lemma log_stats_rest:
  "b_node (log_stats now us b) = b_node b" "b_radio (log_stats now us b) = b_radio b"
  "b_transport (log_stats now us b) = b_transport b" "b_relay (log_stats now us b) = b_relay b"
  "b_heap (log_stats now us b) = b_heap b" "b_isGateway (log_stats now us b) = b_isGateway b"
  "b_uplink (log_stats now us b) = b_uplink b \<or> b_uplink (log_stats now us b) = fst (uplink_logStats us (b_uplink b))"
  by (simp_all add: log_stats_def Let_def)

section \<open>What an installation consists of\<close>

locale site_parts =
  ch: chain "pf_out pf" qv qc qcap N macs +
  vid: video_net "pf_frames pf" fv fc fcap "pf_video pf" vv vc vcap "pf_alloc pf" "pf_recv pf" inb W outb N
    "pf_status pf" +
  sq: rtos_queue "pf_status pf" sv sc scap +
  rx: rx_queue "pf_rx pf" rv rc rcap +
  spi: spi_slave "pf_spi pf"
  for pf :: "('p, 'r, 'q, 'fq, 'sq, 'vq, 't, 'c) platform" and qv qc qcap and N and macs :: "nat \<Rightarrow> mac"
    and fv fc fcap vv vc vcap and inb and W :: "'d sender" and outb and sv sc scap rv rc rcap +
  assumes unicast: "i < N \<Longrightarrow> macs i \<noteq> kBroadcastMac"
begin

text \<open>A pass of the SPI task does nothing, takes a reading, or takes a frame of the camera.\<close>

lemma spi_pass:
  "(board_exec pf (SpiPass r) b = b \<and> shots pf r b = []) \<or>
   (\<exists>sid oc pl. board_exec pf (SpiPass r) b = b\<lparr>b_node := setLaneStatus sid oc pl (b_node b)\<rparr> \<and> shots pf r b = []) \<or>
   (\<exists>sid sq data v u h. data \<noteq> [] \<and> length data \<le> kVideoMaxFrameBytes \<and>
      shots pf r b = [camera_frame (v_nodeId (b_relay b)) sid sq data] \<and>
      relay_exec (pf_recv pf) (pf_alloc pf) (pf_frames pf) (pf_status pf) (pf_video pf) (EvLuckfox sid sq data)
        (b_relay b, b_uplink b, b_heap b) = (v, u, h) \<and>
      board_exec pf (SpiPass r) b = b\<lparr>b_relay := v, b_uplink := u, b_heap := h\<rparr>)"
proof -
  let ?f = "\<lambda>sid sq a len ((s, v, u), h). case onLuckfoxFrame (pf_frames pf) (pf_video pf) sid sq a len (v, u, h) of
    (v1, u1, h1) \<Rightarrow> ((s, v1, u1), h1)"
    and ?g = "\<lambda>sid oc pl (s, v, u). (setLaneStatus sid oc pl s, v, u)"
  let ?cb = "board_callbacks (pf_frames pf) (pf_video pf)"
  let ?note = "receiver_pass (pf_spi pf) (pf_time pf) (pf_alloc pf) note_items (r, [], b_heap b)"
  have run: "receiver_pass (pf_spi pf) (pf_time pf) (pf_alloc pf) ?cb (r, (b_node b, b_relay b, b_uplink b), b_heap b) =
      map_option (\<lambda>(r', its, h'). (r', replay ?f ?g its ((b_node b, b_relay b, b_uplink b), h'))) ?note"
    by (rule pass_replay) (simp_all add: board_callbacks_def)
  consider "\<not> b_spiUp b \<or> ?note = None" | r' its h' where "b_spiUp b" "?note = Some (r', its, h')"
    by (cases ?note) auto
  then show ?thesis
  proof cases
    case 1
    then show ?thesis using run by (auto simp: shots_def)
  next
    case 2
    from spi.pass_items [OF vid.allocator_axioms 2(2)]
    consider "its = []" "h' = b_heap b" | sid oc pl where "its = [Seen sid oc pl]" "h' = b_heap b"
      | sid sq a len data h1 where "its = [Shot sid sq a len]" "in_bounds len" "length data = unat len"
        "spi_alloc (pf_alloc pf) (unat len) (b_heap b) = (Some a, h1)"
        "h' = (b_heap b)\<lparr>mem := (mem (b_heap b))(a \<mapsto> data)\<rparr>"
      by auto
    then show ?thesis
    proof cases
      case 1
      then show ?thesis using run 2 by (simp add: shots_def replay_def)
    next
      case (2 sid oc pl)
      then show ?thesis using run \<open>b_spiUp b\<close> \<open>?note = _\<close>
        by (intro disjI2 disjI1 exI [of _ sid] exI [of _ oc] exI [of _ pl]) (simp add: shots_def replay_def)
    next
      case (3 sid sq a len data h1)
      have al: "allocFrameBuffer (pf_alloc pf) (length data) (b_heap b) = (Some a, h1)"
        using 3(3,4) by (simp add: spi_alloc_eq)
      have fill: "heap_write a 0 data h1 = h'"
        using vid.alloc_filled [OF al refl] 3(5) by simp
      have len: "data \<noteq> []" "length data \<le> kVideoMaxFrameBytes" "of_nat (length data) = len"
        using 3(2,3) by (auto simp: in_bounds_def)
      obtain v u h where w: "onLuckfoxFrame (pf_frames pf) (pf_video pf) sid sq a len (b_relay b, b_uplink b, h') = (v, u, h)"
        by (metis prod_cases3)
      have "relay_exec (pf_recv pf) (pf_alloc pf) (pf_frames pf) (pf_status pf) (pf_video pf) (EvLuckfox sid sq data)
          (b_relay b, b_uplink b, b_heap b) = (v, u, h)"
        using al fill len w by simp
      moreover have "shots pf r b = [camera_frame (v_nodeId (b_relay b)) sid sq data]"
        using 2 3(1,5) by (simp add: shots_def heap_read_def)
      moreover have "board_exec pf (SpiPass r) b = b\<lparr>b_relay := v, b_uplink := u, b_heap := h\<rparr>"
        using run 2 3(1) w by (simp add: replay_def)
      ultimately show ?thesis using len(1,2) by blast
    qed
  qed
qed

end

section \<open>Moves of one node in the plant\<close>

context site_parts
begin

abbreviation pstep where "pstep \<equiv> plant_step (pf_out pf) N macs (pf_status pf) (pf_video pf)"
abbreviation preach where "preach \<equiv> plant_reach (pf_out pf) N macs (pf_status pf) (pf_video pf)"

text \<open>Only node \<open>x\<close> moved, \<open>E\<close> being what is now on the air for it.\<close>

definition moved :: "nat \<Rightarrow> (nat \<Rightarrow> bytes list) \<Rightarrow> 'q net \<Rightarrow> 'q net \<Rightarrow> bool" where
  "moved x E n n' \<longleftrightarrow> grows (nodes n x) (nodes n' x) \<and> (\<forall>y. y \<noteq> x \<longrightarrow> nodes n' y = nodes n y) \<and>
     (\<forall>i < N. \<forall>j < N. i \<noteq> j \<longrightarrow> air n' i j =
        (if j = x then E i
         else if i = x then air n x j @ frames_to (macs j) (new_calls (nodes n x) (nodes n' x))
         else air n i j))"

lemma moved_refl: "(\<And>i. i < N \<Longrightarrow> i \<noteq> x \<Longrightarrow> air n i x = E i) \<Longrightarrow> moved x E n n"
  by (simp add: moved_def)

lemma moved_trans: "moved x E n n1 \<Longrightarrow> moved x E' n1 n2 \<Longrightarrow> moved x E' n n2"
  unfolding moved_def using new_calls_trans [of "nodes n x" "nodes n1 x" "nodes n2 x"]
  by (auto simp: frames_to_append intro: grows_trans)

lemma moved_update:
  "grows (nodes n x) s \<Longrightarrow> moved x (\<lambda>i. air n i x) n (update_node macs x s n)"
  "grows (nodes n x) s \<Longrightarrow> moved x (\<lambda>i. if i = y then fs else air n i x) n (update_node macs x s (set_air y x fs n))"
  by (auto simp: moved_def update_node_def set_air_def Let_def)

lemma handed_trans: "moved x E n n1 \<Longrightarrow> moved x E' n1 n2 \<Longrightarrow> handed n n2 = handed n n1 @ handed n1 n2"
  using new_calls_trans [of "nodes n 0" "nodes n1 0" "nodes n2 0"]
  by (cases "x = 0") (auto simp: moved_def flushed_of_append)

text \<open>And the plant took what the Gateway's node handed over.\<close>

definition passed ::
  "nat \<Rightarrow> (nat \<Rightarrow> bytes list) \<Rightarrow> ('q, 'sq, 'vq) plant \<Rightarrow> ('q, 'sq, 'vq) plant \<Rightarrow> bool" where
  "passed x E s s' \<longleftrightarrow> moved x E (pl_net s) (pl_net s') \<and> pl_lines s' = pl_lines s \<and>
     pl_up s' = fold (flush_reading (pf_status pf)) (handed (pl_net s) (pl_net s')) (pl_up s)"

lemma passed_trans: "passed x E s s1 \<Longrightarrow> passed x E' s1 s2 \<Longrightarrow> passed x E' s s2"
  unfolding passed_def using moved_trans handed_trans by (metis fold_append comp_apply)

lemma pass_chain:
  assumes "net_step (pf_out pf) N macs (pl_net s) n'" and "moved x E (pl_net s) n'"
  shows "\<exists>s'. pstep\<^sup>*\<^sup>* s s' \<and> passed x E s s' \<and> pl_net s' = n'"
proof -
  let ?s = "s\<lparr>pl_net := n', pl_up := fold (flush_reading (pf_status pf)) (handed (pl_net s) n') (pl_up s)\<rparr>"
  have "pstep s ?s" by (rule plant_step.in_chain [OF assms(1)])
  moreover have "passed x E s ?s" using assms(2) by (simp add: passed_def)
  ultimately show ?thesis by (intro exI [of _ ?s]) auto
qed

lemma pass_tick:
  assumes "x < N"
  shows "\<exists>s'. pstep\<^sup>*\<^sup>* s s' \<and> passed x (\<lambda>i. air (pl_net s) i x) s s' \<and>
    nodes (pl_net s') x = loop_body (pf_out pf) now (nodes (pl_net s) x)"
proof -
  let ?n' = "update_node macs x (loop_body (pf_out pf) now (nodes (pl_net s) x)) (pl_net s)"
  have "nodes ?n' x = loop_body (pf_out pf) now (nodes (pl_net s) x)" by (simp add: update_node_def Let_def)
  then show ?thesis
    using pass_chain [OF net_step.tick [OF assms] moved_update(1) [OF grows_body]] by metis
qed

lemma pass_lane:
  assumes "x < N"
  shows "\<exists>s'. pstep\<^sup>*\<^sup>* s s' \<and> passed x (\<lambda>i. air (pl_net s) i x) s s' \<and>
    nodes (pl_net s') x = setLaneStatus sid oc pl (nodes (pl_net s) x)"
proof -
  let ?n' = "update_node macs x (setLaneStatus sid oc pl (nodes (pl_net s) x)) (pl_net s)"
  have "nodes ?n' x = setLaneStatus sid oc pl (nodes (pl_net s) x)" by (simp add: update_node_def Let_def)
  then show ?thesis
    using pass_chain [OF net_step.lane [OF assms] moved_update(1) [OF grows_lane]] by metis
qed

text \<open>The receive queue of a board, item by item.\<close>

definition from_board :: "nat \<Rightarrow> RxItem list \<Rightarrow> bytes list" where
  "from_board y its = map rx_frame (filter (\<lambda>it. rx_mac it = macs y) its)"

definition known :: "nat \<Rightarrow> RxItem \<Rightarrow> bool" where
  "known x it \<longleftrightarrow> (\<exists>y < N. y \<noteq> x \<and> rx_mac it = macs y)"

lemma pass_deliver:
  assumes "x < N"
  shows "list_all (known x) its \<Longrightarrow>
    (\<And>y. y < N \<Longrightarrow> y \<noteq> x \<Longrightarrow> air (pl_net s) y x = from_board y its @ E y) \<Longrightarrow>
    \<exists>s'. pstep\<^sup>*\<^sup>* s s' \<and> passed x E s s' \<and>
      nodes (pl_net s') x = deliver_all (onEspNowRecv (pf_out pf)) its (nodes (pl_net s) x)"
proof (induction its arbitrary: s)
  case Nil
  then have "passed x E s s" by (simp add: passed_def moved_refl from_board_def)
  then show ?case by (intro exI [of _ s]) simp
next
  case (Cons it its)
  let ?n = "pl_net s"
  obtain y where y: "y < N" "y \<noteq> x" "rx_mac it = macs y" using Cons.prems(1) by (auto simp: known_def)
  let ?fs = "from_board y its @ E y" and ?st = "onEspNowRecv (pf_out pf) (macs y) (rx_frame it) (nodes (pl_net s) x)"
  let ?n1 = "update_node macs x ?st (set_air y x ?fs ?n)"
  have "air ?n y x = rx_frame it # ?fs" using Cons.prems(2) [OF y(1,2)] y(3) by (simp add: from_board_def)
  from net_step.deliver [OF y(1) assms y(2) this]
  obtain s1 where s1: "pstep\<^sup>*\<^sup>* s s1" "passed x (\<lambda>i. if i = y then ?fs else air ?n i x) s s1" "pl_net s1 = ?n1"
    using pass_chain [OF _ moved_update(2) [OF grows_recv]] by blast
  have st: "nodes ?n1 x = ?st" by (simp add: update_node_def Let_def)
  have "air (pl_net s1) z x = from_board z its @ E z" if "z < N" "z \<noteq> x" for z
    using s1(2) that assms Cons.prems(2) [OF that] y ch.macs_eq [of z y]
    by (auto simp: passed_def moved_def from_board_def)
  then obtain s' where "pstep\<^sup>*\<^sup>* s1 s'" "passed x E s1 s'"
      "nodes (pl_net s') x = deliver_all (onEspNowRecv (pf_out pf)) its ?st"
    using Cons.IH [of s1] Cons.prems(1) s1(3) st by auto
  then show ?case
    using s1(1,2) y(3) by (intro exI [of _ s']) (auto intro: rtranclp_trans passed_trans)
qed

end

section \<open>The simulation relation\<close>

context site_parts
begin

text \<open>Every frame in the receive queue of a board comes from another board.\<close>

definition board_rel :: "nat \<Rightarrow> ('p, 'r, 'q, 'fq, 'sq, 'vq) board \<Rightarrow> bool" where
  "board_rel x b \<longleftrightarrow> unicaster (b_node b) \<and> g_handler (b_transport b) = Some (onEspNowRecv (pf_out pf)) \<and>
     (\<exists>rq. g_rxQueue (b_transport b) = Some rq \<and> rx.qinv rq \<and> list_all (known x) (rc rq))"

definition inbox :: "nat \<Rightarrow> ('p, 'r, 'q, 'fq, 'sq, 'vq) board \<Rightarrow> bytes list" where
  "inbox y b = (case g_rxQueue (b_transport b) of None \<Rightarrow> [] | Some rq \<Rightarrow> from_board y (rc rq))"

definition square :: "('p, 'r, 'q, 'fq, 'sq, 'vq) site \<Rightarrow> bool" where
  "square F \<longleftrightarrow> length (st_boards F) = N \<and> length (st_ether F) = N \<and> (\<forall>i < N. length (st_ether F ! i) = N)"

definition status_rel :: "('p, 'r, 'q, 'fq, 'sq, 'vq) site \<Rightarrow> ('q, 'sq, 'vq) plant \<Rightarrow> bool" where
  "status_rel F s \<longleftrightarrow> square F \<and>
     (\<forall>i < N. board_rel i (st_boards F ! i) \<and> nodes (pl_net s) i = b_node (st_boards F ! i)) \<and>
     (\<forall>i < N. \<forall>j < N. i \<noteq> j \<longrightarrow> air (pl_net s) i j = inbox i (st_boards F ! j) @ st_ether F ! i ! j) \<and>
     pl_up s = b_uplink (st_boards F ! 0) \<and> pl_lines s = st_lines F"

lemma stations: "0 < N" "1 < N"
  using ch.two_nodes by simp_all

lemma square_put: "square F \<Longrightarrow> x < N \<Longrightarrow> square (put_board macs x b F)"
  by (auto simp: square_def put_board_def Let_def nth_list_update)

lemma square_set: "square F \<Longrightarrow> y < N \<Longrightarrow> square (set_ether y x fs F)"
  by (auto simp: square_def set_ether_def nth_list_update)

lemma look_put:
  assumes "square F" and "x < N"
  shows "i < N \<Longrightarrow> st_boards (put_board macs x b F) ! i = (if i = x then b else st_boards F ! i)"
    and "i < N \<Longrightarrow> j < N \<Longrightarrow> st_ether (put_board macs x b F) ! i ! j =
      (if i = x \<and> j \<noteq> x
       then st_ether F ! x ! j @ radio_to (macs j) (drop (length (b_radio (st_boards F ! x))) (b_radio b))
       else st_ether F ! i ! j)"
    and "st_lines (put_board macs x b F) = st_lines F"
  using assms by (auto simp: square_def put_board_def Let_def nth_list_update)

lemma look_set:
  assumes "square F" and "y < N" and "x < N"
  shows "st_boards (set_ether y x fs F) = st_boards F"
    and "i < N \<Longrightarrow> j < N \<Longrightarrow> st_ether (set_ether y x fs F) ! i ! j =
      (if i = y \<and> j = x then fs else st_ether F ! i ! j)"
    and "st_lines (set_ether y x fs F) = st_lines F"
  using assms by (auto simp: square_def set_ether_def nth_list_update)

lemma put_same: "square F \<Longrightarrow> x < N \<Longrightarrow> put_board macs x (st_boards F ! x) F = F"
proof -
  assume sq: "square F" "x < N"
  have "map (\<lambda>j. if j = x then row ! j else row ! j @ radio_to (macs j) []) [0..<length row] = row" for row
    by (intro nth_equalityI) (auto simp: radio_to_def)
  from this [of "st_ether F ! x"]
  show ?thesis using sq by (simp add: put_board_def square_def Let_def)
qed

lemma new_frames_ok:
  assumes "preach s'" and m: "moved x E (pl_net s) (pl_net s')" and "x < N" "j < N" "x \<noteq> j"
    and "unicaster (nodes (pl_net s') x)"
  shows "radio_to (macs j) (concat (map on_radio (new_calls (nodes (pl_net s) x) (nodes (pl_net s') x)))) =
    frames_to (macs j) (new_calls (nodes (pl_net s) x) (nodes (pl_net s') x))"
proof (rule radio_frames [OF _ unicast [OF assms(4)]])
  let ?cs = "new_calls (nodes (pl_net s) x) (nodes (pl_net s') x)"
  have "calls (nodes (pl_net s') x) = calls (nodes (pl_net s) x) @ ?cs"
    using m by (intro grows_calls) (simp add: moved_def)
  with assms(6) have "addressed (calls (nodes (pl_net s) x) @ ?cs)" by (simp add: unicaster_def)
  then show "addressed ?cs" by (simp add: addressed_def)
  have "ch.net_inv (pl_net s')"
    using plant_inv [OF sq.rtos_queue_axioms assms(1)] ch.net_reach_inv by blast
  moreover have "air (pl_net s') x j = air (pl_net s) x j @ frames_to (macs j) ?cs"
    using m assms(3-5) by (simp add: moved_def)
  ultimately have "\<forall>f \<in> set (frames_to (macs j) ?cs). frame_ok N x j f"
    using assms(3-5) by (simp add: ch.net_inv_def)
  then show "\<forall>f \<in> set (frames_to (macs j) ?cs). length f \<le> kMaxPacketBytes"
    using frame_ok_length by blast
qed

text \<open>One board and the node of the plant for it have moved alike.\<close>

lemma status_put:
  assumes rel: "status_rel F s" and x: "x < N" and s': "preach s'" "moved x E (pl_net s) (pl_net s')"
    and b: "board_rel x b" "b_node b = nodes (pl_net s') x"
    and radio: "b_radio b = b_radio (st_boards F ! x) @
      concat (map on_radio (new_calls (nodes (pl_net s) x) (nodes (pl_net s') x)))"
    and G: "square G" "st_boards G = st_boards F"
      "\<And>i j. i < N \<Longrightarrow> j < N \<Longrightarrow> j \<noteq> x \<Longrightarrow> st_ether G ! i ! j = st_ether F ! i ! j"
    and E: "\<And>i. i < N \<Longrightarrow> i \<noteq> x \<Longrightarrow> E i = inbox i b @ st_ether G ! i ! x"
    and up: "pl_up s' = (if x = 0 then b_uplink b else pl_up s)"
    and F': "st_boards F' = st_boards (put_board macs x b G)" "st_ether F' = st_ether (put_board macs x b G)"
      "st_lines F' = pl_lines s'"
  shows "status_rel F' s'"
proof -
  let ?cs = "new_calls (nodes (pl_net s) x) (nodes (pl_net s') x)"
  note look = look_put [OF G(1) x, where b = b, folded F'(1,2)]
  have sq: "square F'" using square_put [OF G(1) x, of b] F'(1,2) by (simp add: square_def)
  have "board_rel i (st_boards F' ! i) \<and> nodes (pl_net s') i = b_node (st_boards F' ! i)" if "i < N" for i
    using that rel b s'(2) by (auto simp: look(1) G(2) status_rel_def moved_def)
  moreover have "air (pl_net s') i j = inbox i (st_boards F' ! j) @ st_ether F' ! i ! j"
    if ij: "i < N" "j < N" "i \<noteq> j" for i j
  proof (cases "j = x")
    case True
    then show ?thesis using ij s'(2) E [of i] by (simp add: look(1) look(2) moved_def)
  next
    case jx: False
    have old: "air (pl_net s) i j = inbox i (st_boards F ! j) @ st_ether F ! i ! j"
      using rel ij by (simp add: status_rel_def)
    show ?thesis
    proof (cases "i = x")
      case True
      have "unicaster (nodes (pl_net s') x)" using b by (simp add: board_rel_def)
      from new_frames_ok [OF s' x ij(2) _ this] jx
      have "radio_to (macs j) (drop (length (b_radio (st_boards F ! x))) (b_radio b)) = frames_to (macs j) ?cs"
        by (simp add: radio)
      then show ?thesis
        using True jx ij old s'(2) G(3) [of x j] by (simp add: look(1) look(2) G(2) moved_def)
    next
      case False
      then show ?thesis using jx ij old s'(2) G(3) [of i j] by (simp add: look(1) look(2) G(2) moved_def)
    qed
  qed
  moreover have "pl_up s' = b_uplink (st_boards F' ! 0)"
    using up rel stations by (simp add: look(1) G(2) status_rel_def)
  ultimately show ?thesis using sq F'(3) by (simp add: status_rel_def)
qed

section \<open>Every event is simulated\<close>

definition simulated :: "('p, 'r, 'q, 'fq, 'sq, 'vq) site \<Rightarrow> ('q, 'sq, 'vq) plant \<Rightarrow> bool" where
  "simulated F s \<longleftrightarrow> (\<exists>s'. pstep\<^sup>*\<^sup>* s s' \<and> status_rel F s')"

lemma plant_reach_steps: "preach s \<Longrightarrow> pstep\<^sup>*\<^sup>* s s' \<Longrightarrow> preach s'"
  using plant_steps_reach by blast

text \<open>A board whose node, radio and receive queue have not moved.\<close>

lemma status_idle:
  assumes rel: "status_rel F s" and x: "x < N" and s': "preach s'" "pl_net s' = pl_net s"
    and b: "b_node b = b_node (st_boards F ! x)" "b_radio b = b_radio (st_boards F ! x)"
      "b_transport b = b_transport (st_boards F ! x)"
    and up: "pl_up s' = (if x = 0 then b_uplink b else pl_up s)"
    and F': "st_boards F' = st_boards (put_board macs x b F)" "st_ether F' = st_ether (put_board macs x b F)"
      "st_lines F' = pl_lines s'"
  shows "status_rel F' s'"
proof (rule status_put [OF rel x s'(1) _ _ _ _ _ _ _ _ up F'])
  show "moved x (\<lambda>i. air (pl_net s) i x) (pl_net s) (pl_net s')" by (simp add: s'(2) moved_refl)
  show "board_rel x b" "b_node b = nodes (pl_net s') x"
    using rel x b by (auto simp: status_rel_def board_rel_def s'(2))
  show "air (pl_net s) i x = inbox i b @ st_ether F ! i ! x" if "i < N" "i \<noteq> x" for i
    using rel x that by (simp add: status_rel_def inbox_def b(3))
qed (use rel b in \<open>simp_all add: status_rel_def s'(2)\<close>)

text \<open>Also when the uplink has taken a frame of the camera or of the server.\<close>

lemma sim_relay:
  assumes rel: "status_rel F s" "preach s" and x: "x < N"
    and b: "b = (st_boards F ! x)\<lparr>b_relay := v, b_uplink := u, b_heap := h\<rparr>"
    and u: "frame_taken (pf_video pf) (b_uplink (st_boards F ! x)) u"
    and F': "st_boards F' = st_boards (put_board macs x b F)" "st_ether F' = st_ether (put_board macs x b F)"
      "st_lines F' = st_lines F"
  shows "simulated F' s"
proof -
  have up: "pl_up s = b_uplink (st_boards F ! 0)" "pl_lines s = st_lines F" using rel by (simp_all add: status_rel_def)
  show ?thesis
  proof (cases "x = 0 \<and> u \<noteq> b_uplink (st_boards F ! x)")
    case True
    then obtain ev h' where ev: "uplink_exec (pf_status pf) (pf_video pf) ev (pl_up s, heap0) = (u, h')"
        "case ev of EvFlush _ _ _ _ \<Rightarrow> False | EvStatusTask _ \<Rightarrow> False | _ \<Rightarrow> True"
      using u up unfolding frame_taken_def using flush_any_heap [of "pf_status pf" "pf_video pf"] by metis
    let ?s = "s\<lparr>pl_up := u\<rparr>"
    have go: "pstep s ?s" by (rule plant_step.in_uplink [OF ev])
    have "status_rel F' ?s"
      using True b F' up plant_reach.pstep [OF rel(2) go] by (intro status_idle [OF rel(1) x, of ?s b]) auto
    with go show ?thesis by (auto simp: simulated_def)
  next
    case False
    then have "status_rel F' s" using b F' up by (intro status_idle [OF rel(1) x rel(2), of b]) auto
    then show ?thesis by (auto simp: simulated_def)
  qed
qed

text \<open>A pass of the polling loop.\<close>

lemma unicaster_deliver:
  "list_all (known x) its \<Longrightarrow> unicaster s \<Longrightarrow> unicaster (deliver_all (onEspNowRecv (pf_out pf)) its s)"
  by (induction its arbitrary: s) (auto simp: known_def unicaster_recv unicast)

lemma sim_pass:
  assumes rel: "status_rel F s" "preach s" and x: "x < N"
  shows "simulated (put_board macs x (board_exec pf (MainPass now us us') (st_boards F ! x)) F) s"
proof -
  let ?b = "st_boards F ! x" and ?E = "\<lambda>i. st_ether F ! i ! x" and ?R = "onEspNowRecv (pf_out pf)"
  have sq: "square F" and r: "board_rel x ?b" and nd: "nodes (pl_net s) x = b_node ?b"
    and air: "\<And>i. i < N \<Longrightarrow> i \<noteq> x \<Longrightarrow> air (pl_net s) i x = inbox i ?b @ ?E i"
    and up: "pl_up s = b_uplink (st_boards F ! 0)" "pl_lines s = st_lines F"
    using rel(1) x by (auto simp: status_rel_def)
  obtain rq where t: "g_handler (b_transport ?b) = Some ?R" "g_rxQueue (b_transport ?b) = Some rq" "rx.qinv rq"
      and its: "list_all (known x) (rc rq)" and uni: "unicaster (b_node ?b)"
    using r by (auto simp: board_rel_def)
  let ?d = "deliver_all ?R (rc rq) (b_node ?b)"
  let ?st = "loop_body (pf_out pf) now ?d"
  obtain rq' where l: "loop (pf_rx pf) (pf_out pf) now (b_transport ?b, b_node ?b) =
      Some ((b_transport ?b)\<lparr>g_rxQueue := Some rq'\<rparr>, ?st)" "rx.qinv rq'" "rc rq' = []"
    using rx.poll_drains [OF t(3,2,1), of "b_node ?b"] by (auto simp: loop_def)
  let ?cs = "new_calls (b_node ?b) ?st"
  let ?b1 = "fold (route_call pf) ?cs (?b\<lparr>b_transport := (b_transport ?b)\<lparr>g_rxQueue := Some rq'\<rparr>, b_node := ?st\<rparr>)"
  let ?b2 = "log_stats (nowMs us) us' ?b1"
  have b2: "board_exec pf (MainPass now us us') ?b = ?b2" by (simp add: main_pass_def l(1) Let_def)
  obtain s1 where s1: "pstep\<^sup>*\<^sup>* s s1" "passed x ?E s s1" "nodes (pl_net s1) x = ?d"
    using pass_deliver [OF x its, of s ?E] air t(2) nd by (auto simp: inbox_def)
  obtain s2 where s2: "pstep\<^sup>*\<^sup>* s1 s2" "passed x (\<lambda>i. air (pl_net s1) i x) s1 s2" "nodes (pl_net s2) x = ?st"
    using pass_tick [OF x, of s1 now] s1(3) by auto
  have p: "passed x (\<lambda>i. air (pl_net s1) i x) s s2" by (rule passed_trans [OF s1(2) s2(2)])
  have m: "moved x ?E (pl_net s) (pl_net s2)"
    using p s1(2) x by (auto simp: passed_def moved_def)
  have reach2: "preach s2" using plant_reach_steps [OF rel(2)] s1(1) s2(1) by (meson rtranclp_trans)
  have up2: "pl_lines s2 = pl_lines s" "pl_up s2 = (if x = 0 then b_uplink ?b1 else pl_up s)"
  proof -
    have "handed (pl_net s) (pl_net s2) = (if x = 0 then flushed_of ?cs else [])"
      using m nd s2(3) by (auto simp: moved_def)
    then show "pl_lines s2 = pl_lines s" "pl_up s2 = (if x = 0 then b_uplink ?b1 else pl_up s)"
      using p up by (auto simp: passed_def route_uplink flush_reading_def)
  qed
  have "board_rel x ?b2"
    using uni its l(2,3) t(1) by (auto simp: board_rel_def log_stats_rest route_rest route_handler
        intro: unicaster_body unicaster_deliver)
  moreover have "b_node ?b2 = ?st" "g_rxQueue (b_transport ?b2) = Some rq'"
      "b_radio ?b2 = b_radio ?b @ concat (map on_radio ?cs)"
    by (simp_all add: log_stats_rest route_rest route_radio)
  moreover have "inbox i ?b2 = []" for i
    using l(3) by (simp add: inbox_def log_stats_rest route_rest from_board_def)
  ultimately have put: "status_rel (put_board macs x ?b2 F) s'"
    if "preach s'" "pl_net s' = pl_net s2" "pl_lines s' = pl_lines s2" "pl_up s' = (if x = 0 then b_uplink ?b2 else pl_up s)" for s'
    using that m nd s2(3) sq up2 up by (intro status_put [OF rel(1) x that(1), where E = ?E and b = ?b2 and G = F])
      (auto simp: look_put(3) [OF sq x])
  have go: "pstep\<^sup>*\<^sup>* s s2" using s1(1) s2(1) by (rule rtranclp_trans)
  show ?thesis
  proof (cases "x = 0 \<and> b_uplink ?b2 \<noteq> b_uplink ?b1")
    case True
    then have ev: "uplink_exec (pf_status pf) (pf_video pf) (EvStats us') (pl_up s2, heap0) = (b_uplink ?b2, heap0)"
      using log_stats_rest(7) [of "nowMs us" us' ?b1] up2 by auto
    let ?s = "s2\<lparr>pl_up := b_uplink ?b2\<rparr>"
    have last: "pstep s2 ?s" by (rule plant_step.in_uplink [OF ev]) simp
    have "status_rel (put_board macs x ?b2 F) ?s"
      using True by (intro put plant_reach.pstep [OF reach2 last]) auto
    then show ?thesis using go last b2 by (auto simp: simulated_def intro: rtranclp.rtrancl_into_rtrancl)
  next
    case False
    then have "status_rel (put_board macs x ?b2 F) s2" using up2 by (intro put reach2) auto
    then show ?thesis using go b2 by (auto simp: simulated_def)
  qed
qed

text \<open>A frame moves from the air to the receive queue of a board, or finds it full.\<close>

lemma from_board_snoc: "from_board y (its @ [it]) = from_board y its @ (if rx_mac it = macs y then [rx_frame it] else [])"
  by (simp add: from_board_def)

lemma net_fault:
  assumes rel: "status_rel F s" "preach s" and xy: "y < N" "x < N" "y \<noteq> x"
    and q: "st_ether F ! y ! x = fs @ f # gs" and fs': "fs' = fs @ gs \<or> fs' = fs @ f # f # gs"
  shows "simulated (set_ether y x fs' F) s"
proof -
  let ?n = "pl_net s" and ?in = "inbox y (st_boards F ! x)"
  have air: "air ?n y x = (?in @ fs) @ f # gs" using rel(1) xy q by (simp add: status_rel_def)
  let ?n' = "set_air y x (?in @ fs') ?n"
  have step: "net_step (pf_out pf) N macs ?n ?n'"
    using fs' net_step.lose [OF xy air] net_step.dup [OF xy air] by auto
  have "handed ?n ?n' = []" by (simp add: set_air_def)
  with plant_step.in_chain [OF step, of "pf_status pf" "pf_video pf"]
  have "pstep s (s\<lparr>pl_net := ?n'\<rparr>)" by simp
  moreover have "status_rel (set_ether y x fs' F) (s\<lparr>pl_net := ?n'\<rparr>)"
    using rel(1) xy square_set look_set [of F y x]
    by (auto simp: status_rel_def set_air_def)
  ultimately show ?thesis by (auto simp: simulated_def)
qed

lemma sim_hear:
  assumes rel: "status_rel F s" "preach s" and xy: "y < N" "x < N" "y \<noteq> x"
    and q: "st_ether F ! y ! x = f # fs"
    and b': "b' = board_exec pf (WifiRecv (macs y) f (int (length f))) (st_boards F ! x)"
  shows "simulated (put_board macs x b' (set_ether y x fs F)) s"
proof -
  let ?b = "st_boards F ! x" and ?G = "set_ether y x fs F"
  have sq: "square F" and r: "board_rel x ?b" and up: "pl_up s = b_uplink (st_boards F ! 0)"
    using rel(1) xy by (auto simp: status_rel_def)
  note look = look_set [OF sq xy(1,2)]
  obtain rq where t: "g_rxQueue (b_transport ?b) = Some rq" "rx.qinv rq" and its: "list_all (known x) (rc rq)"
      and h: "g_handler (b_transport ?b) = Some (onEspNowRecv (pf_out pf))" "unicaster (b_node ?b)"
    using r by (auto simp: board_rel_def)
  from rx.onDataRecv_cases [OF t(2,1), of f "int (length f)" "macs y"]
  consider "b' = ?b" | rq' it where "b' = ?b\<lparr>b_transport := (b_transport ?b)\<lparr>g_rxQueue := Some rq'\<rparr>\<rparr>" "rx.qinv rq'"
      "rc rq' = rc rq @ [it]" "rx_mac it = macs y" "rx_frame it = f"
    by (auto simp: b')
  then show ?thesis
  proof cases
    case 1
    have "put_board macs x ?b ?G = ?G"
      using put_same [OF square_set [OF sq xy(1)] xy(2), of x fs] look(1) by simp
    with 1 show ?thesis using net_fault [OF rel xy, of "[]" f fs fs] q by simp
  next
    case (2 rq' it)
    have "known x it" using 2(4) xy by (auto simp: known_def)
    have in': "inbox i b' = inbox i ?b @ (if i = y then [f] else [])" if "i < N" for i
      using 2 t that xy ch.macs_eq [of y i] by (auto simp: inbox_def from_board_snoc)
    have "status_rel (put_board macs x b' ?G) s"
    proof (rule status_put [OF rel(1) xy(2) rel(2), where E = "\<lambda>i. air (pl_net s) i x" and b = b' and G = ?G])
      show "air (pl_net s) i x = inbox i b' @ st_ether ?G ! i ! x" if "i < N" "i \<noteq> x" for i
        using rel(1) that xy q by (auto simp: status_rel_def in' look(2))
      show "board_rel x b'" using 2 its h \<open>known x it\<close> by (simp add: board_rel_def)
      show "st_lines (put_board macs x b' ?G) = pl_lines s"
        using rel(1) look_put(3) [OF square_set [OF sq xy(1)] xy(2)] look(3) by (simp add: status_rel_def)
      show "b_node b' = nodes (pl_net s) x" "b_radio b' = b_radio ?b @
          concat (map on_radio (new_calls (nodes (pl_net s) x) (nodes (pl_net s) x)))"
          "pl_up s = (if x = 0 then b_uplink b' else pl_up s)"
        using 2(1) rel(1) xy up by (simp_all add: status_rel_def)
    qed (use xy sq square_set look in \<open>auto simp: moved_refl\<close>)
    then show ?thesis by (auto simp: simulated_def)
  qed
qed

text \<open>The events of the video relay and of the camera link.\<close>

lemma board_video:
  assumes "\<And>e. ev \<noteq> EvUplink e"
  shows "\<exists>v u h. board_exec pf (VideoEv ev) b = b\<lparr>b_relay := v, b_uplink := u, b_heap := h\<rparr> \<and>
    frame_taken (pf_video pf) (b_uplink b) u"
proof (cases "runs (b_isGateway b) ev")
  case False
  then show ?thesis by (intro exI [of _ "b_relay b"] exI [of _ "b_uplink b"] exI [of _ "b_heap b"]) simp
next
  case True
  obtain v u h where w: "relay_exec (pf_recv pf) (pf_alloc pf) (pf_frames pf) (pf_status pf) (pf_video pf) ev
      (b_relay b, b_uplink b, b_heap b) = (v, u, h)" by (metis prod_cases3)
  with relay_event_uplink [OF w assms] True show ?thesis by auto
qed

lemma sim_video:
  assumes "status_rel F s" "preach s" and "x < N" and "\<And>e. ev \<noteq> EvUplink e"
    and "st_boards F' = st_boards (put_board macs x (board_exec pf (VideoEv ev) (st_boards F ! x)) F)"
      "st_ether F' = st_ether (put_board macs x (board_exec pf (VideoEv ev) (st_boards F ! x)) F)"
      "st_lines F' = st_lines F"
  shows "simulated F' s"
  using board_video [OF assms(4), of "st_boards F ! x"] assms by (elim exE conjE) (rule sim_relay, auto)

lemma sim_shoot:
  assumes rel: "status_rel F s" "preach s" and x: "x < N"
  shows "simulated (site_exec pf inb W outb N macs (Shoot x r) F) s"
proof -
  let ?b = "st_boards F ! x" and ?b' = "board_exec pf (SpiPass r) (st_boards F ! x)"
  have up: "pl_up s = b_uplink (st_boards F ! 0)" and sq: "square F" using rel by (simp_all add: status_rel_def)
  from spi_pass [of r ?b] consider "?b' = ?b"
    | sid oc pl where "?b' = ?b\<lparr>b_node := setLaneStatus sid oc pl (b_node ?b)\<rparr>"
    | sid sq data v u h where "?b' = ?b\<lparr>b_relay := v, b_uplink := u, b_heap := h\<rparr>"
        "relay_exec (pf_recv pf) (pf_alloc pf) (pf_frames pf) (pf_status pf) (pf_video pf) (EvLuckfox sid sq data)
          (b_relay ?b, b_uplink ?b, b_heap ?b) = (v, u, h)"
    by blast
  then show ?thesis
  proof cases
    case 1
    then have "status_rel (site_exec pf inb W outb N macs (Shoot x r) F) s"
      using rel(1) x put_same [OF sq x] by (simp add: status_rel_def square_def del: board_exec.simps)
    then show ?thesis by (auto simp: simulated_def)
  next
    case (2 sid oc pl)
    obtain s' where s': "pstep\<^sup>*\<^sup>* s s'" "passed x (\<lambda>i. air (pl_net s) i x) s s'"
        "nodes (pl_net s') x = setLaneStatus sid oc pl (nodes (pl_net s) x)"
      using pass_lane [OF x] by blast
    have nd: "nodes (pl_net s) x = b_node ?b" and r: "board_rel x ?b"
      and air: "\<And>i. i < N \<Longrightarrow> i \<noteq> x \<Longrightarrow> air (pl_net s) i x = inbox i ?b @ st_ether F ! i ! x"
      using rel(1) x by (auto simp: status_rel_def)
    have cs: "new_calls (nodes (pl_net s) x) (nodes (pl_net s') x) = []"
      by (simp add: s'(3) new_calls_def setLaneStatus_def)
    have "handed (pl_net s) (pl_net s') = []"
      using s'(2) cs by (cases "x = 0") (auto simp: passed_def moved_def)
    then have up': "pl_up s' = pl_up s" "pl_lines s' = st_lines F"
      using s'(2) rel(1) by (simp_all add: passed_def status_rel_def)
    have "status_rel (site_exec pf inb W outb N macs (Shoot x r) F) s'"
    proof (rule status_put [OF rel(1) x plant_reach_steps [OF rel(2) s'(1)], where b = ?b' and G = F])
      show "moved x (\<lambda>i. air (pl_net s) i x) (pl_net s) (pl_net s')" using s'(2) by (simp add: passed_def)
      show "board_rel x ?b'" using r by (simp add: 2 board_rel_def unicaster_lane del: board_exec.simps)
      show "air (pl_net s) i x = inbox i ?b' @ st_ether F ! i ! x" if "i < N" "i \<noteq> x" for i
        using air [OF that] by (simp add: 2 inbox_def del: board_exec.simps)
      show "pl_up s' = (if x = 0 then b_uplink ?b' else pl_up s)"
        using 2 up up' by (cases "x = 0") (simp_all del: board_exec.simps)
    qed (use 2 s'(3) nd cs sq x up' look_put(3) [OF sq x] in \<open>simp_all del: board_exec.simps\<close>)
    with s'(1) show ?thesis by (auto simp: simulated_def)
  next
    case (3 sid sq' data v u h)
    have "frame_taken (pf_video pf) (b_uplink ?b) u" by (rule relay_event_uplink [OF 3(2)]) simp
    with 3 x show ?thesis
      by (intro sim_relay [OF rel x]) (simp_all add: look_put(3) [OF sq x] del: board_exec.simps)
  qed
qed

text \<open>The uplink of the Gateway.\<close>

lemma sim_uplink:
  assumes rel: "status_rel F s" "preach s"
  shows "simulated (site_exec pf inb W outb N macs (Uplink ev) F) s"
proof -
  let ?b = "st_boards F ! 0" and ?F = "site_exec pf inb W outb N macs (Uplink ev) F"
  have up: "pl_up s = b_uplink ?b" "pl_lines s = st_lines F" and sq: "square F" using rel by (simp_all add: status_rel_def)
  show ?thesis
  proof (cases "runs (b_isGateway ?b) (EvUplink ev :: 'c relay_event)")
    case False
    then show ?thesis using rel(1) by (auto simp: simulated_def)
  next
    case True
    obtain u h where ex: "uplink_exec (pf_status pf) (pf_video pf) ev (b_uplink ?b, b_heap ?b) = (u, h)" by fastforce
    let ?b' = "?b\<lparr>b_uplink := u, b_heap := h\<rparr>"
    have b': "board_exec pf (VideoEv (EvUplink ev)) ?b = ?b'"
      using True ex by (cases ev) (auto simp: runs_def)
    let ?s = "s\<lparr>pl_up := u, pl_lines := pl_lines s @ line_out pf ev ?b\<rparr>"
    have step: "pstep s ?s"
    proof (cases "\<exists>e. ev = EvStatusTask e")
      case True
      then obtain e where e: "ev = EvStatusTask e" by blast
      obtain u' ls where st: "status_step (pf_status pf) e (pl_up s) = (u', ls)" by fastforce
      then have "u' = u" using ex e up by simp
      from plant_step.status_task [OF st] show ?thesis
        using st up \<open>u' = u\<close> by (simp add: line_out_def e)
    next
      case False
      then have "line_out pf ev ?b = []" by (cases ev) (simp_all add: line_out_def)
      moreover have "case ev of EvFlush _ _ _ _ \<Rightarrow> False | EvStatusTask _ \<Rightarrow> False | _ \<Rightarrow> True"
        using False True by (cases ev) (auto simp: runs_def)
      ultimately show ?thesis
        using plant_step.in_uplink [OF ex [folded up(1)]] by simp
    qed
    have "status_rel ?F ?s"
      using True up look_put(3) [OF sq stations(1)] plant_reach.pstep [OF rel(2) step]
      by (intro status_idle [OF rel(1) stations(1), where b = ?b']) (simp_all add: b' Let_def del: board_exec.simps)
    with step show ?thesis by (auto simp: simulated_def)
  qed
qed

lemma sim_client:
  assumes rel: "status_rel F s" "preach s"
  shows "simulated (site_exec pf inb W outb N macs (Client x c) F) s"
proof (cases "x \<noteq> 0 \<and> x < N \<and> st_open F ! x")
  case False
  then show ?thesis using rel(1) by (auto simp: simulated_def)
next
  case True
  let ?b = "st_boards F ! x"
  have sq: "square F" using rel(1) by (simp add: status_rel_def)
  obtain ok v h c' where cl: "client_iter W (pf_frames pf) ((b_relay ?b, b_heap ?b), c) = (ok, (v, h), c')"
    by (metis prod_cases3 prod.collapse)
  let ?b' = "?b\<lparr>b_relay := if ok then v else client_lost v, b_uplink := b_uplink ?b, b_heap := h\<rparr>"
  show ?thesis
    using True cl look_put(3) [OF sq, of x ?b']
    by (intro sim_relay [OF rel, where x = x and b = ?b' and u = "b_uplink ?b" and h = h
        and v = "if ok then v else client_lost v"]) (simp_all add: Let_def)
qed

lemma sim_server:
  assumes rel: "status_rel F s" "preach s"
  shows "simulated (site_exec pf inb W outb N macs (Server x c) F) s"
proof -
  let ?y = "nxt N x" and ?F = "site_exec pf inb W outb N macs (Server x c) F"
  let ?b = "st_boards F ! ?y"
  have y: "?y < N" by (rule ch.nxt_less)
  have sq: "square F" using rel(1) by (simp add: status_rel_def)
  obtain v u h where b1: "board_exec pf (VideoEv (EvServer c)) ?b = ?b\<lparr>b_relay := v, b_uplink := u, b_heap := h\<rparr>"
      "frame_taken (pf_video pf) (b_uplink ?b) u"
    using board_video [of "EvServer c" ?b] by blast
  obtain v' h' where b2: "board_exec pf (VideoEv EvClose) (?b\<lparr>b_relay := v, b_uplink := u, b_heap := h\<rparr>) =
      ?b\<lparr>b_relay := v', b_uplink := u, b_heap := h'\<rparr>"
    by (cases ?b) (auto simp: runs_def)
  obtain go w' c' where pass: "server_iter (pf_recv pf) (pf_alloc pf) (pf_frames pf) (pf_video pf)
      ((b_relay ?b, b_uplink ?b, b_heap ?b), c) = (go, w', c')" by (metis prod_cases3)
  show ?thesis
  proof (cases "?F = F")
    case True
    then show ?thesis using rel(1) by (auto simp: simulated_def)
  next
    case False
    note go = sim_relay [OF rel y refl b1(2)]
    show ?thesis
    proof (cases go)
      case True
      then show ?thesis
        using False b1(1) pass look_put(3) [OF sq y]
        by (intro go [where v = v and h = h]) (auto simp: Let_def simp del: board_exec.simps split: list.splits if_splits)
    next
      case no: False
      then show ?thesis
        using False b1(1) b2 pass look_put(3) [OF sq y]
        by (intro go [where v = v' and h = h']) (auto simp: Let_def simp del: board_exec.simps split: list.splits if_splits)
    qed
  qed
qed

lemma sim_event:
  assumes rel: "status_rel F s" "preach s"
  shows "simulated (site_exec pf inb W outb N macs ev F) s"
proof -
  have sq: "square F" using rel(1) by (simp add: status_rel_def)
  have stay: "simulated F s" using rel(1) by (auto simp: simulated_def)
  show ?thesis
  proof (cases ev)
    case (Pass x now us us')
    then show ?thesis using sim_pass [OF rel, of x now us us'] stay by (simp del: board_exec.simps)
  next
    case (Hear y x)
    then show ?thesis using sim_hear [OF rel] stay by (auto simp del: board_exec.simps split: list.split)
  next
    case (Fade y x k)
    then show ?thesis
      using net_fault [OF rel] stay id_take_nth_drop [of k "st_ether F ! y ! x"] by auto
  next
    case (Echo y x k)
    then show ?thesis
      using net_fault [OF rel] stay id_take_nth_drop [of k "st_ether F ! y ! x"]
        Cons_nth_drop_Suc [of k "st_ether F ! y ! x", symmetric] by auto
  next
    case (Shoot x r)
    then show ?thesis using sim_shoot [OF rel, of x r] stay by (cases "x < N") auto
  next
    case (Accept x)
    then show ?thesis
      using sim_video [OF rel, of x EvAccept] stay look_put(3) [OF sq] by (auto simp del: board_exec.simps)
  next
    case (Connect x)
    then show ?thesis
      using sim_video [OF rel, of x EvConnect] stay look_put(3) [OF sq] by (auto simp del: board_exec.simps)
  qed (use sim_uplink sim_client sim_server rel in blast)+
qed

section \<open>Power-on and whole runs\<close>

text \<open>The boards of a chain of \<open>N\<close>, each just booted by \<open>app_main\<close> with its place in the chain.\<close>

lemma look_site_of:
  "i < N \<Longrightarrow> st_boards (site_of N macs B) ! i = B i"
  "i < N \<Longrightarrow> j < N \<Longrightarrow> i \<noteq> j \<Longrightarrow> st_ether (site_of N macs B) ! i ! j = radio_to (macs j) (b_radio (B i))"
  "square (site_of N macs B)" "st_lines (site_of N macs B) = []"
  by (auto simp: site_of_def square_def)

lemma status_boot:
  assumes boot: "\<And>i. i < N \<Longrightarrow> app_main pf V conv (env i) (now i) (p i) (flash i) (console i) = BootRunning (B i)"
    and id: "\<And>i. i < N \<Longrightarrow> g_nodeId (b_node (B i)) = of_nat i \<and> g_chainSize (b_node (B i)) = of_nat N"
  shows "status_rel (site_of N macs B) (plant0 (pf_out pf) N macs (pf_status pf) (pf_video pf) now (boot_eth (env 0)))"
proof -
  let ?init = "\<lambda>i. chain_init (pf_out pf) (now i) (of_nat i) (of_nat N) node0"
  have parts: "b_node (B i) = ?init i \<and> board_rel i (B i) \<and> (\<forall>y. inbox y (B i) = []) \<and>
      (i = 0 \<longrightarrow> b_uplink (B i) = fst (snd (uplink_init (pf_status pf) (pf_video pf) (boot_eth (env 0)) uplink0))) \<and>
      b_radio (B i) = concat (map on_radio (calls (?init i)))" if i: "i < N" for i
  proof -
    obtain k c p1 t1 rq where b: "B i = boot_board pf (env i) (now i) k c p1 t1" and q: "g_rxQueue t1 = Some rq"
        "q_create (pf_rx pf) kRxQueueDepth = Some rq"
      using boot [OF i] by (rule app_main_boots)
    note part = boot_board_parts [OF b]
    have ids: "k = of_nat i" "c = of_nat N"
      using id [OF i] by (auto simp: part(1) chain_init_def broadcastHello_def emit_def Let_def split: if_splits)
    have "rx.qinv rq \<and> rc rq = []" using rx.create_inv [OF q(2)] by simp
    then show ?thesis
      using part q(1) ids by (auto simp: board_rel_def inbox_def from_board_def unicaster_init)
  qed
  have "radio_to (macs j) (b_radio (B i)) = frames_to (macs j) (calls (?init i))" if "i < N" "j < N" for i j
    using parts [OF that(1)] by (simp add: radio_to_def boot_calls sizeof_Hello_def config_defs kMaxPacketBytes_def)
  then show ?thesis
    using parts parts [OF stations(1)] stations(1)
    by (simp add: status_rel_def plant0_def net0_def look_site_of Let_def)
qed

lemma site_run_simulated:
  assumes "status_rel F s" and "preach s"
  shows "\<exists>s'. preach s' \<and> status_rel (fold (site_exec pf inb W outb N macs) evs F) s'"
  using assms
proof (induction evs arbitrary: F s)
  case (Cons ev evs)
  obtain s1 where "pstep\<^sup>*\<^sup>* s s1" "status_rel (site_exec pf inb W outb N macs ev F) s1"
    using sim_event [OF Cons.prems] by (auto simp: simulated_def)
  then show ?case using Cons.IH plant_reach_steps [OF Cons.prems(2)] by auto
qed auto

end

end
