(* ===== verification/SiteVideo.thy ===== *)
theory SiteVideo
  imports SiteStatus
begin

text \<open>
  The video path of an installation of complete boards: every run of \<open>site_exec\<close> in which
  no drain times out (\<open>in_step\<close>) is a run of the video network of VideoChain, whose boards are the relay, uplink and heap of each
  board; passes of the polling loop appear there as events of the uplink.
\<close>

section \<open>Readings and statistics as events of the uplink\<close>

lemma flushes_as_events:
  "fold (\<lambda>(n, st, oc, pl). flush SQ n st oc pl) rs u =
     fst (fold (uplink_exec SQ VQ) (map (\<lambda>(n, st, oc, pl). EvFlush n st oc pl) rs) (u, h)) \<and>
   snd (fold (uplink_exec SQ VQ) (map (\<lambda>(n, st, oc, pl). EvFlush n st oc pl) rs) (u, h)) = h"
proof (induction rs arbitrary: u)
  case (Cons r rs)
  then show ?case by (cases r) simp
qed simp

section \<open>The simulation\<close>

context site_parts
begin

abbreviation vreach where
  "vreach \<equiv> vnet_reach (pf_recv pf) inb W outb (pf_alloc pf) (pf_frames pf) (pf_status pf) (pf_video pf) N"

definition world_of :: "('p, 'r, 'q, 'fq, 'sq, 'vq) board \<Rightarrow> ('fq, 'sq, 'vq) world" where
  "world_of b = (b_relay b, b_uplink b, b_heap b)"

definition video_rel :: "('p, 'r, 'q, 'fq, 'sq, 'vq) site \<Rightarrow> ('fq, 'sq, 'vq) vnet \<Rightarrow> bool" where
  "video_rel F n \<longleftrightarrow> square F \<and> length (st_conns F) = N \<and> length (st_open F) = N \<and>
     (\<forall>i < N. vn_world n i = world_of (st_boards F ! i) \<and> b_isGateway (st_boards F ! i) = (i = 0)) \<and>
     (\<forall>i < N. vn_conns n i = st_conns F ! i \<and> vn_up n i = st_open F ! i) \<and>
     vn_made n = st_made F \<and> vn_sent n = st_sent F"

definition filmed :: "('p, 'r, 'q, 'fq, 'sq, 'vq) site \<Rightarrow> ('fq, 'sq, 'vq) vnet \<Rightarrow> bool" where
  "filmed F n \<longleftrightarrow> (\<exists>n'. vid.vstep\<^sup>*\<^sup>* n n' \<and> video_rel F n')"

lemma filmedI: "vid.vstep n n' \<Longrightarrow> video_rel F n' \<Longrightarrow> filmed F n"
  by (auto simp: filmed_def)

lemma filmed_refl: "video_rel F n \<Longrightarrow> filmed F n"
  by (auto simp: filmed_def)

text \<open>Board \<open>x\<close> has moved, and at most the connections of relay \<open>p\<close>.\<close>

lemma video_put:
  assumes rel: "video_rel F n" and x: "x < N" and b: "b_isGateway b = (x = 0)" and p: "p < N"
    and n': "vn_world n' = (vn_world n)(x := world_of b)" "vn_conns n' = (vn_conns n)(p := cs)"
      "vn_up n' = (vn_up n)(p := c)" "vn_made n' = st_made F'" "vn_sent n' = st_sent F'"
    and F': "st_boards F' = st_boards (put_board macs x b F)" "st_ether F' = st_ether (put_board macs x b F)"
      "st_conns F' = (st_conns F)[p := cs]" "st_open F' = (st_open F)[p := c]"
  shows "video_rel F' n'"
proof -
  have sq: "square F" using rel by (simp add: video_rel_def)
  have "square F'" using square_put [OF sq x, of b] F'(1,2) by (simp add: square_def)
  moreover have "vn_world n' i = world_of (st_boards F' ! i) \<and> b_isGateway (st_boards F' ! i) = (i = 0)" if "i < N" for i
    using rel b that by (simp add: F'(1) n'(1) look_put(1) [OF sq x that] video_rel_def)
  moreover have "vn_conns n' i = st_conns F' ! i \<and> vn_up n' i = st_open F' ! i" if "i < N" for i
    using rel p that by (simp add: F'(3,4) n'(2,3) video_rel_def nth_list_update)
  ultimately show ?thesis using rel n'(4,5) F'(3,4) by (simp add: video_rel_def)
qed

lemma video_put_only:
  assumes rel: "video_rel F n" and x: "x < N" and b: "b_isGateway b = (x = 0)"
    and n': "vn_world n' = (vn_world n)(x := world_of b)" "vn_conns n' = vn_conns n" "vn_up n' = vn_up n"
      "vn_made n' = st_made F'" "vn_sent n' = st_sent F'"
    and F': "st_boards F' = st_boards (put_board macs x b F)" "st_ether F' = st_ether (put_board macs x b F)"
      "st_conns F' = st_conns F" "st_open F' = st_open F"
  shows "video_rel F' n'"
proof -
  have "vn_conns n x = st_conns F ! x" "vn_up n x = st_open F ! x" using rel x by (simp_all add: video_rel_def)
  then have "vn_conns n' = (vn_conns n)(x := st_conns F ! x)" "vn_up n' = (vn_up n)(x := st_open F ! x)"
    using n'(2,3) by (simp_all add: fun_upd_idem)
  moreover have "st_conns F' = (st_conns F)[x := st_conns F ! x]" "st_open F' = (st_open F)[x := st_open F ! x]"
    using F'(3,4) by (simp_all add: list_update_id)
  ultimately show ?thesis
    using n'(1,4,5) F'(1,2) by (intro video_put [OF rel x b x])
qed

text \<open>Events of an uplink other than those of the video queue.\<close>

lemma uplink_events:
  assumes "x < N" and "vn_world n x = (v, u, h)" and "fold (uplink_exec (pf_status pf) (pf_video pf)) evs (u, h) = (u', h)"
    and "list_all (\<lambda>ev. case ev of EvFlush _ _ _ _ \<Rightarrow> True | EvStats _ \<Rightarrow> True | _ \<Rightarrow> False) evs"
  shows "vid.vstep\<^sup>*\<^sup>* n (n\<lparr>vn_world := (vn_world n)(x := (v, u', h))\<rparr>)"
  using assms(2-4)
proof (induction evs arbitrary: n u)
  case Nil
  then have "u' = u" "n\<lparr>vn_world := (vn_world n)(x := (v, u, h))\<rparr> = n"
    using fun_upd_triv [of "vn_world n" x] by (cases n; auto)+
  then show ?case by (simp only: rtranclp.rtrancl_refl)
next
  case (Cons ev evs)
  obtain u1 where u1: "uplink_exec (pf_status pf) (pf_video pf) ev (u, h) = (u1, h)"
      "relay_exec (pf_recv pf) (pf_alloc pf) (pf_frames pf) (pf_status pf) (pf_video pf) (EvUplink ev) (v, u, h) = (v, u1, h)"
    using Cons.prems(3) by (cases ev) auto
  have "\<forall>tx. ev \<noteq> EvVideoTask tx" using Cons.prems(3) by auto
  then have "vid.vstep n (n\<lparr>vn_world := (vn_world n)(x := (v, u1, h))\<rparr>)" (is "vid.vstep n ?n1")
    using vnet_step.other [OF assms(1), of "EvUplink ev" "pf_recv pf" inb W outb "pf_alloc pf" "pf_frames pf" "pf_status pf" "pf_video pf" n]
      u1(2) Cons.prems(1) by simp
  moreover have "vid.vstep\<^sup>*\<^sup>* ?n1 (?n1\<lparr>vn_world := (vn_world ?n1)(x := (v, u', h))\<rparr>)"
    using Cons.prems u1(1) by (intro Cons.IH) auto
  moreover have "?n1\<lparr>vn_world := (vn_world ?n1)(x := (v, u', h))\<rparr> = n\<lparr>vn_world := (vn_world n)(x := (v, u', h))\<rparr>"
    by (cases n) simp
  ultimately show ?case by (simp only: converse_rtranclp_into_rtranclp)
qed

lemma film_pass:
  assumes rel: "video_rel F n" and x: "x < N"
  shows "filmed (put_board macs x (board_exec pf (MainPass now us us') (st_boards F ! x)) F) n"
proof -
  let ?b = "st_boards F ! x" and ?b' = "board_exec pf (MainPass now us us') (st_boards F ! x)"
  obtain v u h where w: "world_of ?b = (v, u, h)" by (simp add: world_of_def)
  have wn: "vn_world n x = (v, u, h)" and gw: "b_isGateway ?b = (x = 0)"
    using rel x w by (auto simp: video_rel_def)
  have "\<exists>u' evs. world_of ?b' = (v, u', h) \<and> b_isGateway ?b' = b_isGateway ?b \<and>
      fold (uplink_exec (pf_status pf) (pf_video pf)) evs (u, h) = (u', h) \<and>
      list_all (\<lambda>ev. case ev of EvFlush _ _ _ _ \<Rightarrow> True | EvStats _ \<Rightarrow> True | _ \<Rightarrow> False) evs"
  proof (cases "loop (pf_rx pf) (pf_out pf) now (b_transport ?b, b_node ?b)")
    case None
    then show ?thesis using w by (intro exI [of _ u] exI [of _ "[]"]) (simp add: main_pass_def)
  next
    case (Some r)
    obtain t s where r: "r = (t, s)" by (cases r)
    let ?cs = "new_calls (b_node ?b) s"
    let ?c = "fold (route_call pf) ?cs (?b\<lparr>b_transport := t, b_node := s\<rparr>)"
    let ?evs = "map (\<lambda>(n, st, oc, pl). EvFlush n st oc pl) (flushed_of ?cs)"
    have b': "?b' = log_stats (nowMs us) us' ?c" using Some r by (simp add: main_pass_def Let_def)
    have c: "fold (uplink_exec (pf_status pf) (pf_video pf)) ?evs (u, h) = (b_uplink ?c, h)"
      using flushes_as_events [of "pf_status pf" "flushed_of ?cs" u "pf_video pf" h] w
      by (simp add: route_uplink world_of_def prod_eq_iff)
    have same: "b_relay ?b' = v" "b_heap ?b' = h" "b_isGateway ?b' = b_isGateway ?b"
      using w unfolding b' by (simp_all add: log_stats_rest route_rest world_of_def)
    have ok: "list_all (\<lambda>ev. case ev of EvFlush _ _ _ _ \<Rightarrow> True | EvStats _ \<Rightarrow> True | _ \<Rightarrow> False) ?evs"
      by (auto simp: list_all_iff)
    from log_stats_rest(7) [of "nowMs us" us' ?c] show ?thesis
    proof
      assume "b_uplink (log_stats (nowMs us) us' ?c) = b_uplink ?c"
      then show ?thesis using c same ok b' by (intro exI [of _ "b_uplink ?c"] exI [of _ ?evs]) (simp add: world_of_def)
    next
      assume "b_uplink (log_stats (nowMs us) us' ?c) = fst (uplink_logStats us' (b_uplink ?c))"
      then show ?thesis
        using c same ok b' by (intro exI [of _ "fst (uplink_logStats us' (b_uplink ?c))"] exI [of _ "?evs @ [EvStats us']"])
          (simp add: world_of_def)
    qed
  qed
  then obtain u' evs where e: "world_of ?b' = (v, u', h)" "b_isGateway ?b' = b_isGateway ?b"
      "fold (uplink_exec (pf_status pf) (pf_video pf)) evs (u, h) = (u', h)"
      "list_all (\<lambda>ev. case ev of EvFlush _ _ _ _ \<Rightarrow> True | EvStats _ \<Rightarrow> True | _ \<Rightarrow> False) evs" by blast
  let ?n' = "n\<lparr>vn_world := (vn_world n)(x := (v, u', h))\<rparr>"
  have "video_rel (put_board macs x ?b' F) ?n'"
    using e(1,2) gw rel by (intro video_put_only [OF rel x, of ?b'])
      (simp_all add: video_rel_def put_board_def Let_def del: board_exec.simps)
  with uplink_events [OF x wn e(3,4)] show ?thesis by (auto simp: filmed_def simp del: board_exec.simps)
qed

text \<open>Events that leave relay, uplink and heap of every board as they are.\<close>

lemma film_idle:
  assumes rel: "video_rel F n" and x: "x < N" and G: "square G" "st_boards G = st_boards F" "st_conns G = st_conns F"
      "st_open G = st_open F" "st_made G = st_made F" "st_sent G = st_sent F"
    and b: "world_of b = world_of (st_boards F ! x)" "b_isGateway b = b_isGateway (st_boards F ! x)"
  shows "filmed (put_board macs x b G) n"
proof -
  have G': "video_rel G n" using rel G by (simp add: video_rel_def)
  have "vn_world n = (vn_world n)(x := world_of b)"
    using rel x b(1) fun_upd_triv [of "vn_world n" x] by (simp add: video_rel_def)
  then have "video_rel (put_board macs x b G) n"
    using rel x b(2) G(5,6) by (intro video_put_only [OF G' x]) (auto simp: video_rel_def put_board_def Let_def)
  then show ?thesis by (rule filmed_refl)
qed

lemma film_ether: "video_rel F n \<Longrightarrow> y < N \<Longrightarrow> filmed (set_ether y x fs F) n"
  using square_set [of F y x fs] by (intro filmed_refl) (simp add: video_rel_def set_ether_def)

text \<open>The camera.\<close>

lemma film_shoot:
  assumes rel: "video_rel F n" and x: "x < N"
  shows "filmed (site_exec pf inb W outb N macs (Shoot x r) F) n"
proof -
  let ?b = "st_boards F ! x" and ?b' = "board_exec pf (SpiPass r) (st_boards F ! x)"
  let ?F = "site_exec pf inb W outb N macs (Shoot x r) F"
  have sq: "square F" and wn: "vn_world n x = world_of ?b" and gw: "b_isGateway ?b = (x = 0)"
    using rel x by (auto simp: video_rel_def)
  have F: "?F = (put_board macs x ?b' F)\<lparr>st_made := st_made F @ shots pf r ?b\<rparr>" using x by simp
  from spi_pass [of r ?b] consider
      "world_of ?b' = world_of ?b" "b_isGateway ?b' = b_isGateway ?b" "shots pf r ?b = []"
    | sid sq data v u h where "data \<noteq> []" "length data \<le> kVideoMaxFrameBytes"
        "shots pf r ?b = [camera_frame (v_nodeId (b_relay ?b)) sid sq data]" "?b' = ?b\<lparr>b_relay := v, b_uplink := u, b_heap := h\<rparr>"
        "relay_exec (pf_recv pf) (pf_alloc pf) (pf_frames pf) (pf_status pf) (pf_video pf) (EvLuckfox sid sq data)
          (world_of ?b) = (v, u, h)"
    unfolding world_of_def by (elim disjE exE conjE) auto
  then show ?thesis
  proof cases
    case 1
    have "?F = put_board macs x ?b' F" unfolding F 1(3) by (simp add: put_board_def Let_def)
    then show ?thesis using film_idle [OF rel x sq refl refl refl refl refl 1(1,2)] by simp
  next
    case (2 sid sn data v u h)
    let ?n' = "n\<lparr>vn_world := (vn_world n)(x := (v, u, h)), vn_made := vn_made n @ shots pf r ?b\<rparr>"
    have "vid.vstep n ?n'"
      using vnet_step.camera [OF x 2(1,2), of "pf_recv pf" inb W outb "pf_alloc pf" "pf_frames pf" "pf_status pf"
          "pf_video pf" n sid sn] 2(3,5) by (simp add: wn world_of_def del: relay_exec.simps)
    moreover have "video_rel ?F ?n'"
      unfolding F 2(4) using rel gw
      by (intro video_put_only [OF rel x, where b = "?b\<lparr>b_relay := v, b_uplink := u, b_heap := h\<rparr>"])
        (simp_all add: world_of_def video_rel_def put_board_def Let_def)
    ultimately show ?thesis by (rule filmedI)
  qed
qed

text \<open>The uplink of the Gateway.\<close>

lemma video_step_idle: "Option.bind (g_videoQueue u) (q_receive VQ) = None \<Longrightarrow> video_step VQ tx (u, h) = ((u, h), [])"
  by (auto simp: video_step_def split: option.splits)

lemma film_uplink:
  assumes rel: "video_rel F n"
  shows "filmed (site_exec pf inb W outb N macs (Uplink ev) F) n"
proof (cases "runs (b_isGateway (st_boards F ! 0)) (EvUplink ev :: 'c relay_event)")
  case False
  then show ?thesis using filmed_refl [OF rel] by simp
next
  case True
  let ?b = "st_boards F ! 0" and ?F = "site_exec pf inb W outb N macs (Uplink ev) F"
  obtain v u h where w: "world_of ?b = (v, u, h)" by (simp add: world_of_def)
  obtain u' h' where ex: "uplink_exec (pf_status pf) (pf_video pf) ev (u, h) = (u', h')" by fastforce
  let ?b' = "?b\<lparr>b_relay := v, b_uplink := u', b_heap := h'\<rparr>"
  have ev: "relay_exec (pf_recv pf) (pf_alloc pf) (pf_frames pf) (pf_status pf) (pf_video pf) (EvUplink ev) (v, u, h) = (v, u', h')"
    using True ex by (cases ev) (auto simp: runs_def)
  then have b': "board_exec pf (VideoEv (EvUplink ev)) ?b = ?b'"
    using True w by (simp add: world_of_def del: relay_exec.simps)
  have F: "?F = (put_board macs 0 ?b' F)\<lparr>st_lines := st_lines F @ line_out pf ev ?b, st_sent := st_sent F @ frame_out pf ev ?b\<rparr>"
    using True unfolding site_exec.simps Let_def b' by simp
  have wn: "vn_world n 0 = (v, u, h)" and gw: "b_isGateway ?b"
    using rel w stations by (auto simp: video_rel_def)
  let ?n' = "n\<lparr>vn_world := (vn_world n)(0 := (v, u', h')), vn_sent := vn_sent n @ frame_out pf ev ?b\<rparr>"
  have put: "video_rel ?F ?n'"
    unfolding F using rel gw
    by (intro video_put_only [OF rel stations(1), where b = ?b']) (simp_all add: world_of_def video_rel_def put_board_def Let_def)
  have "vid.vstep\<^sup>*\<^sup>* n ?n'"
  proof (cases "\<exists>tx. ev = EvVideoTask tx")
    case True
    then obtain tx where tx: "ev = EvVideoTask tx" by blast
    obtain ds where st: "video_step (pf_video pf) tx (u, h) = ((u', h'), ds)" using ex tx by (metis uplink_exec.simps(4) prod.collapse)
    show ?thesis
    proof (cases "Option.bind (g_videoQueue u) (q_receive (pf_video pf))")
      case None
      then have "u' = u" "h' = h" "frame_out pf ev ?b = []"
        using video_step_idle [OF None, of tx h] st w by (auto simp: frame_out_def tx world_of_def split: option.split)
      then have "?n' = n" using wn fun_upd_triv [of "vn_world n" 0] by (cases n) auto
      then show ?thesis by (simp only: rtranclp.rtrancl_refl)
    next
      case (Some r)
      then obtain q it q' where q: "g_videoQueue u = Some q" "q_receive (pf_video pf) q = Some (it, q')"
        by (cases r) (auto simp: bind_eq_Some_conv)
      from vnet_step.uplink [OF wn q st, of "pf_recv pf" inb W outb "pf_alloc pf" "pf_frames pf" "pf_status pf" N]
      have "vid.vstep n ?n'"
        using w q st by (simp add: frame_out_def tx world_of_def split: if_splits)
      then show ?thesis by (rule r_into_rtranclp)
    qed
  next
    case False
    then have "frame_out pf ev ?b = []" by (auto simp: frame_out_def split: uplink_event.split option.split)
    then have "vid.vstep n ?n'"
      using vnet_step.other [OF stations(1), of "EvUplink ev" "pf_recv pf" inb W outb "pf_alloc pf" "pf_frames pf" "pf_status pf" "pf_video pf" n]
        False ev wn by (simp del: relay_exec.simps)
    then show ?thesis by (rule r_into_rtranclp)
  qed
  with put show ?thesis by (auto simp: filmed_def simp del: site_exec.simps)
qed

text \<open>The connections of the video relays.\<close>

lemma film_accept:
  assumes rel: "video_rel F n" and x: "x < N"
  shows "filmed (put_board macs x (board_exec pf (VideoEv EvAccept) (st_boards F ! x)) F) n"
proof -
  let ?b = "st_boards F ! x"
  let ?b' = "?b\<lparr>b_relay := (b_relay ?b)\<lparr>g_serverUp := True\<rparr>, b_uplink := b_uplink ?b, b_heap := b_heap ?b\<rparr>"
  have wn: "vn_world n x = world_of ?b" and gw: "b_isGateway ?b = (x = 0)" using rel x by (auto simp: video_rel_def)
  have b': "board_exec pf (VideoEv EvAccept) ?b = ?b'" by (simp add: runs_def)
  let ?n' = "n\<lparr>vn_world := (vn_world n)(x := world_of ?b')\<rparr>"
  have "vid.vstep n ?n'"
    using vnet_step.other [OF x, of EvAccept "pf_recv pf" inb W outb "pf_alloc pf" "pf_frames pf" "pf_status pf" "pf_video pf" n]
    by (simp add: wn world_of_def)
  moreover have "video_rel (put_board macs x ?b' F) ?n'"
    using rel gw by (intro video_put_only [OF rel x, where b = ?b']) (simp_all add: video_rel_def put_board_def Let_def)
  ultimately show ?thesis unfolding b' by (rule filmedI)
qed

lemma film_connect:
  assumes rel: "video_rel F n" and x: "x \<noteq> 0" "x < N" "\<not> st_open F ! x"
  shows "filmed (site_exec pf inb W outb N macs (Connect x) F) n"
proof -
  let ?b = "st_boards F ! x" and ?F = "site_exec pf inb W outb N macs (Connect x) F"
  let ?b' = "?b\<lparr>b_relay := client_connected (b_relay ?b), b_uplink := b_uplink ?b, b_heap := b_heap ?b\<rparr>"
  have wn: "vn_world n x = world_of ?b" "\<not> vn_up n x" "vn_conns n x = st_conns F ! x" and gw: "b_isGateway ?b = (x = 0)"
    using rel x by (auto simp: video_rel_def)
  have b': "board_exec pf (VideoEv EvConnect) ?b = ?b'" using gw x by (simp add: runs_def)
  have F: "?F = (put_board macs x ?b' F)\<lparr>st_conns := (st_conns F)[x := st_conns F ! x @ [[]]], st_open := (st_open F)[x := True]\<rparr>"
    using x unfolding site_exec.simps b' by simp
  let ?n' = "n\<lparr>vn_world := (vn_world n)(x := world_of ?b'), vn_conns := (vn_conns n)(x := st_conns F ! x @ [[]]),
    vn_up := (vn_up n)(x := True)\<rparr>"
  have "vid.vstep n ?n'"
    using vnet_step.connect [OF x(1,2) wn(2), of "pf_recv pf" inb W outb "pf_alloc pf" "pf_frames pf" "pf_status pf" "pf_video pf"]
    by (simp add: wn world_of_def)
  moreover have "video_rel ?F ?n'"
    unfolding F using rel gw
    by (intro video_put [OF rel x(2) _ x(2), where b = ?b']) (simp_all add: video_rel_def put_board_def Let_def)
  ultimately show ?thesis by (rule filmedI)
qed

lemma sendAll_writes: "sendAll W bs c = (ok, c') \<Longrightarrow> prefix (outb c) (outb c')"
  using vid.sendAll_True [of bs c c'] vid.sendAll_False [of bs c c'] by (cases ok) auto

lemma client_writes:
  assumes "client_iter W FQ ((v, h), c) = (ok, w, c')"
  shows "prefix (outb c) (outb c')"
  using assms by (auto simp: client_iter_def Let_def dest!: sendAll_writes split: option.splits prod.splits bool.splits)

lemma film_client:
  assumes rel: "video_rel F n" and x: "x \<noteq> 0" "x < N" "st_open F ! x"
  shows "filmed (site_exec pf inb W outb N macs (Client x c) F) n"
proof -
  let ?b = "st_boards F ! x" and ?F = "site_exec pf inb W outb N macs (Client x c) F"
  obtain ok v h c' where cl: "client_iter W (pf_frames pf) ((b_relay ?b, b_heap ?b), c) = (ok, (v, h), c')"
    by (metis prod_cases3 prod.collapse)
  let ?b' = "?b\<lparr>b_relay := if ok then v else client_lost v, b_heap := h\<rparr>"
  let ?bs = "drop (length (outb c)) (outb c')"
  let ?cs = "write_last ?bs (st_conns F ! x)"
  have wn: "vn_world n x = (b_relay ?b, b_uplink ?b, b_heap ?b)" "vn_up n x" "vn_conns n x = st_conns F ! x"
    and gw: "b_isGateway ?b = (x = 0)"
    using rel x by (auto simp: video_rel_def world_of_def)
  have F: "?F = (put_board macs x ?b' F)\<lparr>st_conns := (st_conns F)[x := ?cs], st_open := (st_open F)[x := ok]\<rparr>"
    using x cl by (simp add: Let_def)
  have "prefix (outb c) (outb c')"
    by (rule client_writes [OF cl])
  then have out: "outb c' = outb c @ ?bs" by (auto elim: prefixE)
  let ?n' = "n\<lparr>vn_world := (vn_world n)(x := world_of ?b'), vn_conns := (vn_conns n)(x := ?cs), vn_up := (vn_up n)(x := ok)\<rparr>"
  have "vid.vstep n ?n'"
    using vnet_step.client [OF x(1,2) wn(2,1) cl out, of "pf_recv pf" inb "pf_alloc pf" "pf_status pf" "pf_video pf"]
    by (simp add: wn(3) world_of_def)
  moreover have "video_rel ?F ?n'"
    unfolding F using rel gw
    by (intro video_put [OF rel x(2) _ x(2), where b = ?b']) (simp_all add: video_rel_def put_board_def Let_def)
  ultimately show ?thesis by (rule filmedI)
qed

lemma film_server:
  assumes rel: "video_rel F n" and x: "x \<noteq> 0" "x < N" and dr: "drain_ok pf inb N (Server x c) F"
  shows "filmed (site_exec pf inb W outb N macs (Server x c) F) n"
proof -
  let ?y = "nxt N x" and ?F = "site_exec pf inb W outb N macs (Server x c) F"
  let ?b = "st_boards F ! ?y"
  have y: "?y < N" by (rule ch.nxt_less)
  have wn: "vn_world n ?y = (b_relay ?b, b_uplink ?b, b_heap ?b)" and gw: "b_isGateway ?b = (?y = 0)"
    and cs: "vn_conns n x = st_conns F ! x" "vn_up n x = st_open F ! x"
    using rel x y by (auto simp: video_rel_def world_of_def)
  obtain go v u h c' where pass: "server_iter (pf_recv pf) (pf_alloc pf) (pf_frames pf) (pf_video pf)
      ((b_relay ?b, b_uplink ?b, b_heap ?b), c) = (go, (v, u, h), c')" by (metis prod.collapse)
  show ?thesis
  proof (cases "\<exists>cs. st_conns F ! x = inb c # cs")
    case False
    then have "?F = F" using x by (auto simp: Let_def split: list.split)
    then show ?thesis using filmed_refl [OF rel] by simp
  next
    case True
    then obtain cs' where c: "st_conns F ! x = inb c # cs'" "drains (pf_recv pf) inb (pf_alloc pf) c (b_heap ?b)"
      using dr by auto
    let ?v = "if go then v else v\<lparr>g_serverUp := False, g_vPrevDrops := g_vPrevDrops v + 1\<rparr>"
    let ?b' = "?b\<lparr>b_relay := ?v, b_uplink := u, b_heap := h\<rparr>" and ?cs = "if go then inb c' # cs' else cs'"
    have F: "?F = (put_board macs ?y ?b' F)\<lparr>st_conns := (st_conns F)[x := ?cs]\<rparr>"
      using x c pass by (simp add: runs_def Let_def)
    let ?n' = "n\<lparr>vn_world := (vn_world n)(?y := world_of ?b'), vn_conns := (vn_conns n)(x := ?cs)\<rparr>"
    have "vid.vstep n ?n'"
      using vnet_step.server [OF x cs(1) [unfolded c(1)] wn refl c(2) pass, of W outb "pf_status pf"]
      by (cases go) (simp_all add: world_of_def)
    moreover have "video_rel ?F ?n'"
      unfolding F using rel gw cs(2)
      by (intro video_put [OF rel y _ x(2), where b = ?b' and c = "st_open F ! x"])
        (simp_all add: video_rel_def put_board_def Let_def fun_upd_idem)
    ultimately show ?thesis by (rule filmedI)
  qed
qed

lemma film_event:
  assumes rel: "video_rel F n" and dr: "drain_ok pf inb N ev F"
  shows "filmed (site_exec pf inb W outb N macs ev F) n"
proof -
  have sq: "square F" using rel by (simp add: video_rel_def)
  note stay = filmed_refl [OF rel]
  show ?thesis
  proof (cases ev)
    case (Pass x now us us')
    then show ?thesis using film_pass [OF rel, of x now us us'] stay by (simp del: board_exec.simps)
  next
    case (Hear y x)
    show ?thesis
    proof (cases "y < N \<and> x < N \<and> y \<noteq> x \<and> st_ether F ! y ! x \<noteq> []")
      case True
      then obtain f fs where f: "st_ether F ! y ! x = f # fs" by (auto simp: neq_Nil_conv)
      let ?b = "st_boards F ! x" and ?b' = "board_exec pf (WifiRecv (macs y) f (int (length f))) (st_boards F ! x)"
      have "filmed (put_board macs x ?b' (set_ether y x fs F)) n"
        using True square_set [OF sq, of y x fs]
        by (intro film_idle [OF rel]) (auto simp: set_ether_def world_of_def)
      then show ?thesis using True f Hear by (simp del: board_exec.simps)
    qed (use stay Hear in \<open>auto split: list.split\<close>)
  next
    case (Shoot x r)
    then show ?thesis using film_shoot [OF rel, of x r] stay by (cases "x < N") auto
  next
    case (Accept x)
    then show ?thesis using film_accept [OF rel, of x] stay by (simp del: board_exec.simps)
  next
    case (Connect x)
    then show ?thesis using film_connect [OF rel, of x] stay by (cases "x \<noteq> 0 \<and> x < N \<and> \<not> st_open F ! x") auto
  next
    case (Client x c)
    then show ?thesis using film_client [OF rel, of x c] stay by (cases "x \<noteq> 0 \<and> x < N \<and> st_open F ! x") auto
  next
    case (Server x c)
    then show ?thesis using film_server [OF rel, of x c] dr stay by (cases "x \<noteq> 0 \<and> x < N") auto
  qed (use film_uplink [OF rel] film_ether [OF rel] stay in auto)
qed

lemma film_boot:
  assumes boot: "\<And>i. i < N \<Longrightarrow> app_main pf V conv (env i) (now i) (p i) (flash i) (console i) = BootRunning (B i)"
    and id: "\<And>i. i < N \<Longrightarrow> g_nodeId (b_node (B i)) = of_nat i \<and> g_chainSize (b_node (B i)) = of_nat N"
  shows "video_rel (site_of N macs B)
    (vnet0 (pf_frames pf) (pf_status pf) (pf_video pf) N (\<lambda>i. ap_netif_found (env i)) (boot_eth (env 0)))"
proof -
  have "world_of (B i) = (fst (relay_init (pf_frames pf) (ap_netif_found (env i)) (of_nat i) (of_nat N) (i = 0) relay0),
      if i = 0 then fst (snd (uplink_init (pf_status pf) (pf_video pf) (boot_eth (env 0)) uplink0)) else uplink0, heap0) \<and>
      b_isGateway (B i) = (i = 0)" if i: "i < N" for i
  proof -
    obtain k c p1 t1 rq where b: "B i = boot_board pf (env i) (now i) k c p1 t1" and "g_rxQueue t1 = Some rq"
      using boot [OF i] by (rule app_main_boots)
    note part = boot_board_parts [OF b]
    have ids: "k = of_nat i" "c = of_nat N"
      using id [OF i] by (auto simp: part(1) chain_init_def broadcastHello_def emit_def Let_def split: if_splits)
    have "(of_nat i :: u8) = 0 \<longleftrightarrow> i = 0" using ch.id_eq [OF i stations(1)] by simp
    then show ?thesis using part ids by (auto simp: world_of_def)
  qed
  then show ?thesis
    by (simp add: video_rel_def vnet0_def look_site_of) (simp add: site_of_def)
qed

lemma site_run_filmed:
  assumes "video_rel F n" and "vreach n" and "in_step pf inb W outb N macs evs F"
  shows "\<exists>n'. vreach n' \<and> video_rel (fold (site_exec pf inb W outb N macs) evs F) n'"
  using assms
proof (induction evs arbitrary: F n)
  case (Cons ev evs)
  obtain n1 where n1: "vid.vstep\<^sup>*\<^sup>* n n1" "video_rel (site_exec pf inb W outb N macs ev F) n1"
    using film_event [OF Cons.prems(1), of ev] Cons.prems(3) by (auto simp: filmed_def)
  from n1(1) Cons.prems(2) have "vreach n1"
    by (induction rule: rtranclp_induct) (auto intro: vnet_reach.vstep)
  then show ?case using Cons.IH n1(2) Cons.prems(3) by auto
qed auto

end

end
