(* ===== verification/SiteProps.thy ===== *)
theory SiteProps
  imports SiteVideo
begin

text \<open>
  The two end-to-end properties of an installation of complete boards, from \<open>app_main\<close> on
  every board to what the backend receives, and runs of two boards for which they hold.
\<close>

section \<open>Two boards on the bench\<close>

lemma station_unicast: "station i \<noteq> kBroadcastMac"
  by (simp add: station_def kBroadcastMac_def)

interpretation duo: site_parts bench "\<lambda>_. True" fst snd 2 station "\<lambda>_. True" fst snd "\<lambda>_. True" fst snd
  concat "mss_send 64" fst "\<lambda>_. True" fst snd "\<lambda>_. True" fst snd
  by (unfold_locales; (unfold bench_parts)?) (rule lq.create lq.send_room lq.send_full lq.receive_empty
      lq.receive_cons pair.two_nodes pair.max_nodes pair.macs_inj station_unicast; assumption?)+

text \<open>Both boards have booted with their place in the chain of two.\<close>

definition bench_site where
  "bench_site = site_of 2 station (\<lambda>i. bench_board (of_nat i) 2)"

abbreviation bench_run where
  "bench_run \<equiv> \<lambda>evs. fold (site_exec bench concat (mss_send 64) fst 2 station) evs bench_site"

lemma bench_run_eq: "bench_run evs = fold (site_exec bench concat (mss_send 64) fst 2 station) evs
    (site_of 2 station (\<lambda>i. bench_board (of_nat i) 2))"
  by (simp only: bench_site_def)

lemma bench_site_boots:
  assumes "i < 2"
  shows "app_main bench flash_ops (\<lambda>z. z) good_boot (at 0) [] (flash_of (of_nat i) 2) [] =
      BootRunning (bench_board (of_nat i) 2)"
    and "g_nodeId (b_node (bench_board (of_nat i) 2)) = of_nat i \<and>
      g_chainSize (b_node (bench_board (of_nat i) 2)) = of_nat 2"
proof -
  have i: "i = 0 \<or> i = 1" using assms by auto
  then have "valid_identity (of_nat i) 2" by (auto simp: valid_identity_def config_defs)
  then show "app_main bench flash_ops (\<lambda>z. z) good_boot (at 0) [] (flash_of (of_nat i) 2) [] =
      BootRunning (bench_board (of_nat i) 2)" by (rule bench_boots)
  show "g_nodeId (b_node (bench_board (of_nat i) 2)) = of_nat i \<and>
      g_chainSize (b_node (bench_board (of_nat i) 2)) = of_nat 2"
    by (simp add: boot_board_parts(1) [OF bench_board_def] chain_init_def broadcastHello_def emit_def Let_def)
qed

section \<open>Status\<close>

text \<open>C5: Status end to end, on the boards as they boot and run: whatever the radio loses or
  repeats, whatever the full queues drop and the tasks of the boards interleave, the lines of
  station \<open>k\<close> that the backend takes are a subsequence of those of the readings station \<open>k\<close>
  queued: in order, unaltered, none twice and none invented.\<close>

theorem site_lines_in_order:
  assumes "site_parts pf qv qc qcap N macs fv fc fcap vv vc vcap inb W outb sv sc scap rv rc rcap"
    and "\<And>i. i < N \<Longrightarrow> app_main pf V conv (env i) (now i) (p i) (flash i) (console i) = BootRunning (B i)"
    and "\<And>i. i < N \<Longrightarrow> g_nodeId (b_node (B i)) = of_nat i \<and> g_chainSize (b_node (B i)) = of_nat N"
    and "F = fold (site_exec pf inb W outb N macs) evs (site_of N macs B)" and "k \<noteq> 0" and "k < N"
    and "\<And>a. a \<noteq> 0 \<Longrightarrow> a < N \<Longrightarrow> length (originated (b_node (st_boards F ! a))) \<le> 65536"
  shows "subseq (filter (\<lambda>l. line_node l = k) (st_lines F))
    (map (reading_line \<circ> reading) (own_enqueued (b_node (st_boards F ! k))))"
proof -
  have parts: "chain (pf_out pf) qv qc qcap N macs" "rtos_queue (pf_status pf) sv sc scap"
    using assms(1) by (simp_all add: site_parts_def)
  obtain s where s: "plant_reach (pf_out pf) N macs (pf_status pf) (pf_video pf) s"
      and rel: "site_parts.status_rel pf N macs rv rc rcap F s"
    using site_parts.site_run_simulated [OF assms(1) site_parts.status_boot [OF assms(1-3)] plant_reach.pboot, of evs]
    unfolding assms(4) by blast
  then have same: "nodes (pl_net s) a = b_node (st_boards F ! a)" "pl_lines s = st_lines F" if "a < N" for a
    using that by (simp_all add: site_parts.status_rel_def [OF assms(1)])
  show ?thesis
    using backend_lines_in_order [OF parts s assms(5,6)] assms(6,7) same by simp
qed

text \<open>
  Discovery, a tick of the relay; its frame is lost, sent again and received twice; a tick of
  the Gateway, the acknowledgements, and three passes of the status task.
\<close>

definition status_day :: "(bytes option list, segments, bytes \<times> nat) site_event list" where
  "status_day = [Hear 0 1, Hear 1 0, Pass 0 (at 100) 100000 100000, Pass 1 (at 3000) 3000000 3000000,
     Fade 1 0 0, Pass 1 (at 3300) 3300000 3300000, Echo 1 0 0, Hear 1 0, Hear 1 0,
     Uplink (EvEth ETHERNET_EVENT_CONNECTED), Pass 0 (at 3310) 3310000 3310000,
     Hear 0 1, Hear 0 1, Pass 1 (at 3320) 3320000 3320000,
     Uplink (EvStatusTask up_sock), Uplink (EvStatusTask up_sock), Uplink (EvStatusTask up_sock)]"

theorem site_lines_in_order_witness:
  "let F = bench_run status_day
   in st_lines F = [[49, 58, 48, 58, 48, 58, 10], [48, 58, 48, 58, 48, 58, 10]] \<and>
      g_state (b_node (st_boards F ! 1)) = kIdle \<and> g_statRetx (b_node (st_boards F ! 1)) = 1 \<and>
      subseq (filter (\<lambda>l. line_node l = 1) (st_lines F))
        (map (reading_line \<circ> reading) (own_enqueued (b_node (st_boards F ! 1))))"
proof -
  let ?F = "bench_run status_day"
  have run: "st_lines ?F = [[49, 58, 48, 58, 48, 58, 10], [48, 58, 48, 58, 48, 58, 10]]"
      "g_state (b_node (st_boards ?F ! 1)) = kIdle" "g_statRetx (b_node (st_boards ?F ! 1)) = 1"
      "length (originated (b_node (st_boards ?F ! 1))) \<le> 1"
    by code_simp+
  have few: "length (originated (b_node (st_boards ?F ! a))) \<le> 65536" if "a \<noteq> 0" "a < 2" for a
  proof -
    have "a = 1" using that by simp
    then show ?thesis using run(4) by simp
  qed
  have "subseq (filter (\<lambda>l. line_node l = 1) (st_lines ?F))
      (map (reading_line \<circ> reading) (own_enqueued (b_node (st_boards ?F ! 1))))"
    by (rule site_lines_in_order [OF duo.site_parts_axioms bench_site_boots bench_run_eq _ _ few]) simp_all
  with run(1-3) show ?thesis unfolding Let_def by blast
qed

section \<open>Video\<close>

text \<open>C8: Video end to end, on the boards as they boot and run: whatever the interleaving, the cut
  connections, the full queues and the lost buffers, as long as no drain of a frame that found no
  buffer is cut short by a receive timeout, the frames of a node that the Gateway counts as
  sent are a subsequence of those its camera delivered: in order, none twice, none altered
  and none of another node; and each of them went out as all of its datagrams.\<close>

theorem site_video_in_order:
  assumes "site_parts pf qv qc qcap N macs fv fc fcap vv vc vcap inb W outb sv sc scap rv rc rcap"
    and "\<And>i. i < N \<Longrightarrow> app_main pf V conv (env i) (now i) (p i) (flash i) (console i) = BootRunning (B i)"
    and "\<And>i. i < N \<Longrightarrow> g_nodeId (b_node (B i)) = of_nat i \<and> g_chainSize (b_node (B i)) = of_nat N"
    and "F = fold (site_exec pf inb W outb N macs) evs (site_of N macs B)"
    and "q_create (pf_frames pf) kVideoQueueDepth \<noteq> None"
    and "in_step pf inb W outb N macs evs (site_of N macs B)"
  shows "subseq (filter (from_node k) (map fst (st_sent F))) (filter (from_node k) (st_made F)) \<and>
    (\<forall>(it, ds) \<in> set (st_sent F). ds = datagrams it)"
proof -
  have parts: "video_net (pf_frames pf) fv fc fcap (pf_video pf) vv vc vcap (pf_alloc pf) (pf_recv pf) inb W outb N"
    using assms(1) by (simp add: site_parts_def)
  obtain n where n: "vnet_reach (pf_recv pf) inb W outb (pf_alloc pf) (pf_frames pf) (pf_status pf) (pf_video pf) N n"
      and rel: "site_parts.video_rel N F n"
    using site_parts.site_run_filmed [OF assms(1) site_parts.film_boot [OF assms(1-3)] vnet_reach.vboot assms(6)]
    unfolding assms(4) by blast
  then have "vn_made n = st_made F" "vn_sent n = st_sent F"
    by (simp_all add: site_parts.video_rel_def [OF assms(1)])
  with video_chain_in_order [OF parts n assms(5), of k] show ?thesis by simp
qed

text \<open>An image of three bytes from the camera of the relay.\<close>

definition shot_link :: "bytes option list spi_rx" where
  "shot_link = link_of [Some (enc_wire_header image3), Some [9, 8, 7]]"

lemma shot_pass:
  assumes "heap_caps_malloc (pool_alloc 8) 3 MALLOC_CAP_SPIRAM h = (Some a, h1)"
  shows "\<exists>r'. receiver_pass feed (\<lambda>_. 0) (pool_alloc 8) cb (shot_link, w, h) =
    Some (r', on_frame cb image3 a (w, h\<lparr>mem := (mem h)(a \<mapsto> [9, 8, 7])\<rparr>))"
proof -
  have hdr: "frame_header image3 (length [9, 8, 7 :: u8])"
    by (simp add: frame_header_def image3_def kMsgStatus_def kMsgVideo_def config_defs)
  have cs: "carries [to_chunk [9, 8, 7]] [9, 8, 7]"
    by (simp add: carries_def to_chunk_def kLuckfoxSpiChunkBytes_def)
  have pend: "map (map_option to_chunk) (sp_link shot_link) =
      [] @ Some (enc_wire_header image3 @ replicate 3988 0) # map Some [to_chunk [9, 8, 7]] @ []"
    by (simp add: shot_link_def link_of_def to_chunk_def kLuckfoxSpiChunkBytes_def sizeof_WireHeader_def)
  have al: "spi_alloc (pool_alloc 8) (length [9, 8, 7 :: u8]) h = (Some a, h1)" using assms by (simp add: spi_alloc_def numeral_3_eq_3)
  from fed.pass_frame [OF pool_allocator hdr cs pend _ al, of "\<lambda>_. 0" cb w] show ?thesis by auto
qed

definition shot_frame_in :: Frame where
  "shot_frame_in = \<lparr>fr_header = \<lparr>fh_origin_node_id = 1, fh_stream_id = 2, fh_seq = 7, fh_data_len = 3\<rparr>, fr_data = Some 0\<rparr>"

text \<open>The site after that image: the relay holds it in its first buffer.\<close>

definition shot_site where
  "shot_site = (let b = bench_board 1 2 in
     (put_board station 1 (b\<lparr>b_relay := (b_relay b)\<lparr>g_vLocal := 1, v_outQueue := Some ([shot_frame_in], 12)\<rparr>,
        b_heap := heap0\<lparr>mem := (mem heap0)(0 \<mapsto> [9, 8, 7])\<rparr>\<rparr>) bench_site)
       \<lparr>st_made := [camera_frame 1 2 7 [9, 8, 7]]\<rparr>)"

lemma shot_run: "bench_run [Shoot 1 shot_link] = shot_site"
proof -
  let ?b = "bench_board 1 2" and ?h = "heap0\<lparr>mem := (mem heap0)(0 \<mapsto> [9, 8, 7])\<rparr>"
  have b: "st_boards bench_site ! 1 = ?b" "st_made bench_site = []" by (simp_all add: bench_site_def site_of_def)
  have facts: "b_spiUp ?b" "v_nodeId (b_relay ?b) = 1" "\<not> v_isGateway (b_relay ?b)" "v_outQueue (b_relay ?b) = Some ([], 12)"
      "g_vLocal (b_relay ?b) = 0"
    by code_simp+
  have h0: "b_heap ?b = heap0" by (rule boot_board_parts(4) [OF bench_board_def])
  have al: "heap_caps_malloc (pool_alloc 8) 3 MALLOC_CAP_SPIRAM heap0 = (Some 0, heap0\<lparr>mem := (mem heap0)(0 \<mapsto> [0, 0, 0])\<rparr>)"
    by (simp add: heap_caps_malloc_def pool_alloc_def heap0_def upt_rec numeral_3_eq_3)
  let ?cb = "board_callbacks list_queue list_queue ::
    (StatusPacket list_q node \<times> Frame list_q relay \<times> (StatusItem list_q, VideoItem list_q) uplink) spi_callbacks"
  let ?v = "(b_relay ?b)\<lparr>g_vLocal := 1, v_outQueue := Some ([shot_frame_in], 12)\<rparr>"
  have "on_frame ?cb image3 0 ((b_node ?b, b_relay ?b, b_uplink ?b), ?h) = ((b_node ?b, ?v, b_uplink ?b), ?h)"
    using facts by (simp add: on_frame_def board_callbacks_def image3_def onLuckfoxFrame_def enqueueOrDrop_def
        list_queue_def shot_frame_in_def)
  then have exec: "board_exec bench (SpiPass shot_link) ?b = ?b\<lparr>b_relay := ?v, b_heap := ?h\<rparr>"
    using shot_pass [OF al, of ?cb "(b_node ?b, b_relay ?b, b_uplink ?b)"] facts(1)
    by (auto simp: bench_parts h0)
  have "shots bench shot_link ?b = [camera_frame 1 2 7 [9, 8, 7]]"
    using shot_pass [OF al, of note_items "[]"] facts
    by (auto simp: shots_def bench_parts h0 on_frame_def note_items_def image3_def heap_read_def)
  with exec b show ?thesis
    by (simp add: shot_site_def Let_def del: board_exec.simps)
qed

text \<open>The Gateway's server reads it from the connection.\<close>

abbreviation shot_wire :: bytes where
  "shot_wire \<equiv> [1, 2, 7, 0, 3, 0, 0, 0, 9, 8, 7]"

abbreviation shot_item :: VideoItem where
  "shot_item \<equiv> \<lparr>vi_origin_node_id = 1, vi_stream_id = 2, vi_seq = 7, vi_data_len = 3, vi_data = 0\<rparr>"

lemma shot_served:
  assumes "v_isGateway v" and "g_videoQueue u = Some ([], 12)" and "g_linkUp u" and "mem h 0 = None"
  shows "drains seg_recv concat (pool_alloc 8) [shot_wire] h"
    and "server_iter seg_recv (pool_alloc 8) list_queue list_queue ((v, u, h), [shot_wire]) =
      (True, (v\<lparr>g_vIn := g_vIn v + 1, g_vSunk := g_vSunk v + 1\<rparr>,
         u\<lparr>g_videoQueue := Some ([shot_item], 12), g_vidQueued := g_vidQueued u + 1\<rparr>,
         h\<lparr>mem := (mem h)(0 \<mapsto> [9, 8, 7])\<rparr>), [])"
proof -
  let ?hdr = "\<lparr>fh_origin_node_id = 1, fh_stream_id = 2, fh_seq = 7, fh_data_len = 3\<rparr>"
  have alloc: "allocFrameBuffer (pool_alloc 8) 3 h = (Some 0, h\<lparr>mem := (mem h)(0 \<mapsto> [0, 0, 0])\<rparr>)"
    using assms(4) by (simp add: allocFrameBuffer_def heap_caps_malloc_def pool_alloc_def upt_rec numeral_3_eq_3)
  have fill: "heap_write 0 0 [9, 8, 7] (h\<lparr>mem := (mem h)(0 \<mapsto> [0, 0, 0])\<rparr>) = h\<lparr>mem := (mem h)(0 \<mapsto> [9, 8, 7])\<rparr>"
    by (simp add: heap_write_def)
  have rd: "recvAll seg_recv sizeof_FrameHeader [shot_wire] = (Some (take 8 shot_wire), [[9, 8, 7]])"
    "recvAll seg_recv 3 [[9, 8, 7]] = (Some [9, 8, 7], [])"
    by (simp_all add: recvAll.simps sizeof_FrameHeader_def)
  have hd: "dec_frame_header (take 8 shot_wire) = ?hdr"
    by (simp add: dec_frame_header_def le16_dec_def le32_dec_def)
  show "drains seg_recv concat (pool_alloc 8) [shot_wire] h"
    unfolding drains_def using rd hd alloc by simp
  show "server_iter seg_recv (pool_alloc 8) list_queue list_queue ((v, u, h), [shot_wire]) =
      (True, (v\<lparr>g_vIn := g_vIn v + 1, g_vSunk := g_vSunk v + 1\<rparr>,
         u\<lparr>g_videoQueue := Some ([shot_item], 12), g_vidQueued := g_vidQueued u + 1\<rparr>,
         h\<lparr>mem := (mem h)(0 \<mapsto> [9, 8, 7])\<rparr>), [])"
    unfolding server_iter_def using rd hd alloc fill assms(1-3)
    by (simp add: enqueueOrDrop_def sinkFrame_def flushVideo_def list_queue_def freeFrame_def
        kChainSelfTest_def config_defs Let_def)
qed

lemma shot_sent:
  assumes "g_videoQueue u = Some ([shot_item], 12)" and "g_linkUp u"
  shows "\<exists>u' h' ds. video_step list_queue (\<lambda>_. 0) (u, h) = ((u', h'), ds) \<and> g_vidSent u' = g_vidSent u + 1"
proof -
  obtain ok ds where s: "send_chunks (\<lambda>_. 0) shot_item (heap_read 0 h) [0..<unat (chunk_count shot_item)] = (ok, ds)" by fastforce
  from send_chunks_prefix [OF this] have ok by auto
  with s assms show ?thesis by (simp add: list_queue_def video_step_def Let_def)
qed

definition video_day :: "(bytes option list, segments, bytes \<times> nat) site_event list" where
  "video_day = [Uplink (EvEth ETHERNET_EVENT_CONNECTED), Connect 1, Accept 0, Client 1 ([], 8)]"

abbreviation video_end :: "(bytes option list, segments, bytes \<times> nat) site_event list" where
  "video_end \<equiv> [Server 1 [shot_wire], Uplink (EvVideoTask (\<lambda>_. 0))]"

lemma sent_datagrams:
  "\<forall>(it, ds) \<in> set xs. ds = datagrams it \<Longrightarrow> map snd xs = map datagrams (map fst xs)"
  by (induction xs) auto

lemma video_run: "map fst (st_sent (bench_run (Shoot 1 shot_link # video_day @ video_end))) = [camera_frame 1 2 7 [9, 8, 7]]"
proof -
  let ?exec = "site_exec bench concat (mss_send 64) fst 2 station"
  define F where "F = fold ?exec video_day shot_site"
  define b where "b = st_boards F ! 0"
  have facts: "st_conns F ! 1 = [shot_wire]" "b_isGateway b" "v_isGateway (b_relay b)" "g_videoQueue (b_uplink b) = Some ([], 12)"
      "g_linkUp (b_uplink b)" "g_vidSent (b_uplink b) = 0" "mem (b_heap b) 0 = None" "st_sent F = []" "length (st_boards F) = 2"
    unfolding F_def b_def by code_simp+
  let ?u = "(b_uplink b)\<lparr>g_videoQueue := Some ([shot_item], 12), g_vidQueued := g_vidQueued (b_uplink b) + 1\<rparr>"
    and ?h = "(b_heap b)\<lparr>mem := (mem (b_heap b))(0 \<mapsto> [9, 8, 7])\<rparr>"
  let ?b = "b\<lparr>b_relay := (b_relay b)\<lparr>g_vIn := g_vIn (b_relay b) + 1, g_vSunk := g_vSunk (b_relay b) + 1\<rparr>,
    b_uplink := ?u, b_heap := ?h\<rparr>"
  note served = shot_served [OF facts(3-5,7)]
  have n: "nxt 2 (Suc 0) = 0" by (simp add: nxt_def)
  have G: "?exec (Server 1 [shot_wire]) F = (put_board station 0 ?b F)\<lparr>st_conns := (st_conns F)[1 := [[]]]\<rparr>" (is "_ = ?G")
    using facts(1) served by (simp add: n b_def [symmetric] bench_parts runs_def Let_def)
  have G0: "st_boards ?G ! 0 = ?b" "st_sent ?G = []" using facts(8,9) by (simp_all add: put_board_def Let_def)
  obtain u' h' ds where st: "video_step list_queue (\<lambda>_. 0) (?u, ?h) = ((u', h'), ds)" "g_vidSent u' = g_vidSent ?u + 1"
    using shot_sent [of ?u ?h] facts(5) by auto
  have "frame_out bench (EvVideoTask (\<lambda>_. 0)) ?b = [(vi_item ?h shot_item, ds)]"
    using st facts(2) by (simp add: frame_out_def bench_parts list_queue_def del: split_paired_All)
  moreover have "vi_item ?h shot_item = camera_frame 1 2 7 [9, 8, 7]"
    by (simp add: vi_item_def camera_frame_def heap_read_def)
  ultimately have "map fst (st_sent (?exec (Uplink (EvVideoTask (\<lambda>_. 0))) ?G)) = [camera_frame 1 2 7 [9, 8, 7]]"
    using G0 facts(2) by (simp add: runs_def Let_def put_board_def)
  moreover have "bench_run (Shoot 1 shot_link # video_day @ video_end) = ?exec (Uplink (EvVideoTask (\<lambda>_. 0))) ?G"
  proof -
    have "bench_run (Shoot 1 shot_link # video_day @ video_end) = fold ?exec video_end (fold ?exec video_day (bench_run [Shoot 1 shot_link]))"
      by simp
    then show ?thesis unfolding shot_run F_def [symmetric] G [symmetric] by simp
  qed
  ultimately show ?thesis by simp
qed

lemma video_in_step:
  "in_step bench concat (mss_send 64) fst 2 station (Shoot 1 shot_link # video_day @ video_end) bench_site"
proof -
  define F where "F = fold (site_exec bench concat (mss_send 64) fst 2 station) video_day shot_site"
  define b where "b = st_boards F ! 0"
  have facts: "v_isGateway (b_relay b)" "g_videoQueue (b_uplink b) = Some ([], 12)" "g_linkUp (b_uplink b)" "mem (b_heap b) 0 = None"
      "st_conns F ! 1 = [shot_wire]"
    unfolding F_def b_def by code_simp+
  have run: "fold (site_exec bench concat (mss_send 64) fst 2 station) (Shoot 1 shot_link # video_day) bench_site = F"
    unfolding F_def shot_run [symmetric] by simp
  have n: "nxt 2 1 = 0" by (simp add: nxt_def)
  have "drain_ok bench concat 2 (Server 1 [shot_wire] :: (bytes option list, segments, bytes \<times> nat) site_event) F"
    using shot_served(1) [OF facts(1-4)] facts(5) by (simp only: drain_ok.simps n bench_parts b_def [symmetric] list.case simp_thms)
  then have "in_step bench concat (mss_send 64) fst 2 station video_end F" by (simp del: drain_ok.simps(1) site_exec.simps)
  moreover have "in_step bench concat (mss_send 64) fst 2 station (Shoot 1 shot_link # video_day) bench_site"
    by (rule in_step_no_server) (simp add: video_day_def)
  ultimately show ?thesis
    using in_step_append [of bench concat "mss_send 64" fst 2 station "Shoot 1 shot_link # video_day" video_end bench_site]
    unfolding run by (simp del: in_step.simps)
qed

theorem site_video_in_order_witness:
  "let F = bench_run (Shoot 1 shot_link # video_day @ video_end)
   in map fst (st_sent F) = [camera_frame 1 2 7 [9, 8, 7]] \<and>
      map snd (st_sent F) = [datagrams (camera_frame 1 2 7 [9, 8, 7])] \<and>
      subseq (filter (from_node 1) (map fst (st_sent F))) (filter (from_node 1) (st_made F))"
proof -
  let ?F = "bench_run (Shoot 1 shot_link # video_day @ video_end)"
  have "q_create (pf_frames bench) kVideoQueueDepth \<noteq> None" by (simp add: bench_parts list_queue_def)
  from site_video_in_order [OF duo.site_parts_axioms bench_site_boots bench_run_eq this video_in_step [unfolded bench_site_def],
      where k = 1]
  have sub: "subseq (filter (from_node 1) (map fst (st_sent ?F))) (filter (from_node 1) (st_made ?F))"
    and ds: "\<forall>(it, ds) \<in> set (st_sent ?F). ds = datagrams it" by blast+
  have "map snd (st_sent ?F) = map datagrams (map fst (st_sent ?F))"
    by (rule sent_datagrams [OF ds])
  then have "map snd (st_sent ?F) = [datagrams (camera_frame 1 2 7 [9, 8, 7])]"
    unfolding video_run by (simp only: list.map)
  with sub video_run show ?thesis by (simp only: Let_def simp_thms)
qed

end
