(* ===== verification/Stats.thy ===== *)
theory Stats
  imports MainLoop ChainProps
begin

text \<open>
  The statistics every board prints (\<open>logStats\<close> of chain_node.cpp, video_relay.cpp and
  gateway_uplink.cpp, put together by main.cpp), as the message text handed to \<open>ESP_LOGI\<close>, and
  the banner of provisioning.cpp. \<open>numbers\<close> reads the decimal numbers back out of a line; a
  line whose texts hold no digit gives back its arguments. The invariant \<open>retx_ok\<close> adds the
  count of retransmissions to those of ChainCounts.
\<close>

section \<open>printf\<close>

text \<open>A format with its arguments: literal text (or a \<open>%s\<close>), and \<open>%u\<close>.\<close>

datatype piece = Txt string | Num nat

fun printf :: "piece list \<Rightarrow> bytes" where
  "printf [] = []"
| "printf (Txt s # ps) = c_text s @ printf ps"
| "printf (Num n # ps) = dec_digits n @ printf ps"

fun args :: "piece list \<Rightarrow> nat list" where
  "args [] = []"
| "args (Txt s # ps) = args ps"
| "args (Num n # ps) = n # args ps"

text \<open>The decimal numbers in a text, from the left; the first argument is the number being read.\<close>

fun scan_numbers :: "nat option \<Rightarrow> bytes \<Rightarrow> nat list" where
  "scan_numbers None [] = []"
| "scan_numbers (Some n) [] = [n]"
| "scan_numbers None (b # bs) =
     (if is_digit b then scan_numbers (Some (unat b - 48)) bs else scan_numbers None bs)"
| "scan_numbers (Some n) (b # bs) =
     (if is_digit b then scan_numbers (Some (10 * n + (unat b - 48))) bs else n # scan_numbers None bs)"

definition numbers :: "bytes \<Rightarrow> nat list" where
  "numbers bs = scan_numbers None bs"

definition wordy :: "string \<Rightarrow> bool" where
  "wordy s \<longleftrightarrow> s \<noteq> [] \<and> list_all (\<lambda>b. \<not> is_digit b) (c_text s)"

fun spaced :: "piece list \<Rightarrow> bool" where
  "spaced [] = True"
| "spaced (Txt s # ps) = (wordy s \<and> spaced ps)"
| "spaced [Num n] = True"
| "spaced (Num n # Num m # ps) = False"
| "spaced (Num n # Txt s # ps) = (wordy s \<and> spaced ps)"

lemma scan_digits_some:
  "\<forall>b \<in> set ds. is_digit b \<Longrightarrow> scan_numbers (Some n) (ds @ bs) =
     scan_numbers (Some (foldl (\<lambda>acc b. 10 * acc + (unat b - 48)) n ds)) bs"
  by (induction ds arbitrary: n) auto

lemma dec_digits_ne: "dec_digits n \<noteq> []"
  by (simp add: dec_digits.simps [of n])

lemma scan_dec: "scan_numbers None (dec_digits n @ bs) = scan_numbers (Some n) bs"
proof -
  obtain d ds where d: "dec_digits n = d # ds" using dec_digits_ne [of n] by (cases "dec_digits n") simp_all
  then have "\<forall>b \<in> set (d # ds). is_digit b" using dec_digits_are_digits [of _ n] by simp
  then have "scan_numbers None (dec_digits n @ bs) =
      scan_numbers (Some (foldl (\<lambda>acc b. 10 * acc + (unat b - 48)) 0 (d # ds))) bs"
    unfolding d using scan_digits_some [of ds "unat d - 48" bs] by simp
  also have "foldl (\<lambda>acc b. 10 * acc + (unat b - 48)) 0 (d # ds) = n"
    using dec_value_digits [of n] unfolding d dec_value_def .
  finally show ?thesis .
qed

lemma scan_wordy:
  assumes "wordy s"
  shows "scan_numbers None (c_text s @ bs) = scan_numbers None bs"
    and "scan_numbers (Some n) (c_text s @ bs) = n # scan_numbers None bs"
proof -
  have none: "list_all (\<lambda>b. \<not> is_digit b) t \<Longrightarrow> scan_numbers None (t @ bs) = scan_numbers None bs" for t
    by (induction t) auto
  obtain t ts where t: "c_text s = t # ts" "\<not> is_digit t" "list_all (\<lambda>b. \<not> is_digit b) ts"
    using assms by (cases "c_text s") (auto simp: wordy_def c_text_def)
  show "scan_numbers None (c_text s @ bs) = scan_numbers None bs"
    "scan_numbers (Some n) (c_text s @ bs) = n # scan_numbers None bs"
    using none [OF t(3)] t by simp_all
qed

lemma numbers_printf: "spaced ps \<Longrightarrow> numbers (printf ps) = args ps"
  unfolding numbers_def
  by (induction ps rule: spaced.induct)
     (simp_all add: scan_wordy scan_dec scan_dec [where bs = "[]", unfolded append_Nil2])

section \<open>The lines\<close>

definition okText :: "bool \<Rightarrow> string" where
  "okText known = (if known then ''ok'' else ''-'')"

fun stateName :: "State \<Rightarrow> string" where
  "stateName kDiscovering = ''DISCOVERING''"
| "stateName kIdle = ''IDLE''"
| "stateName kForwarding = ''FORWARDING''"

text \<open>\<open>uxQueueMessagesWaiting\<close> is the argument \<open>waiting\<close>; a null handle counts as 0.\<close>

definition qlen :: "('q \<Rightarrow> u32) \<Rightarrow> 'q option \<Rightarrow> nat" where
  "qlen waiting q = (case q of None \<Rightarrow> 0 | Some q' \<Rightarrow> unat (waiting q'))"

definition chain_stats :: "('q \<Rightarrow> u32) \<Rightarrow> 'q node \<Rightarrow> piece list" where
  "chain_stats waiting s =
     (if g_isGateway s then
        [Txt ''stats: node='', Num (unat (g_nodeId s)), Txt ''/'', Num (unat (g_chainSize s)),
         Txt '' GATEWAY state='', Txt (stateName (g_state s)), Txt '' prev='', Txt (okText (g_prevKnown s)),
         Txt '' | local='', Num (unat (g_statLocal s)), Txt '' in='', Num (unat (g_statIn s)),
         Txt '' sunk='', Num (unat (g_statSunk s))]
      else
        [Txt ''stats: node='', Num (unat (g_nodeId s)), Txt ''/'', Num (unat (g_chainSize s)),
         Txt '' RELAY state='', Txt (stateName (g_state s)), Txt '' prev='', Txt (okText (g_prevKnown s)),
         Txt '' next='', Txt (okText (g_nextKnown s)),
         Txt '' | local='', Num (unat (g_statLocal s)), Txt '' in='', Num (unat (g_statIn s)),
         Txt '' fwd='', Num (unat (g_statForwarded s)), Txt '' retx='', Num (unat (g_statRetx s)),
         Txt '' qdrop='', Num (unat (g_statQueueDrops s)), Txt '' qlen='', Num (qlen waiting (g_outQueue s))])"

definition relay_stats :: "('fq \<Rightarrow> u32) \<Rightarrow> 'fq relay \<Rightarrow> piece list" where
  "relay_stats waiting v =
     [Txt ''stats: prev='', Txt (if g_serverUp v then ''up'' else ''-''),
      Txt '' next='', Txt (if v_isGateway v then ''n/a'' else if g_clientUp v then ''up'' else ''DOWN''),
      Txt '' | local='', Num (unat (g_vLocal v)), Txt '' in='', Num (unat (g_vIn v)),
      Txt '' out='', Num (unat (g_vOut v)), Txt '' ('', Num (unat (g_vOutBytes v div 1024)), Txt '' KB) drop='',
      Num (unat (g_vDrop v)), Txt '' sunk='', Num (unat (g_vSunk v)), Txt '' bad='', Num (unat (g_vBad v)),
      Txt '' | reconnects='', Num (unat (g_vReconnects v)), Txt '' prev_lost='', Num (unat (g_vPrevDrops v)),
      Txt '' | qlen='', Num (qlen waiting (v_outQueue v))]"

text \<open>The two lines of the uplink, and a third with the speed and the duplex mode the driver reports
  (\<open>fast\<close>, \<open>full\<close>) when the link is up.\<close>

definition uplink_stats :: "bool \<Rightarrow> bool \<Rightarrow> ('sq, 'vq) uplink \<Rightarrow> piece list list" where
  "uplink_stats fast full u =
     [[Txt ''stats: link='', Txt (if g_linkUp u then ''up'' else ''DOWN''),
       Txt '' | status queued='', Num (unat (g_stQueued u)), Txt '' sent='', Num (unat (g_stSent u)),
       Txt '' dropped='', Num (unat (g_stDropped u)), Txt '' | video queued='', Num (unat (g_vidQueued u)),
       Txt '' sent='', Num (unat (g_vidSent u)), Txt '' dropped='', Num (unat (g_vidDropped u))],
      [Txt ''stats: eth rx frames='', Num (unat (g_ethRxFrames u)), Txt '' arp_req='', Num (unat (g_ethRxArpReq u)),
       Txt '' ipv4='', Num (unat (g_ethRxIpv4 u))]] @
     (if \<not> g_ethHandle u \<or> \<not> g_linkUp u then []
      else [[Txt ''stats: eth phy speed='', Txt (if fast then ''100M'' else ''10M''),
             Txt '' duplex='', Txt (if full then ''full'' else ''half'')]])"

text \<open>Free memory in bytes (heap, its minimum, PSRAM), and the line of main.cpp at \<open>now\<close> ms.\<close>

record mem_env =
  free_heap :: u32
  min_free_heap :: u32
  free_psram :: u32

definition heap_stats :: "mem_env \<Rightarrow> u32 \<Rightarrow> piece list" where
  "heap_stats m now =
     [Txt ''stats: heap free='', Num (unat (free_heap m div 1024)), Txt '' min='', Num (unat (min_free_heap m div 1024)),
      Txt '' KB, psram free='', Num (unat (free_psram m div 1024)), Txt '' KB, uptime='', Num (unat (now div 1000)), Txt ''s'']"

text \<open>What a board prints at \<open>now\<close>: nothing before the interval has passed.\<close>

definition stats_report ::
  "('q \<Rightarrow> u32) \<Rightarrow> ('fq \<Rightarrow> u32) \<Rightarrow> bool \<Rightarrow> bool \<Rightarrow> mem_env \<Rightarrow> u32 \<Rightarrow>
     ('p, 'r, 'q, 'fq, 'sq, 'vq) board \<Rightarrow> bytes list" where
  "stats_report qw fw fast full m now b =
     (if kStatsLogIntervalMs \<le> now - b_lastStatsMs b
      then map printf ([chain_stats qw (b_node b), relay_stats fw (b_relay b)] @
             (if b_isGateway b then uplink_stats fast full (b_uplink b) else []) @ [heap_stats m now])
      else [])"

lemma report_due: "stats_report qw fw fast full m now b \<noteq> [] \<longleftrightarrow> kStatsLogIntervalMs \<le> now - b_lastStatsMs b"
  by (simp add: stats_report_def)

text \<open>Directly after a report the next one is not due for ten seconds.\<close>

lemma report_once:
  assumes "stats_report qw fw fast full m now b \<noteq> []" and "now' - now < kStatsLogIntervalMs"
  shows "stats_report qw fw fast full m now' (log_stats now us b) = []"
  using assms(1) [unfolded report_due] assms(2) by (auto simp: log_stats_def stats_report_def Let_def)

section \<open>The console banner\<close>

abbreviation nl :: string where
  "nl \<equiv> [CHR 0x0A]"

definition printBanner :: "u8 \<Rightarrow> u8 \<Rightarrow> bytes" where
  "printBanner storedId storedChainSize =
     printf [Txt (nl @ ''=== ESP32-S3-RAP: node not provisioned ==='' @ nl),
       Txt ''Current NVS values: node_id='', Num (unat storedId), Txt '' chain_size='', Num (unat storedChainSize), Txt nl,
       Txt (''Send:  SETID <node_id> <chain_size>'' @ nl),
       Txt (''  node_id 0   = this node is the Gateway (W5500/RJ45)'' @ nl),
       Txt (''  node_id 1..chain_size-1 = relay node'' @ nl),
       Txt (''Example, node 2 of a 5-node chain:  SETID 2 5'' @ nl),
       Txt (''Device restarts automatically once a valid line is received.'' @ nl)]"

text \<open>The example of the banner is a line the console accepts, with the meaning the banner gives it.\<close>

lemma banner_example:
  "sublist (c_text (''SETID 2 5'' @ nl)) (printBanner a b) \<and> parseSetId conv (c_text (''SETID 2 5'' @ nl)) = Some (2, 5)"
proof
  have ex: "c_text (''Example, node 2 of a 5-node chain:  SETID 2 5'' @ nl) =
      c_text ''Example, node 2 of a 5-node chain:  '' @ c_text (''SETID 2 5'' @ nl)"
    by (simp only: c_text_def append.simps list.map)
  have later: "sublist xs zs \<Longrightarrow> sublist xs (ys @ zs)" for xs ys zs :: bytes by (simp add: sublist_append)
  show "sublist (c_text (''SETID 2 5'' @ nl)) (printBanner a b)"
    unfolding printBanner_def printf.simps ex append_assoc
    by (rule later, rule later, rule later, rule later, rule later, rule later, rule later, rule later,
        rule later, rule later, rule sublist_append_rightI)
  show "parseSetId conv (c_text (''SETID 2 5'' @ nl)) = Some (2, 5)" by code_simp
qed

section \<open>Reading the lines back\<close>

lemma wordy_state: "wordy (stateName st)"
proof -
  have "wordy (stateName kDiscovering)" "wordy (stateName kIdle)" "wordy (stateName kForwarding)" by code_simp+
  then show ?thesis by (cases st) simp_all
qed

lemma wordy_ok: "wordy (okText k)"
proof -
  have "wordy (okText True)" "wordy (okText False)" by code_simp+
  then show ?thesis by (cases k) simp_all
qed

lemma wordy_up: "wordy ''up''" "wordy ''-''" "wordy ''n/a''" "wordy ''DOWN''"
  by code_simp+

lemmas wordy_names = wordy_state wordy_ok wordy_up

lemma wordy_chain: "wordy ''stats: node=''" "wordy ''/''" "wordy '' GATEWAY state=''" "wordy '' RELAY state=''"
  "wordy '' prev=''" "wordy '' next=''" "wordy '' | local=''" "wordy '' in=''" "wordy '' sunk=''"
  "wordy '' fwd=''" "wordy '' retx=''" "wordy '' qdrop=''" "wordy '' qlen=''"
  by code_simp+

lemma wordy_relay: "wordy ''stats: prev=''" "wordy '' out=''" "wordy '' (''" "wordy '' KB) drop=''" "wordy '' bad=''"
  "wordy '' | reconnects=''" "wordy '' prev_lost=''" "wordy '' | qlen=''"
  by code_simp+

lemma chain_stats_spaced: "spaced (chain_stats waiting s)"
  by (simp add: chain_stats_def wordy_names wordy_chain)

lemma relay_stats_spaced: "spaced (relay_stats waiting v)"
  by (simp add: relay_stats_def wordy_names wordy_chain wordy_relay)

text \<open>The line of the video relay gives back its counters.\<close>

lemma relay_line_read:
  "numbers (printf (relay_stats waiting v)) =
     [unat (g_vLocal v), unat (g_vIn v), unat (g_vOut v), unat (g_vOutBytes v) div 1024, unat (g_vDrop v),
      unat (g_vSunk v), unat (g_vBad v), unat (g_vReconnects v), unat (g_vPrevDrops v), qlen waiting (v_outQueue v)]"
  unfolding numbers_printf [OF relay_stats_spaced] by (simp add: relay_stats_def unat_div)

section \<open>Retransmissions\<close>

definition retx_ok :: "'q node \<Rightarrow> bool" where
  "retx_ok s \<longleftrightarrow> length (sent s) \<le> length (aired s) \<and>
     of_nat (length (aired s)) = of_nat (length (sent s)) + g_statRetx s"

lemma retx_step:
  assumes "retx_ok s" and "length (sent s') = length (sent s) + k" "length (aired s') = length (aired s) + k + j"
    and "g_statRetx s' = g_statRetx s + of_nat j"
  shows "retx_ok s'"
  using assms by (simp add: retx_ok_def algebra_simps)

lemma retx_init: "retx_ok (chain_init Q now i n node0)"
  by (simp add: retx_ok_def chain_init_def broadcastHello_def emit_def node0_def trace Let_def)

lemma retx_hello: "retx_ok s \<Longrightarrow> retx_ok (loop_hello now s)"
  by (auto simp: retx_ok_def loop_hello_def broadcastHello_def emit_def trace)

lemma retx_local: "retx_ok s \<Longrightarrow> retx_ok (loop_local Q now s)"
  by (auto simp: retx_ok_def loop_local_def outQueueSend_def emit_def trace Let_def split: option.splits)

lemma retx_send: "retx_ok s \<Longrightarrow> retx_ok (loop_send Q now s)"
  by (auto simp: retx_ok_def loop_send_def retransmit_def outQueueReceive_def beginForwarding_def
      sendStatus_def emit_def trace long_status Let_def split: option.splits)

lemma retx_body: "retx_ok s \<Longrightarrow> retx_ok (loop_body Q now s)"
  by (simp add: loop_body_def Let_def retx_hello retx_local retx_send)

lemma retx_handleHello: "retx_ok s \<Longrightarrow> retx_ok (handleHello m h s)"
  by (auto simp: retx_ok_def handleHello_def learnNext_def learnPrev_def emit_def trace Let_def)

lemma retx_handleAck: "retx_ok s \<Longrightarrow> retx_ok (handleAck m a s)"
  by (auto simp: retx_ok_def handleAck_def trace)

lemma retx_setLane: "retx_ok s \<Longrightarrow> retx_ok (setLaneStatus sid oc pl s)"
  by (auto simp: retx_ok_def setLaneStatus_def trace)

lemma retx_handleStatus: "retx_ok s \<Longrightarrow> retx_ok (handleStatus Q m p s)"
  by (auto simp: retx_ok_def handleStatus_def sendAck_def noteAccepted_def outQueueSend_def emit_def
      trace Let_def split: option.splits)

context chain
begin

lemma reach_retx_ok: "net_reach Q N macs n \<Longrightarrow> i < N \<Longrightarrow> retx_ok (nodes n i)"
  by (rule reach_node [where P = retx_ok]) (assumption | rule retx_init retx_body retx_setLane
      retx_handleHello retx_handleAck retx_handleStatus)+

end

section \<open>The line of a node tells the truth\<close>

text \<open>What the node has done, as the numbers of its line.\<close>

definition chain_counts :: "'q node \<Rightarrow> nat list" where
  "chain_counts s =
     (if g_isGateway s then
        [length (filter (\<lambda>r. fst r = g_nodeId s) (flushed s)), length (accepted s), length (flushed s)]
      else
        [length (originated s), length (accepted s),
         length (sent s) - (if g_state s = kForwarding then 1 else 0), length (aired s) - length (sent s),
         length (refused_of (calls s)), length (enqueued s) - length (sent s)])"

definition u32_counts :: "nat list \<Rightarrow> nat list" where
  "u32_counts ns = map (\<lambda>n. n mod 2 ^ 32) ns"

lemma count_u32: "w = of_nat k \<Longrightarrow> unat (w :: u32) = k mod 2 ^ 32"
  by (simp add: unat_of_nat)

lemma gateway_account:
  assumes "stats_ok s" and "g_isGateway s"
  shows "[unat (g_statLocal s), unat (g_statIn s), unat (g_statSunk s)] = u32_counts (chain_counts s)"
proof -
  have "length (flushed s) = length (filter (\<lambda>r. fst r = g_nodeId s) (flushed s)) + length (accepted s)"
    using assms(2) sum_length_filter_compl [of "\<lambda>r. fst r = g_nodeId s" "flushed s"] by (simp add: accepted_def)
  moreover have "g_statLocal s + g_statIn s = of_nat (length (flushed s))" "g_statIn s = of_nat (length (accepted s))"
      "g_statSunk s = of_nat (length (flushed s))"
    using assms by (simp_all add: stats_ok_def)
  ultimately have "g_statLocal s = of_nat (length (filter (\<lambda>r. fst r = g_nodeId s) (flushed s)))"
      "g_statIn s = of_nat (length (accepted s))" "g_statSunk s = of_nat (length (flushed s))"
    by simp_all
  from this [THEN count_u32] show ?thesis using assms(2) by (simp add: chain_counts_def u32_counts_def)
qed

lemma relay_account:
  assumes "stats_ok s" and "retx_ok s" and "\<not> g_isGateway s" and "g_outQueue s \<noteq> None"
    and "g_state s = kForwarding \<longrightarrow> sent s \<noteq> []"
  shows "[unat (g_statLocal s), unat (g_statIn s), unat (g_statForwarded s), unat (g_statRetx s),
    unat (g_statQueueDrops s), (length (enqueued s) - length (sent s)) mod 2 ^ 32] = u32_counts (chain_counts s)"
proof -
  have "g_statForwarded s = of_nat (length (sent s) - (if g_state s = kForwarding then 1 else 0))"
  proof -
    have "(if g_state s = kForwarding then 1 else 0) \<le> length (sent s)"
      using assms(5) by (simp add: Suc_le_eq)
    then show ?thesis using assms(1,3) by (auto simp: stats_ok_def of_nat_diff)
  qed
  moreover have "g_statRetx s = of_nat (length (aired s) - length (sent s))"
    using assms(2) by (simp add: retx_ok_def of_nat_diff)
  moreover have "g_statLocal s = of_nat (length (originated s))" "g_statIn s = of_nat (length (accepted s))"
      "g_statQueueDrops s = of_nat (length (refused_of (calls s)))"
    using assms(1,3,4) by (auto simp: stats_ok_def)
  ultimately show ?thesis
    using assms(3) by (simp add: chain_counts_def u32_counts_def count_u32 split del: if_split)
qed

text \<open>C17: The health line of a node, read back from its text, tells the truth: in every reachable
  network the numbers the Gateway prints are those of its own readings, of the readings it
  accepted from upstream and of all it handed to the uplink; a relay prints the readings it
  originated, the packets it accepted, the packets \<open>next\<close> acknowledged, its retransmissions,
  the packets a full queue refused and the packets that wait (each modulo 2^32).\<close>

theorem stats_line_truthful:
  assumes "chain Q valid contents capacity N macs"
    and "net_reach Q N macs n" and "i < N"
    and "i \<noteq> 0 \<longrightarrow> g_outQueue (nodes n i) \<noteq> None"
    and "\<And>q. valid q \<Longrightarrow> waiting q = of_nat (length (contents q))"
  shows "numbers (printf (chain_stats waiting (nodes n i))) = i # N # u32_counts (chain_counts (nodes n i))"
proof -
  define s where "s = nodes n i"
  have st: "stats_ok s" and rx: "retx_ok s"
    unfolding s_def using chain.reach_stats_ok [OF assms(1-3)] chain.reach_retx_ok [OF assms(1-3)] by auto
  have ok: "node_ok valid contents capacity N macs i s"
    unfolding s_def using chain.net_reach_inv [OF assms(1,2)] assms(3) by (simp add: chain.net_inv_def [OF assms(1)])
  have ids: "unat (g_nodeId s) = i" "unat (g_chainSize s) = N" "g_isGateway s \<longleftrightarrow> i = 0"
    using ok assms(3) chain.small_N [OF assms(1)] by (auto simp: node_ok_def ids_ok_def unat_of_nat_u8)
  show ?thesis
  proof (cases "i = 0")
    case True
    then show ?thesis
      using gateway_account [OF st] ids unfolding s_def [symmetric] numbers_printf [OF chain_stats_spaced]
      by (simp add: chain_stats_def)
  next
    case False
    then obtain q where q: "g_outQueue s = Some q" "queue_inv valid contents capacity q" "capacity q = 8"
        "enqueued s = sent s @ contents q"
      using ok assms(4) by (auto simp: s_def [symmetric] node_ok_def queue_ok_def config_defs)
    have "qlen waiting (g_outQueue s) = (length (enqueued s) - length (sent s)) mod 2 ^ 32"
      using q assms(5) [of q] by (simp add: qlen_def queue_inv_def count_u32)
    moreover have "g_state s = kForwarding \<longrightarrow> sent s \<noteq> []" using ok by (simp add: node_ok_def traffic_ok_def)
    ultimately show ?thesis
      using relay_account [OF st rx] ids False q(1) unfolding s_def [symmetric] numbers_printf [OF chain_stats_spaced]
      by (simp add: chain_stats_def)
  qed
qed

theorem stats_line_truthful_witness:
  "let line = (\<lambda>i. printf (chain_stats (\<lambda>q. of_nat (length (fst q))) (nodes (trio_net trio_end) i)))
   in numbers (line 0) = [0, 3, 0, 2, 2] \<and> numbers (line 1) = [1, 3, 1, 0, 1, 1, 0, 0]"
proof -
  have q: "1 \<noteq> (0::nat) \<longrightarrow> g_outQueue (nodes (trio_net trio_end) 1) \<noteq> None" unfolding trio_node by code_simp
  let ?w = "\<lambda>q. of_nat (length (fst q)) :: u32"
  have line0: "numbers (printf (chain_stats ?w (nodes (trio_net trio_end) 0))) = 0 # 3 # u32_counts (chain_counts (nodes (trio_net trio_end) 0))"
    by (rule stats_line_truthful [OF trio_chain trio_reach]) simp_all
  have line1: "numbers (printf (chain_stats ?w (nodes (trio_net trio_end) 1))) = 1 # 3 # u32_counts (chain_counts (nodes (trio_net trio_end) 1))"
    by (rule stats_line_truthful [OF trio_chain trio_reach _ q]) simp_all
  have acc: "chain_counts (nodes (trio_net trio_end) 0) = [0, 2, 2]"
      "chain_counts (nodes (trio_net trio_end) 1) = [1, 0, 1, 1, 0, 0]"
    unfolding trio_node by code_simp+
  show ?thesis unfolding Let_def line0 line1 acc by (simp add: u32_counts_def)
qed

end
