(* ===== verification/Wiring.thy ===== *)
theory Wiring
  imports Config
begin

text \<open>
  The SPI wiring of config.h and the configurations the two SPI users hand to their drivers:
  main/gateway_uplink.cpp the bus and device of the W5500 (the board is the master),
  main/luckfox_spi.cpp the slave side of the link to the camera board. The Gateway runs both
  at once: they share neither a controller nor a pin.
\<close>

section \<open>Hosts, pins and clock\<close>

datatype spi_host_device_t = SPI1_HOST | SPI2_HOST | SPI3_HOST

named_theorems wiring_defs "pins, hosts and clocks"

definition kEthSpiHost :: spi_host_device_t where [wiring_defs]: "kEthSpiHost = SPI3_HOST"
definition kEthSpiClockMhz :: int where [wiring_defs]: "kEthSpiClockMhz = 8"
definition kEthCsPin :: int where [wiring_defs]: "kEthCsPin = 7"
definition kEthSckPin :: int where [wiring_defs]: "kEthSckPin = 6"
definition kEthMisoPin :: int where [wiring_defs]: "kEthMisoPin = 5"
definition kEthMosiPin :: int where [wiring_defs]: "kEthMosiPin = 4"
definition kEthIntPin :: int where [wiring_defs]: "kEthIntPin = 9"

definition kLuckfoxSpiHost :: spi_host_device_t where [wiring_defs]: "kLuckfoxSpiHost = SPI2_HOST"
definition kLuckfoxSpiMosiPin :: int where [wiring_defs]: "kLuckfoxSpiMosiPin = 11"
definition kLuckfoxSpiMisoPin :: int where [wiring_defs]: "kLuckfoxSpiMisoPin = 13"
definition kLuckfoxSpiSckPin :: int where [wiring_defs]: "kLuckfoxSpiSckPin = 12"
definition kLuckfoxSpiCsPin :: int where [wiring_defs]: "kLuckfoxSpiCsPin = 10"

section \<open>What the drivers are given\<close>

text \<open>The assigned fields of \<open>spi_bus_config_t\<close>, and of the device and slave structs; -1 is no pin.\<close>

record spi_bus_config =
  mosi_io_num :: int
  miso_io_num :: int
  sclk_io_num :: int
  quadwp_io_num :: int
  quadhd_io_num :: int

record spi_device_config =
  dev_mode :: nat
  clock_speed_hz :: int
  dev_queue_size :: nat
  dev_spics_io_num :: int

record spi_slave_config =
  sl_mode :: nat
  sl_spics_io_num :: int
  sl_queue_size :: nat
  sl_flags :: nat

record w5500_config =
  w_host :: spi_host_device_t
  w_device :: spi_device_config
  int_gpio_num :: int
  poll_period_ms :: nat

definition eth_bus :: spi_bus_config where [wiring_defs]:
  "eth_bus = \<lparr>mosi_io_num = kEthMosiPin, miso_io_num = kEthMisoPin, sclk_io_num = kEthSckPin,
     quadwp_io_num = -1, quadhd_io_num = -1\<rparr>"

definition eth_device :: spi_device_config where [wiring_defs]:
  "eth_device = \<lparr>dev_mode = 0, clock_speed_hz = kEthSpiClockMhz * 1000 * 1000, dev_queue_size = 20,
     dev_spics_io_num = kEthCsPin\<rparr>"

text \<open>The driver's default configuration for a host and a device is the argument \<open>dflt\<close>.\<close>

definition eth_w5500 :: "(spi_host_device_t \<Rightarrow> spi_device_config \<Rightarrow> w5500_config) \<Rightarrow> w5500_config" where
  "eth_w5500 dflt =
     (let w = (dflt kEthSpiHost eth_device)\<lparr>int_gpio_num := kEthIntPin\<rparr>
      in if kEthIntPin < 0 then w\<lparr>poll_period_ms := 10\<rparr> else w)"

definition luckfox_bus :: spi_bus_config where [wiring_defs]:
  "luckfox_bus = \<lparr>mosi_io_num = kLuckfoxSpiMosiPin, miso_io_num = kLuckfoxSpiMisoPin,
     sclk_io_num = kLuckfoxSpiSckPin, quadwp_io_num = -1, quadhd_io_num = -1\<rparr>"

definition luckfox_slave :: spi_slave_config where [wiring_defs]:
  "luckfox_slave = \<lparr>sl_mode = 0, sl_spics_io_num = kLuckfoxSpiCsPin, sl_queue_size = 3, sl_flags = 0\<rparr>"

text \<open>The pins that get a pull-up.\<close>

definition luckfox_pullups :: "int list" where [wiring_defs]:
  "luckfox_pullups = [kLuckfoxSpiMosiPin, kLuckfoxSpiSckPin, kLuckfoxSpiCsPin]"

section \<open>No conflict\<close>

definition bus_pins :: "spi_bus_config \<Rightarrow> int list" where
  "bus_pins b = filter (\<lambda>p. 0 \<le> p)
     [mosi_io_num b, miso_io_num b, sclk_io_num b, quadwp_io_num b, quadhd_io_num b]"

definition eth_pins :: "(spi_host_device_t \<Rightarrow> spi_device_config \<Rightarrow> w5500_config) \<Rightarrow> int list" where
  "eth_pins dflt = bus_pins eth_bus @ [dev_spics_io_num eth_device, int_gpio_num (eth_w5500 dflt)]"

definition luckfox_pins :: "int list" where
  "luckfox_pins = bus_pins luckfox_bus @ [sl_spics_io_num luckfox_slave]"

lemma no_shared_pin: "distinct (eth_pins dflt @ luckfox_pins) \<and> kEthSpiHost \<noteq> kLuckfoxSpiHost"
  by (simp add: eth_pins_def luckfox_pins_def bus_pins_def eth_w5500_def wiring_defs)

text \<open>The W5500 is driven by its interrupt line: the polling period stays as the driver has it.\<close>

lemma eth_interrupt_driven: "poll_period_ms (eth_w5500 dflt) = poll_period_ms (dflt kEthSpiHost eth_device)"
  by (simp add: eth_w5500_def wiring_defs)

text \<open>Every line of the camera link that the slave listens to has a pull-up; MISO, which it drives, has none.\<close>

lemma pullups_on_inputs: "set luckfox_pullups = set luckfox_pins - {miso_io_num luckfox_bus}"
  by (auto simp: luckfox_pins_def bus_pins_def wiring_defs)

text \<open>
  The comment of config.h asks for the W5500 on GPIO 4, 5, 6 and 7 as CS, SCK, MOSI and MISO;
  the constants are in the opposite order.
\<close>

lemma eth_pin_order:
  "[dev_spics_io_num eth_device, sclk_io_num eth_bus, miso_io_num eth_bus, mosi_io_num eth_bus] = [7, 6, 5, 4]"
  by (simp add: wiring_defs)

end
