(* ===== verification/Spec2Isabelle.thy ===== *)
theory Spec2Isabelle
  imports ChainProps Provision UplinkProps VideoProps LuckfoxProps MainProps SiteProps Stats Wiring
begin

text \<open>
  Verification of the firmware of the ESP32-S3 parking-lot chain (the C++ sources under main/).

  THE PROGRAM. Boards stand in a chain. Node 0, the Gateway, has an Ethernet port; every other
  node is a relay. A camera board (LuckFox) sits on the SPI bus of each. Readings of the
  parking lanes travel to the Gateway over ESP-NOW, hop by hop, each hop a stop-and-wait
  protocol with acknowledgements, retransmission and duplicate suppression
  (chain_node.cpp over espnow_transport.cpp); images travel over TCP between WiFi neighbours
  (video_relay.cpp). The Gateway hands both to its Ethernet uplink, which sends a reading
  as a line of text over TCP and an image as UDP datagrams (gateway_uplink.cpp). A board's
  place in the chain comes from NVS or from the console (provisioning.cpp); main.cpp boots
  the modules and polls them.

  THEORIES. Prelude (bytes, little-endian layout, C strings), Config (config.h), Rtos (the
  FreeRTOS queue), Heap (heap_caps_malloc/free) and Sockets (connectWithTimeout, sendAll,
  recvAll) are shared.
    main/protocol.h               Wire: the three packets and their byte layout.
    main/espnow_transport.cpp     Espnow: onDataRecv, poll (alone, and with frames arriving
      during its drain: poll_live), addPeer, espnow_send, espnow_init.
    main/chain_node.cpp           ChainNode: record node = the file-level variables; one
      definition per handler; loop_body = loop() after its poll, in three stages.
    main/gateway_uplink.cpp       Uplink: record uplink; flush, status_step, flushOne
      and statusUplinkTask; flushVideo, video_step, chunk and videoUplinkTask; uplink_init,
      ethEventHandler, uplink_logStats (the watchdog).
    main/video_relay.cpp          VideoRelay: record relay; server_iter, server_conn,
      server_session and serverTask; client_iter, client_conn and client_round (clientTask);
      enqueueOrDrop, sinkFrame, onLuckfoxFrame, selfTestProducer, relay_init.
    main/luckfox_spi.cpp          LuckfoxSpi: wait_header, receive_status, receive_frame,
      receiver_pass (receiverTask), spi_init.
    main/provisioning.cpp         Provision: parseSetId, loadOrProvision, with its own lemmas.
    main/main.cpp                 MainLoop: app_main, main_pass, and board_exec, the events of
      a board in any order.
    The SPI wiring of config.h and what the two drivers are configured with: Wiring. The lines
    of logStats in the three modules, the report of main.cpp and the console banner: Stats.
  A module's file-level variables are the fields of its record, an operation maps the record
  (and the heap, where it allocates or frees) to the new one. A node logs what it asks of
  other modules (the field calls); ChainTrace reads the log, MainLoop carries it out.

  LEMMAS. StopAndWait is the abstract specification of a hop. ChainInv, ChainSteps and
  ChainRecv give the node invariant and the effect of each operation on the node's two links;
  ChainNet joins N nodes and lossy, duplicating channels and proves that each hop refines
  StopAndWait; ChainRun has executable runs, ChainCounts the numbering and counters.
  ChainTime has the chain under honest clocks (a clock per board that only goes forward, also
  between the readings within a pass) and the time stamps that occur under them; ChainDrain a
  schedule that empties the chain from any state so reachable within 5.3 seconds of every
  board's clock; ChainProps the properties of the chain. UplinkProps: round trips of the line and the
  datagrams, the accounts of readings and buffers, watchdog. VideoInv: ownership of frame
  buffers; VideoLink: a TCP connection from both ends; VideoProps: the properties of the
  relay; VideoNet and VideoChain: the video network of N boards and the connections between
  them, as one line of frames along which every step moves or loses some; Backend: the chain
  and the uplink of its Gateway as one plant, from the lanes to the lines the backend takes.
  LuckfoxProps: the camera link stays in step. MainProps: the invariant of a whole board.
  Site: an installation of N complete boards (board_exec on each, from app_main on) with the
  frames on the air and the TCP connections between them; SiteStatus simulates it by the
  plant of Backend and SiteVideo by the network of VideoChain, so that both paths end to end
  hold of the boards as they boot and run (SiteProps); the video path as long as no drain of
  a frame without a buffer times out (in_step), since after that the server is out of
  step with the stream (drain_failure_misframes). Stats: the numbers of a health line are those
  of the node's log; Wiring: no pin is used twice. This theory has the properties of one
  board that span modules.

  INTERFACES. What the repository does not contain is an argument, and its documented
  behaviour a locale: rtos_queue, peer_table, allocator, nvs_store, tcp_stream, tcp_live,
  tcp_sink, spi_slave, spi_link; rx_queue, uplink_queues, video_board, video_net, chain,
  whole_board and site_parts join them for their clients. Each is interpreted on an executable instance (list_queue,
  list_peers, pool_alloc, flash_ops, seg_recv, mss_send, feed, bench), on which the
  witnesses of the properties run the model.

  BOUNDS. Every integer has the width of the source and wraps; the ACK timer's wrap is
  exhibited (ack_timer_wraps), counters are exact modulo 2^32. In the safety properties the
  clock readings of a pass are any integers; in the liveness properties (chain_never_wedged,
  backend_catches_up) they come from honest clocks that do not wrap within the schedule. Its
  5.3 seconds are the longest interval between two HELLOs or readings (5 s) and one
  acknowledgement timeout (300 ms). Chains have 2 to 64 nodes.
  Loops that end are total functions; the drain of the receive queue (poll_loop, drain_live)
  and the wait for a header (wait_header) are partial functions; when they return is proved
  from the contracts (loop_iteration, spi_wait_paced), also that a drain which finds a
  new frame at every look never does. The loops of the tasks never end: they are given by one pass and
  by runs of any number n of passes.

  GRANULARITY. A handler, a pass of a task or a pass of the polling loop is one step; steps of
  different tasks interleave freely, but not inside one another (the drain of the receive
  queue with arrivals in between is treated by itself, in loop_live; without arrivals it is
  the one main_pass uses). main_pass carries out the
  node's calls after the pass that made them: the modules they change are not read by the
  node. A queue send that waits for room counts as tried when the wait is over.

  NOT MODELLED. The other log lines; task creation (its failure is not checked by the
  source either); the WiFi, lwIP, NVS and SPI drivers beyond their contracts; the build
  files and documents.
\<close>

section \<open>Memory of a board\<close>

text \<open>C7: On a board that has booted, whatever happens afterwards in whatever order (passes of the
  polling loop, frames of the radio, images and readings of the camera board cut short or not,
  connections that come, deliver, stall and go, sends that fail, link changes), no frame buffer
  is leaked, freed twice or shared: each live buffer belongs to exactly one queued frame and
  is as long as that frame's header says; and no more than 12 frames of at most 256 KB wait in
  either queue.\<close>

theorem board_memory_safe:
  assumes "whole_board pf fv fc fcap vv vc vcap sv sc scap rv rc rcap inb"
    and "app_main pf V conv e now p n console = BootRunning b0"
    and "b_isGateway b0 \<or> v_outQueue (b_relay b0) \<noteq> None"
    and "b = fold (board_exec pf) evs b0"
  shows "\<not> bad_free (b_heap b) \<and>
    live (b_heap b) = set (map (the \<circ> fr_data) (out_frames fc (b_relay b)) @ map vi_data (up_items vc (b_uplink b))) \<and>
    distinct (map (the \<circ> fr_data) (out_frames fc (b_relay b)) @ map vi_data (up_items vc (b_uplink b))) \<and>
    (\<forall>f \<in> set (out_frames fc (b_relay b)). sized (b_heap b) (the (fr_data f), fh_data_len (fr_header f))) \<and>
    (\<forall>it \<in> set (up_items vc (b_uplink b)). sized (b_heap b) (vi_data it, vi_data_len it)) \<and>
    length (out_frames fc (b_relay b)) \<le> 12 \<and> length (up_items vc (b_uplink b)) \<le> 12"
proof -
  have vb: "video_board (pf_frames pf) fv fc fcap (pf_video pf) vv vc vcap (pf_alloc pf)"
    using assms(1) by (simp add: whole_board_def)
  have "whole_board.board_inv pf fv fc fcap vv vc vcap sv sc scap rv rc rcap b"
    unfolding assms(4) using assms(1-3)
    by (intro whole_board.board_run_inv whole_board.app_main_inv)
  then have ok: "video_board.relay_ok fv fc fcap (b_relay b)" "video_board.uplink_ok vv vc vcap (b_uplink b)"
    and "holds (b_heap b) (video_board.relay_bufs fc (b_relay b) @ video_board.uplink_bufs vc (b_uplink b))"
    by (simp_all add: whole_board.board_inv_def [OF assms(1)] video_board.board_ok_def [OF vb])
  note this(3)
  moreover have "video_board.relay_bufs fc (b_relay b) = map frame_buf (out_frames fc (b_relay b))"
    "video_board.uplink_bufs vc (b_uplink b) = map item_buf (up_items vc (b_uplink b))"
    by (simp_all add: video_board.relay_bufs_def [OF vb] video_board.uplink_bufs_def [OF vb]
        out_frames_def up_items_def split: option.split)
  moreover have "fst \<circ> frame_buf = the \<circ> fr_data" "fst \<circ> item_buf = vi_data"
    by (auto simp: frame_buf_def item_buf_def)
  moreover have "length (out_frames fc (b_relay b)) \<le> 12" "length (up_items vc (b_uplink b)) \<le> 12"
    using ok by (auto simp: video_board.relay_ok_def [OF vb] video_board.uplink_ok_def [OF vb] out_frames_def
        up_items_def queue_inv_def config_defs split: option.splits)
  ultimately show ?thesis
    by (auto simp: holds_def owns_def frame_buf_def item_buf_def)
qed

text \<open>Relay 2 of 5: an image of the camera board, a cut frame from prev, a pass of the client.\<close>

definition relay_day :: "(bytes option list, segments) board_event list" where
  "relay_day = [MainPass (at 600) 600000 600000, VideoEv EvAccept,
     SpiPass (link_of (concat (map msg_txns some_messages))),
     VideoEv (EvServer [[5, 2, 3, 0, 3, 0, 0, 0, 7, 8, 9]]), VideoEv (EvServer [[5, 2, 4, 0, 3, 0, 0, 0, 7]]),
     VideoEv EvClose, VideoEv EvConnect, VideoEv (EvClient (\<lambda>bs n. (int (length bs), n)) 0)]"

theorem board_memory_safe_witness:
  "let b = fold (board_exec bench) relay_day (bench_board 2 5)
   in \<not> bad_free (b_heap b) \<and> live (b_heap b) = set (map (the \<circ> fr_data) (out_frames fst (b_relay b)) @
        map vi_data (up_items fst (b_uplink b)))"
proof -
  have "valid_identity 2 5" by (simp add: valid_identity_def config_defs)
  from board_memory_safe [OF on_bench.whole_board_axioms bench_boots [OF this] bench_ready refl, of relay_day]
  show ?thesis by (simp add: Let_def)
qed

section \<open>Readings of the Gateway\<close>

text \<open>C11: On a board that has booted, in any run, every reading the chain has sunk is accounted
  for by the uplink: it is sent, counted as dropped, or in the status queue, which holds at
  most 32; and the next pass of the polling loop always returns.\<close>

theorem sunk_readings_accounted:
  assumes "whole_board pf fv fc fcap vv vc vcap sv sc scap rv rc rcap inb"
    and "app_main pf V conv e now p n console = BootRunning b0"
    and "b_isGateway b0 \<or> v_outQueue (b_relay b0) \<noteq> None"
    and "b = fold (board_exec pf) evs b0" and "g_statusQueue (b_uplink b) = Some q"
  shows "g_statSunk (b_node b) = g_stSent (b_uplink b) + g_stDropped (b_uplink b) + of_nat (length (sc q)) \<and>
    length (sc q) \<le> 32 \<and> main_pass pf now' us us' b \<noteq> None"
proof -
  have uq: "uplink_queues (pf_status pf) sv sc scap (pf_video pf) vv vc vcap"
    using assms(1) by (simp add: whole_board_def)
  have inv: "whole_board.board_inv pf fv fc fcap vv vc vcap sv sc scap rv rc rcap b"
    unfolding assms(4) using assms(1-3)
    by (intro whole_board.board_run_inv whole_board.app_main_inv)
  then have "main_pass pf now' us us' b \<noteq> None"
    using whole_board.main_pass_inv [OF assms(1), of b now' us us'] by auto
  with inv assms(5) show ?thesis
    by (simp add: whole_board.board_inv_def [OF assms(1)] uplink_queues.status_ok_def [OF uq] sunk_ok_def
        queue_inv_def)
qed

text \<open>The Gateway of two: the HELLO of the relay, two ticks with the link down and up, one send.\<close>

definition gateway_day :: "(bytes option list, segments) board_event list" where
  "gateway_day = [WifiRecv (station 1) [1, 1, 2] 3, MainPass (at 3000) 3000000 3000000,
     VideoEv (EvUplink (EvStatusTask up_sock)), VideoEv (EvUplink (EvEth ETHERNET_EVENT_CONNECTED)),
     MainPass (at 6000) 6000000 6000000, VideoEv (EvUplink (EvStatusTask up_sock)), MainPass (at 9000) 9000000 9000000]"

theorem sunk_readings_accounted_witness:
  "let b = fold (board_exec bench) gateway_day (bench_board 0 2)
   in g_statSunk (b_node b) = 3 \<and> g_stSent (b_uplink b) = 1 \<and> g_stDropped (b_uplink b) = 1 \<and>
      (\<exists>q. g_statusQueue (b_uplink b) = Some q \<and> length (fst q) = 1)"
proof -
  let ?b = "fold (board_exec bench) gateway_day (bench_board 0 2)"
  have id: "valid_identity 0 2" by (simp add: valid_identity_def config_defs)
  have run: "g_statSunk (b_node ?b) = 3" "g_stSent (b_uplink ?b) = 1" "g_stDropped (b_uplink ?b) = 1"
      "map_option fst (g_statusQueue (b_uplink ?b)) \<noteq> None"
    by code_simp+
  then obtain q where q: "g_statusQueue (b_uplink ?b) = Some q" by auto
  have "3 = (2 + of_nat (length (fst q)) :: u32) \<and> length (fst q) \<le> 32"
    using sunk_readings_accounted [OF on_bench.whole_board_axioms bench_boots [OF id] bench_ready refl q] run
    by simp
  then have "of_nat (length (fst q)) = (1 :: u32)" "length (fst q) \<le> 32" by (auto simp: algebra_simps)
  then have "unat (of_nat (length (fst q)) :: u32) = 1" "length (fst q) \<le> 32" by simp_all
  then have "length (fst q) = 1" by (simp add: unat_of_nat)
  with run(1-3) q show ?thesis by (cases q) (simp add: Let_def)
qed

text \<open>C10: A reading of the camera board ends up in the line the backend reads: on a Gateway with
  the link up and an idle uplink, when the reading for the lane whose turn it is has come in
  over SPI, the next due tick and the next pass of the status task send one line, and that
  line names this node, the lane, the occupancy and the plate (cut to eleven characters).\<close>

theorem lane_reading_to_line:
  assumes "spi_link (pf_spi pf) pend" and "rtos_queue (pf_status pf) sv sc scap"
    \<comment> \<open>the board\<close>
    and "b_spiUp b" and "g_isGateway (b_node b)" and "g_localStream (b_node b) < kVideoStreamsPerNode"
    and "length (g_laneOccupied (b_node b)) = 3" and "length (g_lanePlate (b_node b)) = 3"
    and "g_linkUp (b_uplink b)" and "g_statusQueue (b_uplink b) = Some q" and "queue_inv sv sc scap q"
    and "sc q = []" and "0 < scap q"
    \<comment> \<open>the transactions of the reading, for the lane whose turn it is\<close>
    and "status_header hdr" and "wh_stream_id hdr = g_localStream (b_node b)"
    and "length (ls_plate l) = kMaxPlateLen + 1" and "10 \<notin> set (c_str (ls_plate l))"
    and "pend (sp_link r) = noise @ Some (enc_wire_header hdr @ pad) # Some (enc_lane_status l @ pad') # rest"
    and "list_all no_hdr noise"
    \<comment> \<open>the tick is due, and the backend takes the line\<close>
    and "kStatusLocalIntervalMs \<le> nowMs (now LocalDue) - g_lastLocalMs (b_node b)"
    and "se_socket_ok e" and "fst (connectWithTimeout (se_connect e) status_dest kStatusConnectTimeoutMs)"
    and "\<And>line. se_send e line = int (length line)"
  shows "let b1 = board_exec pf (SpiPass r) b;
      s2 = loop_local (pf_out pf) now (b_node b1);
      b2 = fold (route_call pf) (new_calls (b_node b1) s2) (b1\<lparr>b_node := s2\<rparr>)
    in case status_step (pf_status pf) e (b_uplink b2) of (u3, lines) \<Rightarrow>
      map parse_line lines = [(unat (g_nodeId (b_node b)), unat (wh_stream_id hdr), unat (ls_occupied l),
        take kMaxPlateLen (c_str (ls_plate l)))] \<and>
      g_stSent u3 = g_stSent (b_uplink b) + 1"
proof -
  let ?k = "g_localStream (b_node b)"
  let ?pl = "(ls_plate l)[kMaxPlateLen := 0]"
  let ?s1 = "setLaneStatus ?k (ls_occupied l) ?pl (b_node b)"
  let ?b1 = "b\<lparr>b_node := ?s1\<rparr>"
  have b1: "board_exec pf (SpiPass r) b = ?b1"
    using spi_link.pass_status [OF assms(1,13,15,17,18), of "pf_time pf" "pf_alloc pf"
        "board_callbacks (pf_frames pf) (pf_video pf)" "(b_node b, b_relay b, b_uplink b)" "b_heap b"] assms(3,14)
    by (auto simp: on_status_def board_callbacks_def)
  have same: "g_isGateway ?s1 = g_isGateway (b_node b)" "g_lastLocalMs ?s1 = g_lastLocalMs (b_node b)"
      "g_nodeId ?s1 = g_nodeId (b_node b)" "g_localStream ?s1 = ?k"
    by (simp_all add: setLaneStatus_def)
  let ?p = "localPacket now ?s1"
  have p: "occupied ?p = ls_occupied l" "c_str (plate ?p) = take kMaxPlateLen (c_str (ls_plate l))"
    using lane_packet [OF assms(6,7,5)] c_str_cut [of "ls_plate l" kMaxPlateLen] assms(15) by simp_all
  let ?it = "status_item (g_nodeId (b_node b)) ?k (occupied ?p) (plate ?p)"
  have tick: "new_calls ?s1 (loop_local (pf_out pf) now ?s1) =
      [UplinkFlush (g_nodeId (b_node b)) ?k (occupied ?p) (plate ?p)]"
    using gateway_tick [of ?s1 now "pf_out pf"] assms(4,19) same by simp
  obtain q1 where q1: "q_send (pf_status pf) q ?it = Some q1" "queue_inv sv sc scap q1" "sc q1 = [?it]"
    using rtos_queue.send_None_iff [OF assms(2,10), of ?it] rtos_queue.send_SomeD [OF assms(2), of q ?it]
      assms(10-12) by (auto simp: queue_inv_def)
  obtain q2 where q2: "q_receive (pf_status pf) q1 = Some (?it, q2)"
    using rtos_queue.receive_Some_iff [OF assms(2) q1(2,3)] by auto
  have "parse_line (status_line ?it) = (unat (g_nodeId (b_node b)), unat ?k, unat (ls_occupied l),
      take kMaxPlateLen (c_str (ls_plate l)))"
    using line_parses [of "plate ?p"] assms(16) p by (auto dest: in_set_takeD)
  then show ?thesis
    unfolding b1
    using assms(8,9,14,20-22) q1(1) q2
    by (simp add: tick flush_def status_step_def flushOne_def)
qed

definition lane0 :: WireHeader where
  "lane0 = reading1\<lparr>wh_stream_id := 0\<rparr>"

definition car :: LaneStatusWire where
  "car = \<lparr>ls_occupied = 1, ls_plate = replicate 12 66\<rparr>"

theorem lane_reading_to_line_witness:
  "let b1 = board_exec bench (SpiPass (link_of [Some (enc_wire_header lane0), Some (enc_lane_status car)]))
        (board_exec bench (VideoEv (EvUplink (EvEth ETHERNET_EVENT_CONNECTED))) (bench_board 0 2));
      s2 = loop_local list_queue (at 3000) (b_node b1);
      b2 = fold (route_call bench) (new_calls (b_node b1) s2) (b1\<lparr>b_node := s2\<rparr>)
    in map parse_line (snd (status_step list_queue up_sock (b_uplink b2))) = [(0, 0, 1, replicate 11 66)]"
proof -
  let ?b = "board_exec bench (VideoEv (EvUplink (EvEth ETHERNET_EVENT_CONNECTED))) (bench_board 0 2)"
  let ?r = "link_of [Some (enc_wire_header lane0), Some (enc_lane_status car)]"
  have board: "b_spiUp ?b" "g_isGateway (b_node ?b)" "g_localStream (b_node ?b) = 0"
      "length (g_laneOccupied (b_node ?b)) = 3" "length (g_lanePlate (b_node ?b)) = 3"
      "g_linkUp (b_uplink ?b)" "g_statusQueue (b_uplink ?b) = Some ([], 32)" "g_nodeId (b_node ?b) = 0"
      "g_lastLocalMs (b_node ?b) = 0"
    by code_simp+
  have q: "queue_inv (\<lambda>_. True) fst snd ([] :: StatusItem list, 32)" by (simp add: queue_inv_def)
  have hdr: "status_header lane0" "wh_stream_id lane0 = g_localStream (b_node ?b)"
    unfolding board
    by (simp_all add: lane0_def reading1_def status_header_def sizeof_LaneStatusWire_def kMaxPlateLen_def)
  have plate: "length (ls_plate car) = kMaxPlateLen + 1" "10 \<notin> set (c_str (ls_plate car))"
      "take kMaxPlateLen (c_str (ls_plate car)) = replicate 11 66"
    by code_simp+
  have clocked: "map (map_option to_chunk) (sp_link ?r) =
      [] @ Some (enc_wire_header lane0 @ replicate 3988 0) # Some (enc_lane_status car @ replicate 3987 0) # []"
    by (simp add: link_of_def to_chunk_def kLuckfoxSpiChunkBytes_def sizeof_WireHeader_def enc_lane_status_def car_def)
  have due: "kStatusLocalIntervalMs \<le> nowMs (at 3000 LocalDue) - g_lastLocalMs (b_node ?b)"
      "g_localStream (b_node ?b) < kVideoStreamsPerNode"
    unfolding board by code_simp+
  have sock: "se_socket_ok up_sock" "fst (connectWithTimeout (se_connect up_sock) status_dest kStatusConnectTimeoutMs)"
      "se_send up_sock line = int (length line)" for line
    by (simp_all add: up_sock_def connectWithTimeout_def Let_def)
  have parts: "spi_link (pf_spi bench) (map (map_option to_chunk))"
      "rtos_queue (pf_status bench) (\<lambda>_. True) fst snd"
    by (simp_all add: bench_parts fed.spi_link_axioms lq.rtos_queue_axioms)
  note line = lane_reading_to_line [where now = "at 3000" and r = ?r and noise = "[]", OF parts board(1,2) due(2) board(4-7) q _ _ hdr plate(1,2) _ _ due(1) sock]
  have "let b1 = board_exec bench (SpiPass ?r) ?b;
      s2 = loop_local list_queue (at 3000) (b_node b1);
      b2 = fold (route_call bench) (new_calls (b_node b1) s2) (b1\<lparr>b_node := s2\<rparr>)
    in case status_step list_queue up_sock (b_uplink b2) of (u3, lines) \<Rightarrow>
      map parse_line lines = [(unat (g_nodeId (b_node ?b)), unat (wh_stream_id lane0), unat (ls_occupied car),
        take kMaxPlateLen (c_str (ls_plate car)))] \<and>
      g_stSent u3 = g_stSent (b_uplink ?b) + 1"
    using line [OF _ _ clocked, unfolded bench_parts] by simp
  moreover have "unat (g_nodeId (b_node ?b)) = 0" "unat (wh_stream_id lane0) = 0" "unat (ls_occupied car) = 1"
    unfolding board by (simp_all add: lane0_def reading1_def car_def)
  ultimately show ?thesis
    unfolding Let_def case_prod_unfold by (simp only: plate(3))
qed

end
